(* ===== verification/Prelude.thy ===== *)
theory Prelude
  imports Main "HOL-Library.Word" "HOL-Library.Multiset" "HOL-Library.Monad_Syntax"
begin

text \<open>
  Shared vocabulary of the development: the error numbers the modelled functions return, the
  fixed-width integer types, and the list, map and relation facts the components share.

  \<^item> A C function that returns \<open>0\<close> or a negative errno is a function into \<open>err + 'a\<close>,
    \<open>Inl e\<close> standing for \<open>-e\<close>.
  \<^item> A failed \<open>assert()\<close> ends the process.  A function that can reach one returns an
    \<open>option\<close>, and \<open>None\<close> is the abort.
\<close>

unbundle bit_operations_syntax

type_synonym u8 = "8 word"
type_synonym u32 = "32 word"
type_synonym u64 = "64 word"

datatype err =
    EINVAL | EEXIST | ENOMEM | ENOEXEC | EAGAIN | EALREADY | EBADR | ECOMM | EPROTO
  | EOPNOTSUPP | ENOLINK | ESTALE | ENOENT | ERFKILL | EDEADLK | EIO | EBADMSG | ENOTUNIQ
  | EPIPE | EDESTADDRREQ | ENAMETOOLONG | EBUSY | EPERM | ERANGE | EIDRM | ESHUTDOWN | ECANCELED

named_theorems job_defs \<open>definitions of the job type algebra\<close>
named_theorems view_simps \<open>how the views of the transaction heap react to an update\<close>

section \<open>Scans\<close>

lemma find_SomeD: "find P xs = Some x \<Longrightarrow> x \<in> set xs \<and> P x"
  by (induction xs) (auto split: if_splits)

lemma find_NoneD: "find P xs = None \<Longrightarrow> x \<in> set xs \<Longrightarrow> \<not> P x"
  by (auto simp: find_None_iff)

end
