(* ===== verification/Unit_Dependency.thy ===== *)
theory Unit_Dependency
  imports Prelude
begin

text \<open>
  The unit vocabulary (\<open>src/basic/unit-def.h\<close>, \<open>src/core/unit.h\<close>) and the dependency atoms
  (\<open>src/core/unit-dependency-atom.[ch]\<close>).

  A dependency type such as \<open>Requires=\<close> stands for a set of atoms, kept as a 64-bit mask.  The
  engine walks dependencies by atom: \<open>UNIT_FOREACH_DEPENDENCY\<close> first asks
  \<open>unit_dependency_from_unique_atom\<close> whether a single dependency type carries the atom and then
  looks only there; otherwise it scans every type.  The main result says that for every single
  atom the shortcut visits exactly the units of the full scan.
\<close>

section \<open>Enumerations of unit-def.h\<close>

datatype unit_type =
    UNIT_SERVICE | UNIT_MOUNT | UNIT_SWAP | UNIT_SOCKET | UNIT_TARGET | UNIT_DEVICE
  | UNIT_AUTOMOUNT | UNIT_TIMER | UNIT_PATH | UNIT_SLICE | UNIT_SCOPE

datatype unit_load_state =
    UNIT_STUB | UNIT_LOADED | UNIT_NOT_FOUND | UNIT_BAD_SETTING | UNIT_ERROR | UNIT_MERGED
  | UNIT_MASKED

datatype unit_active_state =
    UNIT_ACTIVE | UNIT_RELOADING | UNIT_INACTIVE | UNIT_FAILED | UNIT_ACTIVATING
  | UNIT_DEACTIVATING | UNIT_MAINTENANCE

datatype unit_dependency =
    UNIT_REQUIRES | UNIT_REQUISITE | UNIT_WANTS | UNIT_BINDS_TO | UNIT_PART_OF
  | UNIT_UPHOLDS | UNIT_REQUIRED_BY | UNIT_REQUISITE_OF | UNIT_WANTED_BY | UNIT_BOUND_BY
  | UNIT_CONSISTS_OF | UNIT_UPHELD_BY | UNIT_CONFLICTS | UNIT_CONFLICTED_BY | UNIT_BEFORE
  | UNIT_AFTER | UNIT_ON_SUCCESS | UNIT_ON_SUCCESS_OF | UNIT_ON_FAILURE
  | UNIT_ON_FAILURE_OF | UNIT_TRIGGERS | UNIT_TRIGGERED_BY | UNIT_PROPAGATES_RELOAD_TO
  | UNIT_RELOAD_PROPAGATED_FROM | UNIT_PROPAGATES_STOP_TO | UNIT_STOP_PROPAGATED_FROM
  | UNIT_JOINS_NAMESPACE_OF | UNIT_REFERENCES | UNIT_REFERENCED_BY | UNIT_IN_SLICE
  | UNIT_SLICE_OF

definition UNIT_IS_ACTIVE_OR_RELOADING :: "unit_active_state \<Rightarrow> bool" where
  "UNIT_IS_ACTIVE_OR_RELOADING t \<longleftrightarrow> t \<in> {UNIT_ACTIVE, UNIT_RELOADING}"

definition UNIT_IS_ACTIVE_OR_ACTIVATING :: "unit_active_state \<Rightarrow> bool" where
  "UNIT_IS_ACTIVE_OR_ACTIVATING t \<longleftrightarrow> t \<in> {UNIT_ACTIVE, UNIT_ACTIVATING, UNIT_RELOADING}"

definition UNIT_IS_INACTIVE_OR_DEACTIVATING :: "unit_active_state \<Rightarrow> bool" where
  "UNIT_IS_INACTIVE_OR_DEACTIVATING t \<longleftrightarrow> t \<in> {UNIT_INACTIVE, UNIT_FAILED, UNIT_DEACTIVATING}"

definition UNIT_IS_INACTIVE_OR_FAILED :: "unit_active_state \<Rightarrow> bool" where
  "UNIT_IS_INACTIVE_OR_FAILED t \<longleftrightarrow> t \<in> {UNIT_INACTIVE, UNIT_FAILED}"

definition UNIT_IS_LOAD_COMPLETE :: "unit_load_state \<Rightarrow> bool" where
  "UNIT_IS_LOAD_COMPLETE t \<longleftrightarrow> t \<noteq> UNIT_STUB \<and> t \<noteq> UNIT_MERGED"

lemmas unit_state_defs =
  UNIT_IS_ACTIVE_OR_RELOADING_def UNIT_IS_ACTIVE_OR_ACTIVATING_def
  UNIT_IS_INACTIVE_OR_DEACTIVATING_def UNIT_IS_INACTIVE_OR_FAILED_def

section \<open>Dependency atoms\<close>

definition UNIT_ATOM_PULL_IN_START :: u64 where "UNIT_ATOM_PULL_IN_START = push_bit 0 1"
definition UNIT_ATOM_PULL_IN_START_IGNORED :: u64 where "UNIT_ATOM_PULL_IN_START_IGNORED = push_bit 1 1"
definition UNIT_ATOM_PULL_IN_VERIFY :: u64 where "UNIT_ATOM_PULL_IN_VERIFY = push_bit 2 1"
definition UNIT_ATOM_PULL_IN_STOP :: u64 where "UNIT_ATOM_PULL_IN_STOP = push_bit 3 1"
definition UNIT_ATOM_PULL_IN_STOP_IGNORED :: u64 where "UNIT_ATOM_PULL_IN_STOP_IGNORED = push_bit 4 1"
definition UNIT_ATOM_ADD_STOP_WHEN_UNNEEDED_QUEUE :: u64 where "UNIT_ATOM_ADD_STOP_WHEN_UNNEEDED_QUEUE = push_bit 5 1"
definition UNIT_ATOM_PINS_STOP_WHEN_UNNEEDED :: u64 where "UNIT_ATOM_PINS_STOP_WHEN_UNNEEDED = push_bit 6 1"
definition UNIT_ATOM_CANNOT_BE_ACTIVE_WITHOUT :: u64 where "UNIT_ATOM_CANNOT_BE_ACTIVE_WITHOUT = push_bit 7 1"
definition UNIT_ATOM_ADD_CANNOT_BE_ACTIVE_WITHOUT_QUEUE :: u64 where "UNIT_ATOM_ADD_CANNOT_BE_ACTIVE_WITHOUT_QUEUE = push_bit 8 1"
definition UNIT_ATOM_START_STEADILY :: u64 where "UNIT_ATOM_START_STEADILY = push_bit 9 1"
definition UNIT_ATOM_ADD_START_WHEN_UPHELD_QUEUE :: u64 where "UNIT_ATOM_ADD_START_WHEN_UPHELD_QUEUE = push_bit 10 1"
definition UNIT_ATOM_RETROACTIVE_START_REPLACE :: u64 where "UNIT_ATOM_RETROACTIVE_START_REPLACE = push_bit 11 1"
definition UNIT_ATOM_RETROACTIVE_START_FAIL :: u64 where "UNIT_ATOM_RETROACTIVE_START_FAIL = push_bit 12 1"
definition UNIT_ATOM_RETROACTIVE_STOP_ON_START :: u64 where "UNIT_ATOM_RETROACTIVE_STOP_ON_START = push_bit 13 1"
definition UNIT_ATOM_RETROACTIVE_STOP_ON_STOP :: u64 where "UNIT_ATOM_RETROACTIVE_STOP_ON_STOP = push_bit 14 1"
definition UNIT_ATOM_PROPAGATE_START_FAILURE :: u64 where "UNIT_ATOM_PROPAGATE_START_FAILURE = push_bit 15 1"
definition UNIT_ATOM_PROPAGATE_STOP_FAILURE :: u64 where "UNIT_ATOM_PROPAGATE_STOP_FAILURE = push_bit 16 1"
definition UNIT_ATOM_PROPAGATE_INACTIVE_START_AS_FAILURE :: u64 where "UNIT_ATOM_PROPAGATE_INACTIVE_START_AS_FAILURE = push_bit 17 1"
definition UNIT_ATOM_PROPAGATE_STOP :: u64 where "UNIT_ATOM_PROPAGATE_STOP = push_bit 18 1"
definition UNIT_ATOM_PROPAGATE_RESTART :: u64 where "UNIT_ATOM_PROPAGATE_RESTART = push_bit 19 1"
definition UNIT_ATOM_ADD_DEFAULT_TARGET_DEPENDENCY_QUEUE :: u64 where "UNIT_ATOM_ADD_DEFAULT_TARGET_DEPENDENCY_QUEUE = push_bit 20 1"
definition UNIT_ATOM_DEFAULT_TARGET_DEPENDENCIES :: u64 where "UNIT_ATOM_DEFAULT_TARGET_DEPENDENCIES = push_bit 21 1"
definition UNIT_ATOM_ON_FAILURE :: u64 where "UNIT_ATOM_ON_FAILURE = push_bit 22 1"
definition UNIT_ATOM_ON_SUCCESS :: u64 where "UNIT_ATOM_ON_SUCCESS = push_bit 23 1"
definition UNIT_ATOM_ON_FAILURE_OF :: u64 where "UNIT_ATOM_ON_FAILURE_OF = push_bit 24 1"
definition UNIT_ATOM_ON_SUCCESS_OF :: u64 where "UNIT_ATOM_ON_SUCCESS_OF = push_bit 25 1"
definition UNIT_ATOM_BEFORE :: u64 where "UNIT_ATOM_BEFORE = push_bit 26 1"
definition UNIT_ATOM_AFTER :: u64 where "UNIT_ATOM_AFTER = push_bit 27 1"
definition UNIT_ATOM_TRIGGERS :: u64 where "UNIT_ATOM_TRIGGERS = push_bit 28 1"
definition UNIT_ATOM_TRIGGERED_BY :: u64 where "UNIT_ATOM_TRIGGERED_BY = push_bit 29 1"
definition UNIT_ATOM_PROPAGATES_RELOAD_TO :: u64 where "UNIT_ATOM_PROPAGATES_RELOAD_TO = push_bit 30 1"
definition UNIT_ATOM_JOINS_NAMESPACE_OF :: u64 where "UNIT_ATOM_JOINS_NAMESPACE_OF = push_bit 31 1"
definition UNIT_ATOM_REFERENCES :: u64 where "UNIT_ATOM_REFERENCES = push_bit 32 1"
definition UNIT_ATOM_REFERENCED_BY :: u64 where "UNIT_ATOM_REFERENCED_BY = push_bit 33 1"
definition UNIT_ATOM_IN_SLICE :: u64 where "UNIT_ATOM_IN_SLICE = push_bit 34 1"
definition UNIT_ATOM_SLICE_OF :: u64 where "UNIT_ATOM_SLICE_OF = push_bit 35 1"

lemmas atom_defs =
  UNIT_ATOM_PULL_IN_START_def UNIT_ATOM_PULL_IN_START_IGNORED_def
  UNIT_ATOM_PULL_IN_VERIFY_def UNIT_ATOM_PULL_IN_STOP_def
  UNIT_ATOM_PULL_IN_STOP_IGNORED_def UNIT_ATOM_ADD_STOP_WHEN_UNNEEDED_QUEUE_def
  UNIT_ATOM_PINS_STOP_WHEN_UNNEEDED_def UNIT_ATOM_CANNOT_BE_ACTIVE_WITHOUT_def
  UNIT_ATOM_ADD_CANNOT_BE_ACTIVE_WITHOUT_QUEUE_def UNIT_ATOM_START_STEADILY_def
  UNIT_ATOM_ADD_START_WHEN_UPHELD_QUEUE_def UNIT_ATOM_RETROACTIVE_START_REPLACE_def
  UNIT_ATOM_RETROACTIVE_START_FAIL_def UNIT_ATOM_RETROACTIVE_STOP_ON_START_def
  UNIT_ATOM_RETROACTIVE_STOP_ON_STOP_def UNIT_ATOM_PROPAGATE_START_FAILURE_def
  UNIT_ATOM_PROPAGATE_STOP_FAILURE_def UNIT_ATOM_PROPAGATE_INACTIVE_START_AS_FAILURE_def
  UNIT_ATOM_PROPAGATE_STOP_def UNIT_ATOM_PROPAGATE_RESTART_def
  UNIT_ATOM_ADD_DEFAULT_TARGET_DEPENDENCY_QUEUE_def UNIT_ATOM_DEFAULT_TARGET_DEPENDENCIES_def
  UNIT_ATOM_ON_FAILURE_def UNIT_ATOM_ON_SUCCESS_def
  UNIT_ATOM_ON_FAILURE_OF_def UNIT_ATOM_ON_SUCCESS_OF_def
  UNIT_ATOM_BEFORE_def UNIT_ATOM_AFTER_def
  UNIT_ATOM_TRIGGERS_def UNIT_ATOM_TRIGGERED_BY_def
  UNIT_ATOM_PROPAGATES_RELOAD_TO_def UNIT_ATOM_JOINS_NAMESPACE_OF_def
  UNIT_ATOM_REFERENCES_def UNIT_ATOM_REFERENCED_BY_def
  UNIT_ATOM_IN_SLICE_def UNIT_ATOM_SLICE_OF_def

fun unit_dependency_to_atom :: "unit_dependency \<Rightarrow> u64" where
  "unit_dependency_to_atom UNIT_REQUIRES = UNIT_ATOM_PULL_IN_START OR
     UNIT_ATOM_RETROACTIVE_START_REPLACE OR UNIT_ATOM_ADD_STOP_WHEN_UNNEEDED_QUEUE OR
     UNIT_ATOM_ADD_DEFAULT_TARGET_DEPENDENCY_QUEUE"
| "unit_dependency_to_atom UNIT_REQUISITE = UNIT_ATOM_PULL_IN_VERIFY OR
     UNIT_ATOM_ADD_STOP_WHEN_UNNEEDED_QUEUE OR UNIT_ATOM_ADD_DEFAULT_TARGET_DEPENDENCY_QUEUE"
| "unit_dependency_to_atom UNIT_WANTS = UNIT_ATOM_PULL_IN_START_IGNORED OR
     UNIT_ATOM_RETROACTIVE_START_FAIL OR UNIT_ATOM_ADD_STOP_WHEN_UNNEEDED_QUEUE OR
     UNIT_ATOM_ADD_DEFAULT_TARGET_DEPENDENCY_QUEUE"
| "unit_dependency_to_atom UNIT_BINDS_TO = UNIT_ATOM_PULL_IN_START OR
     UNIT_ATOM_RETROACTIVE_START_REPLACE OR UNIT_ATOM_CANNOT_BE_ACTIVE_WITHOUT OR
     UNIT_ATOM_ADD_STOP_WHEN_UNNEEDED_QUEUE OR UNIT_ATOM_ADD_DEFAULT_TARGET_DEPENDENCY_QUEUE"
| "unit_dependency_to_atom UNIT_PART_OF = UNIT_ATOM_ADD_DEFAULT_TARGET_DEPENDENCY_QUEUE"
| "unit_dependency_to_atom UNIT_UPHOLDS = UNIT_ATOM_PULL_IN_START_IGNORED OR
     UNIT_ATOM_RETROACTIVE_START_REPLACE OR UNIT_ATOM_ADD_START_WHEN_UPHELD_QUEUE OR
     UNIT_ATOM_ADD_STOP_WHEN_UNNEEDED_QUEUE OR UNIT_ATOM_ADD_DEFAULT_TARGET_DEPENDENCY_QUEUE"
| "unit_dependency_to_atom UNIT_REQUIRED_BY = UNIT_ATOM_PROPAGATE_STOP OR
     UNIT_ATOM_PROPAGATE_RESTART OR UNIT_ATOM_PROPAGATE_START_FAILURE OR
     UNIT_ATOM_PINS_STOP_WHEN_UNNEEDED OR UNIT_ATOM_DEFAULT_TARGET_DEPENDENCIES"
| "unit_dependency_to_atom UNIT_REQUISITE_OF = UNIT_ATOM_PROPAGATE_STOP OR
     UNIT_ATOM_PROPAGATE_RESTART OR UNIT_ATOM_PROPAGATE_START_FAILURE OR
     UNIT_ATOM_PROPAGATE_INACTIVE_START_AS_FAILURE OR UNIT_ATOM_PINS_STOP_WHEN_UNNEEDED OR
     UNIT_ATOM_DEFAULT_TARGET_DEPENDENCIES"
| "unit_dependency_to_atom UNIT_WANTED_BY = UNIT_ATOM_DEFAULT_TARGET_DEPENDENCIES OR
     UNIT_ATOM_PINS_STOP_WHEN_UNNEEDED"
| "unit_dependency_to_atom UNIT_BOUND_BY = UNIT_ATOM_RETROACTIVE_STOP_ON_STOP OR
     UNIT_ATOM_PROPAGATE_STOP OR UNIT_ATOM_PROPAGATE_RESTART OR
     UNIT_ATOM_PROPAGATE_START_FAILURE OR UNIT_ATOM_PINS_STOP_WHEN_UNNEEDED OR
     UNIT_ATOM_ADD_CANNOT_BE_ACTIVE_WITHOUT_QUEUE OR UNIT_ATOM_DEFAULT_TARGET_DEPENDENCIES"
| "unit_dependency_to_atom UNIT_UPHELD_BY = UNIT_ATOM_START_STEADILY OR
     UNIT_ATOM_DEFAULT_TARGET_DEPENDENCIES OR UNIT_ATOM_PINS_STOP_WHEN_UNNEEDED"
| "unit_dependency_to_atom UNIT_CONSISTS_OF = UNIT_ATOM_PROPAGATE_STOP OR
     UNIT_ATOM_PROPAGATE_RESTART"
| "unit_dependency_to_atom UNIT_CONFLICTS = UNIT_ATOM_PULL_IN_STOP OR
     UNIT_ATOM_RETROACTIVE_STOP_ON_START"
| "unit_dependency_to_atom UNIT_CONFLICTED_BY = UNIT_ATOM_PULL_IN_STOP_IGNORED OR
     UNIT_ATOM_RETROACTIVE_STOP_ON_START OR UNIT_ATOM_PROPAGATE_STOP_FAILURE"
| "unit_dependency_to_atom UNIT_PROPAGATES_STOP_TO = UNIT_ATOM_RETROACTIVE_STOP_ON_STOP OR
     UNIT_ATOM_PROPAGATE_STOP"
| "unit_dependency_to_atom UNIT_ON_FAILURE = UNIT_ATOM_ON_FAILURE"
| "unit_dependency_to_atom UNIT_ON_SUCCESS = UNIT_ATOM_ON_SUCCESS"
| "unit_dependency_to_atom UNIT_ON_FAILURE_OF = UNIT_ATOM_ON_FAILURE_OF"
| "unit_dependency_to_atom UNIT_ON_SUCCESS_OF = UNIT_ATOM_ON_SUCCESS_OF"
| "unit_dependency_to_atom UNIT_BEFORE = UNIT_ATOM_BEFORE"
| "unit_dependency_to_atom UNIT_AFTER = UNIT_ATOM_AFTER"
| "unit_dependency_to_atom UNIT_TRIGGERS = UNIT_ATOM_TRIGGERS"
| "unit_dependency_to_atom UNIT_TRIGGERED_BY = UNIT_ATOM_TRIGGERED_BY"
| "unit_dependency_to_atom UNIT_PROPAGATES_RELOAD_TO = UNIT_ATOM_PROPAGATES_RELOAD_TO"
| "unit_dependency_to_atom UNIT_JOINS_NAMESPACE_OF = UNIT_ATOM_JOINS_NAMESPACE_OF"
| "unit_dependency_to_atom UNIT_REFERENCES = UNIT_ATOM_REFERENCES"
| "unit_dependency_to_atom UNIT_REFERENCED_BY = UNIT_ATOM_REFERENCED_BY"
| "unit_dependency_to_atom UNIT_IN_SLICE = UNIT_ATOM_IN_SLICE"
| "unit_dependency_to_atom UNIT_SLICE_OF = UNIT_ATOM_SLICE_OF"
| "unit_dependency_to_atom UNIT_RELOAD_PROPAGATED_FROM = 0"
| "unit_dependency_to_atom UNIT_STOP_PROPAGATED_FROM = 0"

definition unit_dependency_from_unique_atom :: "u64 \<Rightarrow> unit_dependency option" where
  "unit_dependency_from_unique_atom atom =
     (if atom = UNIT_ATOM_PULL_IN_VERIFY OR UNIT_ATOM_ADD_STOP_WHEN_UNNEEDED_QUEUE OR
         UNIT_ATOM_ADD_DEFAULT_TARGET_DEPENDENCY_QUEUE \<or> atom = UNIT_ATOM_PULL_IN_VERIFY
      then Some UNIT_REQUISITE
      else if atom = UNIT_ATOM_PULL_IN_START_IGNORED OR UNIT_ATOM_RETROACTIVE_START_FAIL OR
         UNIT_ATOM_ADD_STOP_WHEN_UNNEEDED_QUEUE OR UNIT_ATOM_ADD_DEFAULT_TARGET_DEPENDENCY_QUEUE
         \<or> atom = UNIT_ATOM_RETROACTIVE_START_FAIL
      then Some UNIT_WANTS
      else if atom = UNIT_ATOM_PULL_IN_START OR UNIT_ATOM_RETROACTIVE_START_REPLACE OR
         UNIT_ATOM_CANNOT_BE_ACTIVE_WITHOUT OR UNIT_ATOM_ADD_STOP_WHEN_UNNEEDED_QUEUE OR
         UNIT_ATOM_ADD_DEFAULT_TARGET_DEPENDENCY_QUEUE \<or> atom =
         UNIT_ATOM_CANNOT_BE_ACTIVE_WITHOUT
      then Some UNIT_BINDS_TO
      else if atom = UNIT_ATOM_PULL_IN_START_IGNORED OR UNIT_ATOM_RETROACTIVE_START_REPLACE OR
         UNIT_ATOM_ADD_START_WHEN_UPHELD_QUEUE OR UNIT_ATOM_ADD_STOP_WHEN_UNNEEDED_QUEUE OR
         UNIT_ATOM_ADD_DEFAULT_TARGET_DEPENDENCY_QUEUE \<or> atom =
         UNIT_ATOM_ADD_START_WHEN_UPHELD_QUEUE
      then Some UNIT_UPHOLDS
      else if atom = UNIT_ATOM_PROPAGATE_STOP OR UNIT_ATOM_PROPAGATE_RESTART OR
         UNIT_ATOM_PROPAGATE_START_FAILURE OR UNIT_ATOM_PROPAGATE_INACTIVE_START_AS_FAILURE OR
         UNIT_ATOM_PINS_STOP_WHEN_UNNEEDED OR UNIT_ATOM_DEFAULT_TARGET_DEPENDENCIES \<or> atom =
         UNIT_ATOM_PROPAGATE_INACTIVE_START_AS_FAILURE
      then Some UNIT_REQUISITE_OF
      else if atom = UNIT_ATOM_RETROACTIVE_STOP_ON_STOP OR UNIT_ATOM_PROPAGATE_STOP OR
         UNIT_ATOM_PROPAGATE_RESTART OR UNIT_ATOM_PROPAGATE_START_FAILURE OR
         UNIT_ATOM_PINS_STOP_WHEN_UNNEEDED OR UNIT_ATOM_ADD_CANNOT_BE_ACTIVE_WITHOUT_QUEUE OR
         UNIT_ATOM_DEFAULT_TARGET_DEPENDENCIES \<or> atom =
         UNIT_ATOM_ADD_CANNOT_BE_ACTIVE_WITHOUT_QUEUE
      then Some UNIT_BOUND_BY
      else if atom = UNIT_ATOM_START_STEADILY OR UNIT_ATOM_DEFAULT_TARGET_DEPENDENCIES OR
         UNIT_ATOM_PINS_STOP_WHEN_UNNEEDED \<or> atom = UNIT_ATOM_START_STEADILY
      then Some UNIT_UPHELD_BY
      else if atom = UNIT_ATOM_PULL_IN_STOP OR UNIT_ATOM_RETROACTIVE_STOP_ON_START \<or> atom =
         UNIT_ATOM_PULL_IN_STOP
      then Some UNIT_CONFLICTS
      else if atom = UNIT_ATOM_PULL_IN_STOP_IGNORED OR UNIT_ATOM_RETROACTIVE_STOP_ON_START OR
         UNIT_ATOM_PROPAGATE_STOP_FAILURE \<or> atom = UNIT_ATOM_PULL_IN_STOP_IGNORED \<or> atom
         = UNIT_ATOM_PROPAGATE_STOP_FAILURE
      then Some UNIT_CONFLICTED_BY
      else if atom = UNIT_ATOM_ON_FAILURE
      then Some UNIT_ON_FAILURE
      else if atom = UNIT_ATOM_ON_SUCCESS
      then Some UNIT_ON_SUCCESS
      else if atom = UNIT_ATOM_ON_SUCCESS_OF
      then Some UNIT_ON_SUCCESS_OF
      else if atom = UNIT_ATOM_ON_FAILURE_OF
      then Some UNIT_ON_FAILURE_OF
      else if atom = UNIT_ATOM_BEFORE
      then Some UNIT_BEFORE
      else if atom = UNIT_ATOM_AFTER
      then Some UNIT_AFTER
      else if atom = UNIT_ATOM_TRIGGERS
      then Some UNIT_TRIGGERS
      else if atom = UNIT_ATOM_TRIGGERED_BY
      then Some UNIT_TRIGGERED_BY
      else if atom = UNIT_ATOM_PROPAGATES_RELOAD_TO
      then Some UNIT_PROPAGATES_RELOAD_TO
      else if atom = UNIT_ATOM_JOINS_NAMESPACE_OF
      then Some UNIT_JOINS_NAMESPACE_OF
      else if atom = UNIT_ATOM_REFERENCES
      then Some UNIT_REFERENCES
      else if atom = UNIT_ATOM_REFERENCED_BY
      then Some UNIT_REFERENCED_BY
      else if atom = UNIT_ATOM_IN_SLICE
      then Some UNIT_IN_SLICE
      else if atom = UNIT_ATOM_SLICE_OF
      then Some UNIT_SLICE_OF
      else None)"

section \<open>Walking the dependencies of a unit\<close>

text \<open>
  A unit's \<open>dependencies\<close> is a hashmap from dependency type to a hashmap of units.  It is an
  association list here, whose order is the iteration order of the hashmaps; every result below
  quantifies over the list and so over every order.
\<close>

type_synonym unitp = nat
type_synonym dependencies = "(unit_dependency \<times> unitp list) list"

definition UNIT_FOREACH_DEPENDENCY :: "dependencies \<Rightarrow> u64 \<Rightarrow> unitp list" where
  "UNIT_FOREACH_DEPENDENCY deps ma =
     (case unit_dependency_from_unique_atom ma of
        Some dt \<Rightarrow>
          (case map_of deps dt of
             None \<Rightarrow> []
           | Some us \<Rightarrow> if unit_dependency_to_atom dt AND ma \<noteq> 0 then us else [])
      | None \<Rightarrow> concat (map snd (filter (\<lambda>(dt, us). unit_dependency_to_atom dt AND ma \<noteq> 0) deps)))"

text \<open>The scan without the shortcut.\<close>

definition scan_dependencies :: "dependencies \<Rightarrow> u64 \<Rightarrow> unitp list" where
  "scan_dependencies deps ma =
     concat (map snd (filter (\<lambda>(dt, us). unit_dependency_to_atom dt AND ma \<noteq> 0) deps))"

text \<open>The dependency types, in the order of the enumeration.\<close>

definition all_unit_dependencies :: "unit_dependency list" where
  "all_unit_dependencies =
     [UNIT_REQUIRES, UNIT_REQUISITE, UNIT_WANTS, UNIT_BINDS_TO, UNIT_PART_OF, UNIT_UPHOLDS,
      UNIT_REQUIRED_BY, UNIT_REQUISITE_OF, UNIT_WANTED_BY, UNIT_BOUND_BY, UNIT_CONSISTS_OF,
      UNIT_UPHELD_BY, UNIT_CONFLICTS, UNIT_CONFLICTED_BY, UNIT_BEFORE, UNIT_AFTER,
      UNIT_ON_SUCCESS, UNIT_ON_SUCCESS_OF, UNIT_ON_FAILURE, UNIT_ON_FAILURE_OF, UNIT_TRIGGERS,
      UNIT_TRIGGERED_BY, UNIT_PROPAGATES_RELOAD_TO, UNIT_RELOAD_PROPAGATED_FROM,
      UNIT_PROPAGATES_STOP_TO, UNIT_STOP_PROPAGATED_FROM, UNIT_JOINS_NAMESPACE_OF,
      UNIT_REFERENCES, UNIT_REFERENCED_BY, UNIT_IN_SLICE, UNIT_SLICE_OF]"

text \<open>The dependency types that carry one of the atoms of a mask.\<close>

definition atom_carriers :: "u64 \<Rightarrow> unit_dependency list" where
  "atom_carriers ma = filter (\<lambda>d. unit_dependency_to_atom d AND ma \<noteq> 0) all_unit_dependencies"

lemma all_unit_dependencies_complete: "d \<in> set all_unit_dependencies"
  by (cases d) (simp_all add: all_unit_dependencies_def)

lemma atom_carriers_iff: "d \<in> set (atom_carriers ma) \<longleftrightarrow> unit_dependency_to_atom d AND ma \<noteq> 0"
  by (simp add: atom_carriers_def all_unit_dependencies_complete)

text \<open>All thirty-six single atoms, evaluated one by one in the kernel.\<close>

lemma unique_atom_table:
  "list_all (\<lambda>k. unit_dependency_from_unique_atom (push_bit k 1) =
      (case atom_carriers (push_bit k 1) of [d] \<Rightarrow> Some d | _ \<Rightarrow> None)) [0..<36]"
  by (simp add: upt_rec unit_dependency_from_unique_atom_def atom_carriers_def
      all_unit_dependencies_def atom_defs push_bit_of_1)

lemma unique_atom_single:
  assumes "k < 36"
  shows "unit_dependency_from_unique_atom (push_bit k 1) =
    (case atom_carriers (push_bit k 1) of [d] \<Rightarrow> Some d | _ \<Rightarrow> None)"
  using unique_atom_table assms by (simp add: list_all_iff)

lemma concat_filter_key:
  assumes "distinct (map fst deps)"
  shows "concat (map snd (filter (\<lambda>(dt, us). dt = d) deps)) =
    (case map_of deps d of None \<Rightarrow> [] | Some us \<Rightarrow> us)"
proof -
  have none: "concat (map snd (filter (\<lambda>(dt, us). dt = d) deps)) = []" if "d \<notin> fst ` set deps" for deps
    using that by (induction deps) auto
  show ?thesis
    using assms by (induction deps) (auto simp: none)
qed

lemma foreach_eq_scan:
  assumes "distinct (map fst deps)"
    and "unit_dependency_from_unique_atom ma =
      (case atom_carriers ma of [d] \<Rightarrow> Some d | _ \<Rightarrow> None)"
  shows "UNIT_FOREACH_DEPENDENCY deps ma = scan_dependencies deps ma"
proof (cases "unit_dependency_from_unique_atom ma")
  case None
  then show ?thesis
    by (simp add: UNIT_FOREACH_DEPENDENCY_def scan_dependencies_def)
next
  case (Some d)
  with assms(2) have "atom_carriers ma = [d]"
    by (auto split: list.splits)
  with atom_carriers_iff [of _ ma]
  have eq: "unit_dependency_to_atom dt AND ma \<noteq> 0 \<longleftrightarrow> dt = d" for dt
    by simp
  show ?thesis
    using concat_filter_key [OF assms(1), of d] eq [of d]
    by (simp add: UNIT_FOREACH_DEPENDENCY_def scan_dependencies_def Some eq split: option.split)
qed

text \<open>
  C1. Walking a unit's dependencies by one atom through the unique-atom shortcut of
  \<open>UNIT_FOREACH_DEPENDENCY\<close> visits exactly the units, in the same order, that a scan of every
  dependency type carrying that atom visits.
\<close>

theorem foreach_dependency_is_scan:
  assumes "distinct (map fst deps)" "k < 36"
  shows "UNIT_FOREACH_DEPENDENCY deps (push_bit k 1) = scan_dependencies deps (push_bit k 1)"
  using assms(1) unique_atom_single [OF assms(2)] by (rule foreach_eq_scan)

theorem foreach_dependency_is_scan_witness:
  "UNIT_FOREACH_DEPENDENCY [(UNIT_WANTS, [3, 5]), (UNIT_REQUISITE, [7])] (push_bit 2 1) = [7]"
  using foreach_dependency_is_scan [of "[(UNIT_WANTS, [3, 5]), (UNIT_REQUISITE, [7])]" 2]
  by (simp add: scan_dependencies_def atom_defs)

lemma foreach_order:
  "UNIT_FOREACH_DEPENDENCY deps UNIT_ATOM_BEFORE = (case map_of deps UNIT_BEFORE of None \<Rightarrow> [] | Some us \<Rightarrow> us)"
  "UNIT_FOREACH_DEPENDENCY deps UNIT_ATOM_AFTER = (case map_of deps UNIT_AFTER of None \<Rightarrow> [] | Some us \<Rightarrow> us)"
  by (simp_all add: UNIT_FOREACH_DEPENDENCY_def unit_dependency_from_unique_atom_def atom_defs
      split: option.split)

end
