(* ===== verification/Job_Type.thy ===== *)
theory Job_Type
  imports Unit_Dependency
begin

text \<open>
  The algebra of job types (\<open>src/core/job.h\<close>, \<open>src/core/job.c\<close>): the merging table with its
  triangular index, merging followed by collapsing against the unit's state, redundancy and
  supersets.  The results are the laws the comment above \<open>job_merging_table\<close> claims, and the
  code of \<open>transaction.c\<close> relies on.
\<close>

section \<open>Enumerations\<close>

datatype job_type =
    JOB_START | JOB_VERIFY_ACTIVE | JOB_STOP | JOB_RELOAD | JOB_RESTART | JOB_NOP
  | JOB_TRY_RESTART | JOB_TRY_RELOAD | JOB_RELOAD_OR_START

datatype job_state = JOB_WAITING | JOB_RUNNING

datatype job_mode =
    JOB_FAIL | JOB_REPLACE | JOB_REPLACE_IRREVERSIBLY | JOB_ISOLATE | JOB_FLUSH
  | JOB_IGNORE_DEPENDENCIES | JOB_IGNORE_REQUIREMENTS | JOB_TRIGGERING

datatype job_result =
    JOB_DONE | JOB_CANCELED | JOB_TIMEOUT | JOB_FAILED | JOB_DEPENDENCY | JOB_SKIPPED
  | JOB_INVALID | JOB_ASSERT | JOB_UNSUPPORTED | JOB_COLLECTED | JOB_ONCE

text \<open>The enumeration values; C compares and indexes with them.\<close>

fun job_type_value :: "job_type \<Rightarrow> nat" where
  "job_type_value JOB_START = 0"
| "job_type_value JOB_VERIFY_ACTIVE = 1"
| "job_type_value JOB_STOP = 2"
| "job_type_value JOB_RELOAD = 3"
| "job_type_value JOB_RESTART = 4"
| "job_type_value JOB_NOP = 5"
| "job_type_value JOB_TRY_RESTART = 6"
| "job_type_value JOB_TRY_RELOAD = 7"
| "job_type_value JOB_RELOAD_OR_START = 8"

lemma job_type_value_inj: "job_type_value a = job_type_value b \<longleftrightarrow> a = b"
  by (cases a; cases b) simp_all

instantiation job_type :: linorder
begin

definition less_eq_job_type :: "job_type \<Rightarrow> job_type \<Rightarrow> bool" where
  "less_eq_job_type a b \<longleftrightarrow> job_type_value a \<le> job_type_value b"

definition less_job_type :: "job_type \<Rightarrow> job_type \<Rightarrow> bool" where
  "less_job_type a b \<longleftrightarrow> job_type_value a < job_type_value b"

instance
  by standard (auto simp: less_eq_job_type_def less_job_type_def job_type_value_inj)

end

definition JOB_TYPE_MAX_MERGING :: nat where
  "JOB_TYPE_MAX_MERGING = 5"

definition JOB_TYPE_MAX_IN_TRANSACTION :: nat where
  "JOB_TYPE_MAX_IN_TRANSACTION = 6"

section \<open>Merging\<close>

text \<open>\<open>None\<close> is the entry \<open>-1\<close>: the two types cannot be merged.\<close>

definition job_merging_table :: "job_type option list" where
  "job_merging_table =
     [Some JOB_START,
      None,                     None,
      Some JOB_RELOAD_OR_START, Some JOB_RELOAD,  None,
      Some JOB_RESTART,         Some JOB_RESTART, None, Some JOB_RESTART]"

text \<open>The outer \<open>None\<close> is the failed assertion on the domain of the table.\<close>

definition job_type_lookup_merge :: "job_type \<Rightarrow> job_type \<Rightarrow> job_type option option" where
  "job_type_lookup_merge a b =
     (if \<not> (job_type_value a < JOB_TYPE_MAX_MERGING \<and> job_type_value b < JOB_TYPE_MAX_MERGING)
      then None
      else if a = b then Some (Some a)
      else let (a, b) = (if a < b then (b, a) else (a, b))
           in Some (job_merging_table !
                ((job_type_value a - 1) * job_type_value a div 2 + job_type_value b)))"

definition job_type_is_mergeable :: "job_type \<Rightarrow> job_type \<Rightarrow> bool option" where
  "job_type_is_mergeable a b = map_option (\<lambda>t. t \<noteq> None) (job_type_lookup_merge a b)"

definition job_type_is_conflicting :: "job_type \<Rightarrow> job_type \<Rightarrow> bool option" where
  "job_type_is_conflicting a b =
     (if a \<noteq> JOB_NOP \<and> b \<noteq> JOB_NOP then map_option Not (job_type_is_mergeable a b) else Some False)"

definition job_type_is_superset :: "job_type \<Rightarrow> job_type \<Rightarrow> bool option" where
  "job_type_is_superset a b =
     (if b = JOB_NOP then Some True
      else if a = JOB_NOP then Some False
      else map_option (\<lambda>t. t = Some a) (job_type_lookup_merge a b))"

text \<open>\<open>None\<close> is \<open>assert_not_reached()\<close>.\<close>

fun job_type_is_redundant :: "job_type \<Rightarrow> unit_active_state \<Rightarrow> bool option" where
  "job_type_is_redundant JOB_START b = Some (b \<in> {UNIT_ACTIVE, UNIT_RELOADING})"
| "job_type_is_redundant JOB_STOP b = Some (b \<in> {UNIT_INACTIVE, UNIT_FAILED})"
| "job_type_is_redundant JOB_VERIFY_ACTIVE b = Some (b \<in> {UNIT_ACTIVE, UNIT_RELOADING})"
| "job_type_is_redundant JOB_RELOAD b = Some False"
| "job_type_is_redundant JOB_RESTART b = Some False"
| "job_type_is_redundant JOB_NOP b = Some True"
| "job_type_is_redundant _ b = None"

text \<open>\<open>s\<close> is \<open>unit_active_state(u)\<close>.\<close>

fun job_type_collapse :: "job_type \<Rightarrow> unit_active_state \<Rightarrow> job_type" where
  "job_type_collapse JOB_TRY_RESTART s =
     (if \<not> UNIT_IS_ACTIVE_OR_ACTIVATING s then JOB_NOP else JOB_RESTART)"
| "job_type_collapse JOB_TRY_RELOAD s =
     (if \<not> UNIT_IS_ACTIVE_OR_RELOADING s then JOB_NOP else JOB_RELOAD)"
| "job_type_collapse JOB_RELOAD_OR_START s =
     (if \<not> UNIT_IS_ACTIVE_OR_RELOADING s then JOB_START else JOB_RELOAD)"
| "job_type_collapse t s = t"

text \<open>The result is the new value of \<open>*a\<close>; on \<open>-EEXIST\<close> the source leaves \<open>*a\<close> alone.\<close>

definition job_type_merge_and_collapse ::
    "job_type \<Rightarrow> job_type \<Rightarrow> unit_active_state \<Rightarrow> (err + job_type) option" where
  "job_type_merge_and_collapse a b s =
     (case job_type_lookup_merge a b of
        None \<Rightarrow> None
      | Some None \<Rightarrow> Some (Inl EEXIST)
      | Some (Some t) \<Rightarrow> Some (Inr (job_type_collapse t s)))"

definition job_type_allows_late_merge :: "job_type \<Rightarrow> bool" where
  "job_type_allows_late_merge t \<longleftrightarrow> t \<noteq> JOB_RELOAD"

fun job_type_to_access_method :: "job_type \<Rightarrow> string" where
  "job_type_to_access_method t =
     (if t \<in> {JOB_START, JOB_RESTART, JOB_TRY_RESTART} then ''start''
      else if t = JOB_STOP then ''stop'' else ''reload'')"

section \<open>String tables\<close>

fun job_state_to_string :: "job_state \<Rightarrow> string" where
  "job_state_to_string JOB_WAITING = ''waiting''"
| "job_state_to_string JOB_RUNNING = ''running''"

fun job_type_to_string :: "job_type \<Rightarrow> string" where
  "job_type_to_string JOB_START = ''start''"
| "job_type_to_string JOB_VERIFY_ACTIVE = ''verify-active''"
| "job_type_to_string JOB_STOP = ''stop''"
| "job_type_to_string JOB_RELOAD = ''reload''"
| "job_type_to_string JOB_RELOAD_OR_START = ''reload-or-start''"
| "job_type_to_string JOB_RESTART = ''restart''"
| "job_type_to_string JOB_TRY_RESTART = ''try-restart''"
| "job_type_to_string JOB_TRY_RELOAD = ''try-reload''"
| "job_type_to_string JOB_NOP = ''nop''"

fun job_mode_to_string :: "job_mode \<Rightarrow> string" where
  "job_mode_to_string JOB_FAIL = ''fail''"
| "job_mode_to_string JOB_REPLACE = ''replace''"
| "job_mode_to_string JOB_REPLACE_IRREVERSIBLY = ''replace-irreversibly''"
| "job_mode_to_string JOB_ISOLATE = ''isolate''"
| "job_mode_to_string JOB_FLUSH = ''flush''"
| "job_mode_to_string JOB_IGNORE_DEPENDENCIES = ''ignore-dependencies''"
| "job_mode_to_string JOB_IGNORE_REQUIREMENTS = ''ignore-requirements''"
| "job_mode_to_string JOB_TRIGGERING = ''triggering''"

fun job_result_to_string :: "job_result \<Rightarrow> string" where
  "job_result_to_string JOB_DONE = ''done''"
| "job_result_to_string JOB_CANCELED = ''canceled''"
| "job_result_to_string JOB_TIMEOUT = ''timeout''"
| "job_result_to_string JOB_FAILED = ''failed''"
| "job_result_to_string JOB_DEPENDENCY = ''dependency''"
| "job_result_to_string JOB_SKIPPED = ''skipped''"
| "job_result_to_string JOB_INVALID = ''invalid''"
| "job_result_to_string JOB_ASSERT = ''assert''"
| "job_result_to_string JOB_UNSUPPORTED = ''unsupported''"
| "job_result_to_string JOB_COLLECTED = ''collected''"
| "job_result_to_string JOB_ONCE = ''once''"

section \<open>Laws of merging\<close>

definition merging_types :: "job_type set" where
  "merging_types = {JOB_START, JOB_VERIFY_ACTIVE, JOB_STOP, JOB_RELOAD, JOB_RESTART}"

lemma merging_types_iff: "a \<in> merging_types \<longleftrightarrow> job_type_value a < JOB_TYPE_MAX_MERGING"
  by (cases a) (simp_all add: merging_types_def JOB_TYPE_MAX_MERGING_def)

lemmas merge_eval =
  job_type_lookup_merge_def job_merging_table_def JOB_TYPE_MAX_MERGING_def less_job_type_def

text \<open>
  Two types conflict exactly when one of them is a stop and the other is not; outside the domain
  of the table the assertion fails.
\<close>

lemma job_type_is_mergeable_eq:
  "job_type_is_mergeable a b =
    (if a \<in> merging_types \<and> b \<in> merging_types then Some ((a = JOB_STOP) = (b = JOB_STOP)) else None)"
  by (cases a; cases b) (simp_all add: job_type_is_mergeable_def merge_eval merging_types_def)

lemma job_type_lookup_merge_comm: "job_type_lookup_merge a b = job_type_lookup_merge b a"
  by (auto simp: job_type_lookup_merge_def)

lemma merge_and_collapse_outcome:
  assumes "a \<in> merging_types" "b \<in> merging_types"
  shows "case job_type_merge_and_collapse a b s of
      None \<Rightarrow> False
    | Some (Inl e) \<Rightarrow> (a = JOB_STOP) \<noteq> (b = JOB_STOP)
    | Some (Inr t) \<Rightarrow> t \<in> merging_types \<and> (t = JOB_STOP) = (a = JOB_STOP) \<and> (a = JOB_STOP) = (b = JOB_STOP)"
  using assms
  by (cases a; cases b; simp add: merging_types_def job_type_merge_and_collapse_def merge_eval)

text \<open>Merging with the abort and the conflict as one failure, for the merging types.\<close>

definition merge_in :: "unit_active_state \<Rightarrow> job_type \<Rightarrow> job_type \<Rightarrow> job_type option" where
  "merge_in s a b =
     (case job_type_merge_and_collapse a b s of Some (Inr t) \<Rightarrow> Some t | _ \<Rightarrow> None)"

lemma merge_in_comm: "merge_in s a b = merge_in s b a"
  by (simp add: merge_in_def job_type_merge_and_collapse_def job_type_lookup_merge_comm [of a b])

lemma merge_in_closed:
  assumes "a \<in> merging_types" "b \<in> merging_types" "merge_in s a b = Some c"
  shows "c \<in> merging_types"
  using assms
  by (auto simp: merging_types_def merge_in_def job_type_merge_and_collapse_def merge_eval
      split: if_splits)

lemma merge_in_assoc:
  assumes "a \<in> merging_types" "b \<in> merging_types" "c \<in> merging_types"
  shows "Option.bind (merge_in s a b) (\<lambda>x. merge_in s x c) =
    Option.bind (merge_in s b c) (\<lambda>y. merge_in s a y)"
  using assms
  by (cases a; cases b; cases c)
    (simp_all add: merging_types_def merge_in_def job_type_merge_and_collapse_def merge_eval)

lemma merge_in_None_iff:
  assumes "a \<in> merging_types" "b \<in> merging_types"
  shows "merge_in s a b = None \<longleftrightarrow> job_type_is_mergeable a b = Some False"
  using assms
  by (auto simp: merge_in_def job_type_merge_and_collapse_def job_type_is_mergeable_def
      job_type_lookup_merge_def merging_types_iff split: option.splits)

section \<open>Merging a list of types\<close>

text \<open>
  What a client of a partial, commutative and associative merge gets: the result of merging a
  list does not depend on the order of the list.
\<close>

locale partial_merge =
  fixes carrier :: "'a set"
    and merge :: "'a \<Rightarrow> 'a \<Rightarrow> 'a option"
  assumes closed: "a \<in> carrier \<Longrightarrow> b \<in> carrier \<Longrightarrow> merge a b = Some c \<Longrightarrow> c \<in> carrier"
    and comm: "merge a b = merge b a"
    and assoc: "a \<in> carrier \<Longrightarrow> b \<in> carrier \<Longrightarrow> c \<in> carrier \<Longrightarrow>
      Option.bind (merge a b) (\<lambda>x. merge x c) = Option.bind (merge b c) (\<lambda>y. merge a y)"
begin

primrec merge_list :: "'a \<Rightarrow> 'a list \<Rightarrow> 'a option" where
  "merge_list a [] = Some a"
| "merge_list a (b # bs) = Option.bind (merge a b) (\<lambda>x. merge_list x bs)"

lemma merge_list_append:
  "merge_list a (xs @ ys) = Option.bind (merge_list a xs) (\<lambda>x. merge_list x ys)"
  by (induction xs arbitrary: a) (simp_all add: Option.bind_assoc)

lemma merge_right_comm:
  assumes "a \<in> carrier" "b \<in> carrier" "c \<in> carrier"
  shows "Option.bind (merge a b) (\<lambda>x. merge x c) = Option.bind (merge a c) (\<lambda>x. merge x b)"
  using assoc [OF assms] assoc [OF assms(1,3,2)] comm [of b c] by simp

lemma merge_list_swap:
  assumes "a \<in> carrier" "b \<in> carrier" "c \<in> carrier"
  shows "merge_list a (b # c # xs) = merge_list a (c # b # xs)"
proof -
  have "merge_list a (b # c # xs) =
      Option.bind (Option.bind (merge a b) (\<lambda>x. merge x c)) (\<lambda>x. merge_list x xs)"
    by (simp add: Option.bind_assoc)
  also have "\<dots> = Option.bind (Option.bind (merge a c) (\<lambda>x. merge x b)) (\<lambda>x. merge_list x xs)"
    using merge_right_comm [OF assms] by simp
  finally show ?thesis
    by (simp add: Option.bind_assoc)
qed

lemma merge_list_pull:
  assumes "a \<in> carrier" "b \<in> carrier" "set xs \<subseteq> carrier"
  shows "merge_list a (xs @ b # ys) = merge_list a (b # xs @ ys)"
  using assms
proof (induction xs arbitrary: a)
  case (Cons x xs)
  have step: "merge_list a (x # b # xs @ ys) = merge_list a (b # x # xs @ ys)"
    using Cons.prems by (intro merge_list_swap) auto
  show ?case
  proof (cases "merge a x")
    case (Some y)
    with Cons.prems have "y \<in> carrier" by (auto intro: closed)
    with Cons Some show ?thesis using step by simp
  next
    case None
    with step show ?thesis by simp
  qed
qed simp

lemma merge_list_perm:
  assumes "mset xs = mset ys" "a \<in> carrier" "set xs \<subseteq> carrier"
  shows "merge_list a xs = merge_list a ys"
  using assms
proof (induction xs arbitrary: a ys)
  case (Cons x xs)
  from Cons.prems(1) have "x \<in> set ys"
    by (metis list.set_intros(1) mset_eq_setD)
  then obtain us vs where ys: "ys = us @ x # vs"
    by (auto simp: in_set_conv_decomp)
  with Cons.prems have rest: "mset xs = mset (us @ vs)" by simp
  have sub: "set us \<subseteq> carrier" "x \<in> carrier" "set xs \<subseteq> carrier"
    using Cons.prems(3) mset_eq_setD [OF rest] by auto
  have "merge_list a ys = merge_list a (x # us @ vs)"
    unfolding ys using Cons.prems(2) sub(2,1) by (rule merge_list_pull)
  also have "\<dots> = merge_list a (x # xs)"
  proof (cases "merge a x")
    case (Some y)
    with Cons.prems sub have "y \<in> carrier" by (auto intro: closed)
    with Cons.IH [OF rest this sub(3)] Some show ?thesis by simp
  qed simp
  finally show ?case by simp
qed simp

lemma merge_list_head:
  assumes "mset (a # xs) = mset (b # ys)" "set (a # xs) \<subseteq> carrier"
  shows "merge_list a xs = merge_list b ys"
proof (cases "a = b")
  case True
  with assms show ?thesis by (auto intro: merge_list_perm)
next
  case False
  have set_eq: "set (a # xs) = set (b # ys)"
    using assms(1) by (rule mset_eq_setD)
  have sub: "set (b # ys) \<subseteq> carrier"
    using assms(2) unfolding set_eq .
  from False set_eq have "b \<in> set xs" by auto
  then obtain us vs where xs: "xs = us @ b # vs"
    by (auto simp: in_set_conv_decomp)
  with assms(1) have rest: "mset ys = mset (a # us @ vs)" by simp
  have "merge_list a xs = merge_list a (b # us @ vs)"
    unfolding xs using assms(2) xs by (intro merge_list_pull) auto
  also have "\<dots> = merge_list b (a # us @ vs)"
    by (simp add: comm)
  also have "\<dots> = merge_list b ys"
    using rest sub by (intro merge_list_perm [symmetric]) auto
  finally show ?thesis .
qed

end

interpretation jt: partial_merge merging_types "merge_in s" for s
  by unfold_locales (auto intro: merge_in_closed merge_in_comm merge_in_assoc)

lemmas job_type_merge_list_head = jt.merge_list_head

text \<open>
  C2. On the types that can be in a transaction besides \<open>JOB_NOP\<close>, merging and then collapsing is
  commutative and associative, conflicts included, whatever state the unit is in: the two laws
  the comment above \<open>job_merging_table\<close> states.
\<close>

theorem job_type_merge_laws:
  assumes "a \<in> merging_types" "b \<in> merging_types" "c \<in> merging_types"
  shows "job_type_merge_and_collapse a b s = job_type_merge_and_collapse b a s \<and>
    Option.bind (job_type_merge_and_collapse a b s)
        (case_sum (\<lambda>e. Some (Inl e)) (\<lambda>x. job_type_merge_and_collapse x c s)) =
      Option.bind (job_type_merge_and_collapse b c s)
        (case_sum (\<lambda>e. Some (Inl e)) (\<lambda>y. job_type_merge_and_collapse a y s))"
  using assms
  by (cases a; cases b; cases c;
      simp add: merging_types_def job_type_merge_and_collapse_def merge_eval)

theorem job_type_merge_laws_witness:
  "job_type_merge_and_collapse JOB_RELOAD JOB_START UNIT_INACTIVE = Some (Inr JOB_START) \<and>
   Option.bind (job_type_merge_and_collapse JOB_START JOB_RELOAD UNIT_INACTIVE)
     (case_sum (\<lambda>e. Some (Inl e)) (\<lambda>x. job_type_merge_and_collapse x JOB_RESTART UNIT_INACTIVE)) =
     Some (Inr JOB_RESTART)"
  using job_type_merge_laws [of JOB_START JOB_RELOAD JOB_RESTART UNIT_INACTIVE]
  by (simp add: merging_types_def job_type_merge_and_collapse_def merge_eval unit_state_defs)

end
