(* ===== verification/Job.thy ===== *)
theory Job
  imports Job_Type "HOL-Library.AList"
begin

text \<open>
  Jobs, job dependencies, and the state they live in (\<open>src/core/job.h\<close>, \<open>src/core/job.c\<close>,
  \<open>src/core/transaction.h\<close>, the fields of \<open>Unit\<close> and \<open>Manager\<close> the job engine reads).

  \<^item> A \<open>Job*\<close> is an address into \<open>heap\<close>; a freed job has no entry.
  \<^item> The intrusive lists \<open>subject_list\<close> and \<open>object_list\<close> of every job are two views of one list
    of \<open>JobDependency\<close> objects, newest first, since \<open>job_dependency_new\<close> prepends to both.
  \<^item> \<open>Transaction.jobs\<close> maps a unit to the head of the list chained by \<open>transaction_next\<close>; it
    is an association list from units to such lists.  The order of the association list is the
    iteration order of the hashmap, over which every result quantifies.
\<close>

section \<open>State\<close>

type_synonym jobp = nat

record job =
  j_unit :: unitp
  j_type :: job_type
  j_state :: job_state
  j_result :: job_result
  j_id :: u32
  j_marker :: "jobp option"
  j_generation :: nat
  j_installed :: bool
  j_in_run_queue :: bool
  j_in_dbus_queue :: bool
  j_in_gc_queue :: bool
  j_matters_to_anchor :: bool
  j_ignore_order :: bool
  j_irreversible :: bool
  j_sent_dbus_new_signal :: bool
  j_begin_usec :: u64
  j_begin_running_usec :: u64
  j_timer :: "u64 option"
  j_bus_refs :: nat
  j_ref_by_private_bus :: bool

record job_dependency =
  d_subject :: "jobp option"
  d_object :: jobp
  d_matters :: bool
  d_conflicts :: bool

record unit_rec =
  u_id :: string
  u_type :: unit_type
  u_load_state :: unit_load_state
  u_load_error :: err
  u_active_state :: unit_active_state
  u_dependencies :: dependencies
  u_following_set :: "unitp list"
  u_job :: "jobp option"
  u_nop_job :: "jobp option"
  u_ignore_on_isolate :: bool
  u_allow_isolate :: bool
  u_perpetual :: bool
  u_type_supported :: bool
  u_once_only :: bool
  u_inactive_exit_set :: bool
  u_has_start :: bool
  u_has_stop :: bool
  u_has_reload :: bool
  u_can_reload_method :: "bool option"
  u_gc_jobs :: bool
  u_job_timeout :: u64
  u_job_running_timeout :: u64
  u_get_timeout :: "u64 option"

record sys =
  heap :: "jobp \<Rightarrow> job option"
  next_job :: jobp
  current_job_id :: u32
  links :: "job_dependency list"
  units :: "unitp \<Rightarrow> unit_rec"
  unit_list :: "unitp list"
  m_jobs :: "(u32 \<times> jobp) list"
  n_installed_jobs :: nat
  n_running_jobs :: nat
  n_failed_jobs :: nat
  run_queue :: "jobp list"
  dbus_job_queue :: "jobp list"
  gc_job_queue :: "jobp list"
  tr_jobs :: "(unitp \<times> jobp list) list"
  tr_anchor :: "jobp option"
  tr_irreversible :: bool
  now_usec :: u64
  private_buses :: bool

abbreviation job_at :: "sys \<Rightarrow> jobp \<Rightarrow> job" where
  "job_at st p \<equiv> the (heap st p)"

abbreviation unit_of :: "sys \<Rightarrow> jobp \<Rightarrow> unit_rec" where
  "unit_of st p \<equiv> units st (j_unit (job_at st p))"

definition upd_job :: "jobp \<Rightarrow> (job \<Rightarrow> job) \<Rightarrow> sys \<Rightarrow> sys" where
  "upd_job p f st = st\<lparr>heap := (heap st)(p := map_option f (heap st p))\<rparr>"

definition upd_unit :: "unitp \<Rightarrow> (unit_rec \<Rightarrow> unit_rec) \<Rightarrow> sys \<Rightarrow> sys" where
  "upd_unit u f st = st\<lparr>units := (units st)(u := f (units st u))\<rparr>"

section \<open>Units\<close>

definition unit_can_start :: "unit_rec \<Rightarrow> bool" where
  "unit_can_start u =
     (if u_load_state u \<noteq> UNIT_LOADED then False
      else if \<not> u_type_supported u then False
      else if u_once_only u \<and> u_inactive_exit_set u then False
      else u_has_start u)"

definition unit_can_stop :: "unit_rec \<Rightarrow> bool" where
  "unit_can_stop u =
     (if \<not> u_type_supported u then False
      else if u_perpetual u then False
      else u_has_stop u)"

definition unit_can_reload :: "unit_rec \<Rightarrow> bool" where
  "unit_can_reload u =
     (case u_can_reload_method u of
        Some b \<Rightarrow> b
      | None \<Rightarrow>
          if UNIT_FOREACH_DEPENDENCY (u_dependencies u) UNIT_ATOM_PROPAGATES_RELOAD_TO \<noteq> [] then True
          else u_has_reload u)"

fun unit_job_is_applicable :: "unit_rec \<Rightarrow> job_type \<Rightarrow> bool" where
  "unit_job_is_applicable u JOB_VERIFY_ACTIVE = True"
| "unit_job_is_applicable u JOB_START = True"
| "unit_job_is_applicable u JOB_NOP = True"
| "unit_job_is_applicable u JOB_STOP = (\<not> u_perpetual u)"
| "unit_job_is_applicable u JOB_RESTART = (unit_can_stop u \<and> unit_can_start u)"
| "unit_job_is_applicable u JOB_TRY_RESTART = (unit_can_stop u \<and> unit_can_start u)"
| "unit_job_is_applicable u JOB_RELOAD = unit_can_reload u"
| "unit_job_is_applicable u JOB_TRY_RELOAD = unit_can_reload u"
| "unit_job_is_applicable u JOB_RELOAD_OR_START = (unit_can_reload u \<and> unit_can_start u)"

fun bus_unit_validate_load_state :: "unit_rec \<Rightarrow> err + unit" where
  "bus_unit_validate_load_state u =
     (case u_load_state u of
        UNIT_LOADED \<Rightarrow> Inr ()
      | UNIT_NOT_FOUND \<Rightarrow> Inl ENOENT
      | UNIT_BAD_SETTING \<Rightarrow> Inl ENOEXEC
      | UNIT_ERROR \<Rightarrow> Inl (u_load_error u)
      | UNIT_MASKED \<Rightarrow> Inl ERFKILL
      | UNIT_STUB \<Rightarrow> Inl ENOENT
      | UNIT_MERGED \<Rightarrow> Inl ENOENT)"

section \<open>Job dependencies\<close>

definition subject_list :: "sys \<Rightarrow> jobp \<Rightarrow> job_dependency list" where
  "subject_list st p = filter (\<lambda>l. d_subject l = Some p) (links st)"

definition object_list :: "sys \<Rightarrow> jobp \<Rightarrow> job_dependency list" where
  "object_list st p = filter (\<lambda>l. d_object l = p) (links st)"

definition job_dependency_new :: "jobp option \<Rightarrow> jobp \<Rightarrow> bool \<Rightarrow> bool \<Rightarrow> sys \<Rightarrow> sys" where
  "job_dependency_new subject object matters conflicts st =
     st\<lparr>links := \<lparr>d_subject = subject, d_object = object, d_matters = matters,
                   d_conflicts = conflicts\<rparr> # links st\<rparr>"

definition job_dependency_free :: "job_dependency \<Rightarrow> sys \<Rightarrow> sys" where
  "job_dependency_free l st = st\<lparr>links := remove1 l (links st)\<rparr>"

section \<open>Allocation\<close>

definition job_new :: "unitp \<Rightarrow> job_type \<Rightarrow> sys \<Rightarrow> jobp \<times> sys" where
  "job_new u t st =
     (let p = next_job st;
          j = \<lparr>j_unit = u, j_type = t, j_state = JOB_WAITING, j_result = JOB_DONE,
               j_id = current_job_id st, j_marker = None, j_generation = 0,
               j_installed = False, j_in_run_queue = False, j_in_dbus_queue = False,
               j_in_gc_queue = False, j_matters_to_anchor = False, j_ignore_order = False,
               j_irreversible = False, j_sent_dbus_new_signal = False, j_begin_usec = 0,
               j_begin_running_usec = 0, j_timer = None, j_bus_refs = 0,
               j_ref_by_private_bus = False\<rparr>
      in (p, st\<lparr>heap := (heap st)(p \<mapsto> j), next_job := Suc p,
                current_job_id := current_job_id st + 1\<rparr>))"

definition job_unlink :: "jobp \<Rightarrow> sys \<Rightarrow> sys" where
  "job_unlink p st =
     (let st = (if j_in_run_queue (job_at st p)
                then upd_job p (\<lambda>j. j\<lparr>j_in_run_queue := False\<rparr>) (st\<lparr>run_queue := remove1 p (run_queue st)\<rparr>)
                else st);
          st = (if j_in_dbus_queue (job_at st p)
                then upd_job p (\<lambda>j. j\<lparr>j_in_dbus_queue := False\<rparr>)
                       (st\<lparr>dbus_job_queue := remove1 p (dbus_job_queue st)\<rparr>)
                else st);
          st = (if j_in_gc_queue (job_at st p)
                then upd_job p (\<lambda>j. j\<lparr>j_in_gc_queue := False\<rparr>)
                       (st\<lparr>gc_job_queue := remove1 p (gc_job_queue st)\<rparr>)
                else st)
      in upd_job p (\<lambda>j. j\<lparr>j_timer := None\<rparr>) st)"

definition job_free :: "jobp \<Rightarrow> sys \<Rightarrow> sys" where
  "job_free p st = (let st = job_unlink p st in st\<lparr>heap := (heap st)(p := None)\<rparr>)"

section \<open>The order of two jobs\<close>

function job_compare :: "job \<Rightarrow> job \<Rightarrow> u64 \<Rightarrow> int" where
  "job_compare a b assume_dep =
     (if j_type a = JOB_NOP \<or> j_type b = JOB_NOP then 0
      else if j_ignore_order a \<or> j_ignore_order b then 0
      else if assume_dep = UNIT_ATOM_AFTER then - job_compare b a UNIT_ATOM_BEFORE
      else if j_type b \<in> {JOB_STOP, JOB_RESTART} then 1
      else -1)"
  by pat_completeness auto
termination
  by (relation "measure (\<lambda>(a, b, d). if d = UNIT_ATOM_AFTER then 1 else 0)")
    (auto simp: atom_defs)

declare job_compare.simps [simp del]

lemma order_atoms [simp]: "UNIT_ATOM_BEFORE \<noteq> UNIT_ATOM_AFTER" "UNIT_ATOM_AFTER \<noteq> UNIT_ATOM_BEFORE"
  by (simp_all add: atom_defs)

lemma job_compare_eq:
  "job_compare a b d =
    (if j_type a = JOB_NOP \<or> j_type b = JOB_NOP \<or> j_ignore_order a \<or> j_ignore_order b then 0
     else if d = UNIT_ATOM_AFTER then (if j_type a \<in> {JOB_STOP, JOB_RESTART} then -1 else 1)
     else if j_type b \<in> {JOB_STOP, JOB_RESTART} then 1 else -1)"
proof -
  have "UNIT_ATOM_BEFORE \<noteq> UNIT_ATOM_AFTER" by (simp add: atom_defs)
  then show ?thesis
    by (subst job_compare.simps, subst job_compare.simps) (auto simp: job_compare.simps)
qed

section \<open>Concrete states\<close>

text \<open>A loaded unit, a fresh job and a manager without units, from which examples are built.\<close>

definition plain_unit :: unit_rec where
  "plain_unit =
     \<lparr>u_id = ''a.service'', u_type = UNIT_SERVICE, u_load_state = UNIT_LOADED, u_load_error = EIO,
      u_active_state = UNIT_INACTIVE, u_dependencies = [], u_following_set = [], u_job = None,
      u_nop_job = None, u_ignore_on_isolate = False, u_allow_isolate = False, u_perpetual = False,
      u_type_supported = True, u_once_only = False, u_inactive_exit_set = False,
      u_has_start = True, u_has_stop = True, u_has_reload = True, u_can_reload_method = None,
      u_gc_jobs = False, u_job_timeout = -1, u_job_running_timeout = -1, u_get_timeout = None\<rparr>"

definition plain_job :: "unitp \<Rightarrow> job_type \<Rightarrow> job" where
  "plain_job u t =
     \<lparr>j_unit = u, j_type = t, j_state = JOB_WAITING, j_result = JOB_DONE, j_id = 0, j_marker = None,
      j_generation = 0, j_installed = False, j_in_run_queue = False, j_in_dbus_queue = False,
      j_in_gc_queue = False, j_matters_to_anchor = False, j_ignore_order = False,
      j_irreversible = False, j_sent_dbus_new_signal = False, j_begin_usec = 0,
      j_begin_running_usec = 0, j_timer = None, j_bus_refs = 0, j_ref_by_private_bus = False\<rparr>"

definition idle_sys :: sys where
  "idle_sys =
     \<lparr>heap = (\<lambda>_. None), next_job = 1, current_job_id = 1, links = [], units = (\<lambda>_. plain_unit),
      unit_list = [], m_jobs = [], n_installed_jobs = 0, n_running_jobs = 0, n_failed_jobs = 0,
      run_queue = [], dbus_job_queue = [], gc_job_queue = [], tr_jobs = [], tr_anchor = None,
      tr_irreversible = False, now_usec = 1, private_buses = False\<rparr>"

end
