(* ===== verification/Transaction_Delete.thy ===== *)
theory Transaction_Delete
  imports Job
begin

text \<open>
  Deleting jobs from a transaction (\<open>src/core/transaction.c\<close>, \<open>transaction_unlink_job\<close>,
  \<open>transaction_delete_job\<close>, \<open>transaction_delete_unit\<close>, \<open>transaction_abort\<close>): the invariant of
  the transaction's heap, and that a deletion removes exactly the jobs that need the deleted one.
\<close>

section \<open>Operations\<close>

text \<open>The list of jobs of a unit; its head is what \<open>hashmap_get(tr->jobs, u)\<close> returns.\<close>

definition tr_get :: "sys \<Rightarrow> unitp \<Rightarrow> jobp list" where
  "tr_get st u = (case map_of (tr_jobs st) u of None \<Rightarrow> [] | Some js \<Rightarrow> js)"

text \<open>Taking a job out of its unit's list; the entry of the unit goes with its last job.\<close>

definition tr_remove_job :: "jobp \<Rightarrow> sys \<Rightarrow> sys" where
  "tr_remove_job p st =
     (let u = j_unit (job_at st p); js = tr_get st u in
      if p \<notin> set js then st
      else let js' = remove1 p js in
        st\<lparr>tr_jobs := (if js' = [] then AList.delete u (tr_jobs st)
                       else AList.update u js' (tr_jobs st))\<rparr>)"

definition free_subject_links :: "jobp \<Rightarrow> sys \<Rightarrow> sys" where
  "free_subject_links p st = st\<lparr>links := filter (\<lambda>l. d_subject l \<noteq> Some p) (links st)\<rparr>"

text \<open>
  The loop \<open>while (j->object_list)\<close> at the end of \<open>transaction_unlink_job\<close>.  Every round frees one
  dependency; with \<open>delete_dependencies\<close> the job that needs this one goes first.
\<close>

function free_object_links :: "bool \<Rightarrow> jobp \<Rightarrow> sys \<Rightarrow> sys" where
  "free_object_links delete_dependencies p st =
     (case object_list st p of
        [] \<Rightarrow> st
      | l # _ \<Rightarrow>
          (let other = (if d_matters l then d_subject l else None);
               st = job_dependency_free l st
           in case (if delete_dependencies then other else None) of
                None \<Rightarrow> free_object_links delete_dependencies p st
              | Some k \<Rightarrow>
                  free_object_links delete_dependencies p
                    (job_free k
                      (free_object_links delete_dependencies k
                        (free_subject_links k (tr_remove_job k st))))))"
  by pat_completeness auto

lemma length_links_simps:
  "length (links (tr_remove_job p st)) = length (links st)"
  "length (links (free_subject_links p st)) \<le> length (links st)"
  "length (links (job_free p st)) = length (links st)"
  by (simp_all add: tr_remove_job_def free_subject_links_def job_free_def job_unlink_def
      upd_job_def Let_def)

lemma length_links_dependency_free:
  "object_list st p = l # ls \<Longrightarrow> length (links (job_dependency_free l st)) < length (links st)"
proof -
  assume "object_list st p = l # ls"
  then have "l \<in> set (links st)"
    by (metis object_list_def filter_is_subset list.set_intros(1) subsetD)
  then have "0 < length (links st)" by (cases "links st") auto
  with \<open>l \<in> set (links st)\<close> show ?thesis
    by (simp add: job_dependency_free_def length_remove1)
qed

lemma free_object_links_length:
  "free_object_links_dom (dd, p, st) \<Longrightarrow> length (links (free_object_links dd p st)) \<le> length (links st)"
proof (induction dd p st rule: free_object_links.pinduct)
  case (1 dd p st)
  show ?case
  proof (cases "object_list st p")
    case Nil
    with "1.hyps" show ?thesis by (simp add: free_object_links.psimps)
  next
    case (Cons l ls)
    note shorter = length_links_dependency_free [OF Cons]
    show ?thesis
    proof (cases "if dd then (if d_matters l then d_subject l else None) else None")
      case None
      from "1.IH"(1) [OF Cons refl refl None] shorter None Cons "1.hyps" show ?thesis
        by (simp add: free_object_links.psimps Let_def)
    next
      case (Some k)
      let ?s = "free_subject_links k (tr_remove_job k (job_dependency_free l st))"
      have "length (links ?s) \<le> length (links (job_dependency_free l st))"
        by (metis length_links_simps(1,2))
      with "1.IH"(2,3) [OF Cons refl refl Some] shorter Some Cons "1.hyps" show ?thesis
        by (simp add: free_object_links.psimps Let_def length_links_simps)
    qed
  qed
qed

termination free_object_links
proof (relation "measure (\<lambda>(dd, p, st). length (links st))", goal_cases)
  case 1
  then show ?case by simp
next
  case (2 dd p st l ls other st')
  then show ?case using length_links_dependency_free [of st p l ls] by simp
next
  case (3 dd p st l ls other st' k)
  then show ?case
    using length_links_dependency_free [of st p l ls] length_links_simps(1) [of k st']
      length_links_simps(2) [of k "tr_remove_job k st'"] by simp
next
  case (4 dd p st l ls other st' k)
  then show ?case
    using length_links_dependency_free [of st p l ls] length_links_simps(1) [of k st']
      length_links_simps(2) [of k "tr_remove_job k st'"]
      free_object_links_length [of dd k "free_subject_links k (tr_remove_job k st')"]
    by (simp add: length_links_simps(3))
qed

declare free_object_links.simps [simp del]

definition transaction_unlink_job :: "bool \<Rightarrow> jobp \<Rightarrow> sys \<Rightarrow> sys" where
  "transaction_unlink_job delete_dependencies p st =
     free_object_links delete_dependencies p (free_subject_links p (tr_remove_job p st))"

definition transaction_delete_job :: "bool \<Rightarrow> jobp \<Rightarrow> sys \<Rightarrow> sys" where
  "transaction_delete_job delete_dependencies p st =
     job_free p (transaction_unlink_job delete_dependencies p st)"

lemma free_object_links_unfold:
  "free_object_links dd p st =
     (case object_list st p of
        [] \<Rightarrow> st
      | l # _ \<Rightarrow>
          (let st' = job_dependency_free l st
           in case (if dd then (if d_matters l then d_subject l else None) else None) of
                None \<Rightarrow> free_object_links dd p st'
              | Some k \<Rightarrow> free_object_links dd p (transaction_delete_job dd k st')))"
  by (simp add: free_object_links.simps [of dd p st] transaction_delete_job_def
      transaction_unlink_job_def Let_def split: list.split option.split)

section \<open>The specification of a deletion\<close>

text \<open>Jobs in the transaction.\<close>

definition tr_set :: "sys \<Rightarrow> jobp set" where
  "tr_set st = (\<Union>(u, js) \<in> set (tr_jobs st). set js)"

text \<open>\<open>(k, p)\<close>: job \<open>k\<close> pulled \<open>p\<close> in by a dependency that matters.\<close>

definition needs :: "sys \<Rightarrow> (jobp \<times> jobp) set" where
  "needs st = {(k, p). \<exists>l \<in> set (links st). d_subject l = Some k \<and> d_object l = p \<and> d_matters l}"

definition needers :: "sys \<Rightarrow> jobp \<Rightarrow> jobp set" where
  "needers st p = {k. (k, p) \<in> (needs st)\<^sup>*}"

fun drop_jobs :: "jobp set \<Rightarrow> (unitp \<times> jobp list) list \<Rightarrow> (unitp \<times> jobp list) list" where
  "drop_jobs D [] = []"
| "drop_jobs D ((u, js) # xs) =
     (let js' = filter (\<lambda>p. p \<notin> D) js
      in if js' = [] then drop_jobs D xs else (u, js') # drop_jobs D xs)"

definition drop_links :: "jobp set \<Rightarrow> job_dependency list \<Rightarrow> job_dependency list" where
  "drop_links D ls = filter (\<lambda>l. d_object l \<notin> D \<and> (\<forall>s. d_subject l = Some s \<longrightarrow> s \<notin> D)) ls"

definition delete_jobs :: "jobp set \<Rightarrow> sys \<Rightarrow> sys" where
  "delete_jobs D st =
     st\<lparr>tr_jobs := drop_jobs D (tr_jobs st), links := drop_links D (links st),
        heap := heap st |` (- D)\<rparr>"

text \<open>Everything outside the heap of jobs, their dependencies and the transaction's table.\<close>

definition others :: "sys \<Rightarrow> sys" where
  "others st = st\<lparr>heap := (\<lambda>_. None), links := [], tr_jobs := []\<rparr>"

lemma others_delete_jobs [simp]: "others (delete_jobs D st) = others st"
  by (simp add: others_def delete_jobs_def)

section \<open>The invariant of a transaction under construction\<close>

definition tr_entry_ok :: "sys \<Rightarrow> unitp \<times> jobp list \<Rightarrow> bool" where
  "tr_entry_ok st e \<longleftrightarrow>
     snd e \<noteq> [] \<and> distinct (snd e) \<and>
     (\<forall>p \<in> set (snd e). \<exists>j. heap st p = Some j \<and> j_unit j = fst e \<and> \<not> j_installed j \<and>
        \<not> j_in_run_queue j \<and> \<not> j_in_dbus_queue j \<and> \<not> j_in_gc_queue j)"

text \<open>\<open>P\<close> holds jobs that left the list of their unit and are not freed yet.\<close>

definition wf_links :: "jobp set \<Rightarrow> sys \<Rightarrow> bool" where
  "wf_links P st \<longleftrightarrow>
     (\<forall>l \<in> set (links st). d_object l \<in> tr_set st \<union> P \<and>
        (\<forall>s. d_subject l = Some s \<longrightarrow> s \<in> tr_set st))"

definition wf_trans :: "jobp set \<Rightarrow> sys \<Rightarrow> bool" where
  "wf_trans P st \<longleftrightarrow>
     distinct (map fst (tr_jobs st)) \<and> (\<forall>e \<in> set (tr_jobs st). tr_entry_ok st e) \<and>
     P \<inter> tr_set st = {} \<and> wf_links P st"

lemma wf_transD:
  assumes "wf_trans P st"
  shows "distinct (map fst (tr_jobs st))"
    and "e \<in> set (tr_jobs st) \<Longrightarrow> tr_entry_ok st e"
    and "P \<inter> tr_set st = {}"
    and "wf_links P st"
  using assms by (auto simp: wf_trans_def)

section \<open>Sets of jobs\<close>

lemma set_drop_jobs:
  "(u, js) \<in> set (drop_jobs D xs) \<longleftrightarrow>
    (\<exists>ks. (u, ks) \<in> set xs \<and> js = filter (\<lambda>p. p \<notin> D) ks \<and> js \<noteq> [])"
  by (induction D xs rule: drop_jobs.induct) (auto simp: Let_def)

lemma keys_drop_jobs: "fst ` set (drop_jobs D xs) \<subseteq> fst ` set xs"
  by (force simp: set_drop_jobs)

lemma distinct_drop_jobs: "distinct (map fst xs) \<Longrightarrow> distinct (map fst (drop_jobs D xs))"
proof (induction D xs rule: drop_jobs.induct)
  case (2 D u js xs)
  then show ?case using keys_drop_jobs [of D xs] by (auto simp: Let_def)
qed simp

lemma drop_jobs_drop_jobs: "drop_jobs A (drop_jobs B xs) = drop_jobs (A \<union> B) xs"
proof (induction B xs rule: drop_jobs.induct)
  case (2 B u js xs)
  have "filter (\<lambda>p. p \<notin> A) (filter (\<lambda>p. p \<notin> B) js) = filter (\<lambda>p. p \<notin> A \<union> B) js"
    by (simp add: conj_commute)
  moreover have "filter (\<lambda>p. p \<notin> B) js = [] \<Longrightarrow> filter (\<lambda>p. p \<notin> A \<union> B) js = []"
    by (auto simp: filter_empty_conv)
  ultimately show ?case using 2 by (simp add: Let_def)
qed simp

lemma drop_jobs_id:
  assumes "\<forall>(u, js) \<in> set xs. js \<noteq> [] \<and> set js \<inter> D = {}"
  shows "drop_jobs D xs = xs"
  using assms
proof (induction D xs rule: drop_jobs.induct)
  case (2 D u js xs)
  then have "filter (\<lambda>p. p \<notin> D) js = js" by (auto simp: filter_id_conv)
  with 2 show ?case by (simp add: Let_def)
qed simp

lemma tr_set_drop: "(\<Union>(u, js) \<in> set (drop_jobs D xs). set js) = (\<Union>(u, js) \<in> set xs. set js) - D"
proof (induction D xs rule: drop_jobs.induct)
  case (2 D u js xs)
  then show ?case by (auto simp: Let_def filter_empty_conv)
qed simp

lemma tr_set_delete_jobs: "tr_set (delete_jobs D st) = tr_set st - D"
  by (simp add: tr_set_def delete_jobs_def tr_set_drop)

lemma drop_links_drop_links: "drop_links A (drop_links B ls) = drop_links (A \<union> B) ls"
  by (induction ls) (auto simp: drop_links_def)

lemma delete_jobs_delete_jobs: "delete_jobs A (delete_jobs B st) = delete_jobs (A \<union> B) st"
  by (simp add: delete_jobs_def drop_jobs_drop_jobs drop_links_drop_links Int_commute)

section \<open>One job leaves its list\<close>

lemma AList_delete_drop:
  assumes "distinct (map fst xs)" "map_of xs u = Some js" "filter (\<lambda>p. p \<notin> D) js = []"
    and "\<And>v ks. (v, ks) \<in> set xs \<Longrightarrow> v \<noteq> u \<Longrightarrow> ks \<noteq> [] \<and> set ks \<inter> D = {}"
  shows "AList.delete u xs = drop_jobs D xs"
  using assms
proof (induction xs)
  case (Cons e xs)
  obtain v ks where e: "e = (v, ks)" by (cases e)
  show ?case
  proof (cases "v = u")
    case True
    with Cons.prems e have "u \<notin> fst ` set xs" by auto
    moreover from Cons.prems(4) this have "\<forall>(w, ls) \<in> set xs. ls \<noteq> [] \<and> set ls \<inter> D = {}"
      by (force simp: image_iff)
    ultimately show ?thesis
      using True e Cons.prems by (simp add: drop_jobs_id Let_def)
  next
    case False
    have "set ks \<inter> D = {}" "ks \<noteq> []"
      using Cons.prems(4) [of v ks] False e by auto
    then have "filter (\<lambda>p. p \<notin> D) ks = ks" by (auto simp: filter_id_conv)
    with Cons False e show ?thesis
      by (auto simp: Let_def \<open>ks \<noteq> []\<close>)
  qed
qed simp

lemma AList_update_drop:
  assumes "distinct (map fst xs)" "map_of xs u = Some js" "filter (\<lambda>p. p \<notin> D) js \<noteq> []"
    and "\<And>v ks. (v, ks) \<in> set xs \<Longrightarrow> v \<noteq> u \<Longrightarrow> ks \<noteq> [] \<and> set ks \<inter> D = {}"
  shows "AList.update u (filter (\<lambda>p. p \<notin> D) js) xs = drop_jobs D xs"
  using assms
proof (induction xs)
  case (Cons e xs)
  obtain v ks where e: "e = (v, ks)" by (cases e)
  show ?case
  proof (cases "v = u")
    case True
    with Cons.prems e have "u \<notin> fst ` set xs" by auto
    with Cons.prems(4) have "\<forall>(w, ls) \<in> set xs. ls \<noteq> [] \<and> set ls \<inter> D = {}"
      by (force simp: image_iff)
    with True e Cons.prems show ?thesis by (simp add: drop_jobs_id Let_def)
  next
    case False
    have "set ks \<inter> D = {}" "ks \<noteq> []"
      using Cons.prems(4) [of v ks] False e by auto
    then have "filter (\<lambda>p. p \<notin> D) ks = ks" by (auto simp: filter_id_conv)
    with Cons False e show ?thesis by (auto simp: Let_def \<open>ks \<noteq> []\<close>)
  qed
qed simp

lemma tr_set_entry:
  assumes "wf_trans P st" "p \<in> tr_set st"
  obtains j where "heap st p = Some j" "map_of (tr_jobs st) (j_unit j) = Some (tr_get st (j_unit j))"
    "p \<in> set (tr_get st (j_unit j))" "\<not> j_installed j" "\<not> j_in_run_queue j"
    "\<not> j_in_dbus_queue j" "\<not> j_in_gc_queue j" "distinct (tr_get st (j_unit j))"
proof -
  from assms(2) obtain u js where e: "(u, js) \<in> set (tr_jobs st)" "p \<in> set js"
    by (auto simp: tr_set_def)
  have m: "map_of (tr_jobs st) u = Some js"
    using wf_transD(1) [OF assms(1)] e(1) by (rule map_of_is_SomeI)
  from wf_transD(2) [OF assms(1) e(1)] e(2) that m show ?thesis
    by (force simp: tr_entry_ok_def tr_get_def)
qed

lemma other_units_unaffected:
  assumes "wf_trans P st" "heap st p = Some j" "(v, ks) \<in> set (tr_jobs st)" "v \<noteq> j_unit j"
  shows "ks \<noteq> [] \<and> set ks \<inter> {p} = {}"
  using wf_transD(2) [OF assms(1,3)] assms(2,4) by (auto simp: tr_entry_ok_def)

lemma tr_remove_job_eq:
  assumes "wf_trans P st" "p \<in> tr_set st"
  shows "tr_remove_job p st = st\<lparr>tr_jobs := drop_jobs {p} (tr_jobs st)\<rparr>"
proof -
  from assms obtain j where j: "heap st p = Some j"
      "map_of (tr_jobs st) (j_unit j) = Some (tr_get st (j_unit j))"
      "p \<in> set (tr_get st (j_unit j))" "distinct (tr_get st (j_unit j))"
    by (rule tr_set_entry)
  have rem: "remove1 p (tr_get st (j_unit j)) = filter (\<lambda>q. q \<notin> {p}) (tr_get st (j_unit j))"
    using j(4) by (simp add: distinct_remove1_removeAll removeAll_filter_not_eq eq_commute)
  note dk = wf_transD(1) [OF assms(1)]
  note other = other_units_unaffected [OF assms(1) j(1)]
  show ?thesis
    using AList_delete_drop [OF dk j(2) _ other] AList_update_drop [OF dk j(2) _ other] j rem
    by (auto simp: tr_remove_job_def Let_def)
qed

section \<open>Deleting is deleting the needers\<close>

lemma wf_trans_delete_jobs:
  assumes "wf_trans P st"
  shows "wf_trans P (delete_jobs D st)"
proof -
  have "tr_entry_ok (delete_jobs D st) e" if "e \<in> set (tr_jobs (delete_jobs D st))" for e
  proof -
    obtain u js where e: "e = (u, js)" by (cases e)
    with that obtain ks where "(u, ks) \<in> set (tr_jobs st)" "js = filter (\<lambda>p. p \<notin> D) ks" "js \<noteq> []"
      by (auto simp: delete_jobs_def set_drop_jobs)
    with wf_transD(2) [OF assms, of "(u, ks)"] e show ?thesis
      by (auto simp: tr_entry_ok_def delete_jobs_def)
  qed
  moreover have "distinct (map fst (tr_jobs (delete_jobs D st)))"
    using wf_transD(1) [OF assms] by (simp add: delete_jobs_def distinct_drop_jobs)
  moreover have "P \<inter> tr_set (delete_jobs D st) = {}"
    using wf_transD(3) [OF assms] by (auto simp: tr_set_delete_jobs)
  moreover have "wf_links P (delete_jobs D st)"
    using wf_transD(4) [OF assms]
    by (auto simp: wf_links_def tr_set_delete_jobs) (auto simp: delete_jobs_def drop_links_def)
  ultimately show ?thesis by (simp add: wf_trans_def)
qed

definition half_unlinked :: "jobp \<Rightarrow> sys \<Rightarrow> sys" where
  "half_unlinked p st = free_subject_links p (tr_remove_job p st)"

lemma half_unlinked_eq:
  assumes "wf_trans P st" "p \<in> tr_set st"
  shows "half_unlinked p st =
    st\<lparr>tr_jobs := drop_jobs {p} (tr_jobs st),
       links := filter (\<lambda>l. d_subject l \<noteq> Some p) (links st)\<rparr>"
  by (simp add: half_unlinked_def free_subject_links_def tr_remove_job_eq [OF assms])

lemma tr_set_half_unlinked:
  assumes "wf_trans P st" "p \<in> tr_set st"
  shows "tr_set (half_unlinked p st) = tr_set st - {p}"
  by (simp add: half_unlinked_eq [OF assms] tr_set_def tr_set_drop)

lemma wf_trans_half_unlinked:
  assumes "wf_trans P st" "p \<in> tr_set st"
  shows "wf_trans (insert p P) (half_unlinked p st)"
proof -
  have del: "wf_trans P (delete_jobs {p} st)"
    using assms(1) by (rule wf_trans_delete_jobs)
  have "tr_entry_ok (half_unlinked p st) e" if "e \<in> set (tr_jobs (half_unlinked p st))" for e
    using wf_transD(2) [OF del, of e] that
    by (auto simp: half_unlinked_eq [OF assms] delete_jobs_def tr_entry_ok_def restrict_map_def
        split: if_splits)
  moreover have "distinct (map fst (tr_jobs (half_unlinked p st)))"
    using wf_transD(1) [OF del] by (simp add: half_unlinked_eq [OF assms] delete_jobs_def)
  moreover have "wf_links (insert p P) (half_unlinked p st)"
    using wf_transD(4) [OF assms(1)]
    by (auto simp: wf_links_def tr_set_half_unlinked [OF assms])
      (auto simp: half_unlinked_eq [OF assms])
  ultimately show ?thesis
    using wf_transD(3) [OF assms(1)] by (auto simp: wf_trans_def tr_set_half_unlinked [OF assms])
qed

definition without_object :: "jobp \<Rightarrow> sys \<Rightarrow> sys" where
  "without_object p st = st\<lparr>links := filter (\<lambda>l. d_object l \<noteq> p) (links st)\<rparr>"

lemma job_free_plain:
  assumes "heap st p = Some j" "\<not> j_in_run_queue j" "\<not> j_in_dbus_queue j" "\<not> j_in_gc_queue j"
  shows "job_free p st = st\<lparr>heap := (heap st)(p := None)\<rparr>"
  using assms by (simp add: job_free_def job_unlink_def Let_def upd_job_def)

lemma finish_delete:
  assumes "wf_trans P st" "k \<in> tr_set st"
  shows "job_free k (delete_jobs (N - {k}) (without_object k (half_unlinked k st))) =
    delete_jobs (insert k N) st"
proof -
  from assms obtain j where j: "heap st k = Some j" "\<not> j_in_run_queue j" "\<not> j_in_dbus_queue j"
      "\<not> j_in_gc_queue j"
    by (rule tr_set_entry)
  let ?s = "delete_jobs (N - {k}) (without_object k (half_unlinked k st))"
  have "heap ?s k = Some j"
    using j(1) by (simp add: delete_jobs_def without_object_def half_unlinked_eq [OF assms])
  then have "job_free k ?s = ?s\<lparr>heap := (heap ?s)(k := None)\<rparr>"
    using j(2-4) by (rule job_free_plain)
  moreover have "drop_jobs (N - {k}) (drop_jobs {k} (tr_jobs st)) = drop_jobs (insert k N) (tr_jobs st)"
    by (simp add: drop_jobs_drop_jobs)
  moreover have "drop_links (N - {k})
      (filter (\<lambda>l. d_object l \<noteq> k) (filter (\<lambda>l. d_subject l \<noteq> Some k) (links st))) =
      drop_links (insert k N) (links st)"
    by (auto simp: drop_links_def intro!: filter_cong)
  moreover have "(heap st |` (- (N - {k})))(k := None) = heap st |` (- insert k N)"
    by (auto simp: restrict_map_def fun_eq_iff)
  ultimately show ?thesis
    by (simp add: delete_jobs_def without_object_def half_unlinked_eq [OF assms])
qed

lemma needs_half_unlinked:
  assumes "wf_trans P st" "k \<in> tr_set st"
  shows "needs (half_unlinked k st) = {(a, b) \<in> needs st. a \<noteq> k}"
  by (auto simp: needs_def half_unlinked_eq [OF assms])

lemma rtrancl_without_source:
  "(x, k) \<in> R\<^sup>* \<Longrightarrow> (x, k) \<in> {(a, b) \<in> R. a \<noteq> k}\<^sup>*"
proof (induction rule: converse_rtrancl_induct)
  case (step x y)
  then show ?case
    by (cases "x = k") (auto intro: converse_rtrancl_into_rtrancl)
qed simp

lemma needers_half_unlinked:
  assumes "wf_trans P st" "k \<in> tr_set st"
  shows "needers (half_unlinked k st) k = needers st k"
proof -
  have "(x, k) \<in> {(a, b) \<in> needs st. a \<noteq> k}\<^sup>* \<longleftrightarrow> (x, k) \<in> (needs st)\<^sup>*" for x
    using rtrancl_without_source [of x k "needs st"] rtrancl_mono [of "{(a, b) \<in> needs st. a \<noteq> k}" "needs st"]
    by blast
  then show ?thesis
    by (simp add: needers_def needs_half_unlinked [OF assms])
qed

text \<open>
  One round of the loop, as a fact on relations: \<open>R\<close> is the need relation, \<open>k\<close> the job that goes
  first, \<open>R1\<close> what is left of \<open>R\<close> without one edge from \<open>k\<close> to \<open>p\<close>.
\<close>

lemma needers_round:
  assumes "R1 \<subseteq> R" "R \<subseteq> insert (k, p) R1" "(k, p) \<in> R" "p \<notin> Domain R"
    and D1: "D1 = {x. (x, k) \<in> R1\<^sup>*}"
    and R3: "R3 = {(a, b) \<in> R1. a \<notin> D1 \<and> b \<notin> D1}"
  shows "({x. (x, p) \<in> R3\<^sup>*} - {p}) \<union> D1 = {x. (x, p) \<in> R\<^sup>*} - {p}"
proof -
  have kp: "k \<noteq> p" using assms(3,4) by blast
  have pD: "p \<notin> D1"
  proof
    assume "p \<in> D1"
    with D1 have "(p, k) \<in> R1\<^sup>*" by simp
    then show False
    proof (cases rule: converse_rtranclE)
      case base
      with kp show False by simp
    next
      case (step y)
      with assms(1,4) show False by blast
    qed
  qed
  have backwards: "x \<in> D1" if "(x, y) \<in> R1" "y \<in> D1" for x y
    using that D1 by (auto intro: converse_rtrancl_into_rtrancl)
  have "(x, p) \<in> R3\<^sup>*" if "(x, p) \<in> R\<^sup>*" "x \<notin> D1" for x
    using that
  proof (induction rule: converse_rtrancl_induct)
    case (step x y)
    have "x \<noteq> k" using step.prems D1 by auto
    with step.hyps(1) assms(2) have e: "(x, y) \<in> R1" by auto
    with backwards step.prems have "y \<notin> D1" by blast
    with e step R3 show ?case by (auto intro: converse_rtrancl_into_rtrancl)
  qed simp
  moreover have "(x, p) \<in> R\<^sup>*" if "x \<in> D1" for x
    using that D1 assms(3) rtrancl_mono [OF assms(1)] by (auto intro: rtrancl_into_rtrancl)
  moreover have "R3\<^sup>* \<subseteq> R\<^sup>*"
    using R3 assms(1) by (intro rtrancl_mono) auto
  ultimately show ?thesis using pD by auto
qed

lemma needs_delete_jobs: "needs (delete_jobs D st) = {(a, b) \<in> needs st. a \<notin> D \<and> b \<notin> D}"
  by (auto simp: needs_def delete_jobs_def drop_links_def)

lemma needs_dependency_free_le: "needs (job_dependency_free l st) \<subseteq> needs st"
  using set_remove1_subset [of l "links st"] by (auto simp: needs_def job_dependency_free_def)

lemma needs_dependency_free_ge:
  "needs st \<subseteq> {(k, p). d_subject l = Some k \<and> d_object l = p \<and> d_matters l} \<union>
    needs (job_dependency_free l st)"
proof (rule subrelI)
  fix a b
  assume "(a, b) \<in> needs st"
  then obtain m where m: "m \<in> set (links st)" "d_subject m = Some a" "d_object m = b" "d_matters m"
    by (auto simp: needs_def)
  show "(a, b) \<in> {(k, p). d_subject l = Some k \<and> d_object l = p \<and> d_matters l} \<union>
      needs (job_dependency_free l st)"
    using m by (cases "m = l") (auto simp: needs_def job_dependency_free_def)
qed

lemma wf_trans_dependency_free:
  assumes "wf_trans P st"
  shows "wf_trans P (job_dependency_free l st)"
proof -
  have "wf_links P (job_dependency_free l st)"
    using wf_transD(4) [OF assms] set_remove1_subset [of l "links st"]
    by (auto simp: wf_links_def tr_set_def job_dependency_free_def)
  with assms show ?thesis
    by (simp add: wf_trans_def tr_set_def job_dependency_free_def tr_entry_ok_def)
qed

lemma wf_trans_without_object:
  assumes "wf_trans P st"
  shows "wf_trans P (without_object p st)"
  using assms
  by (auto simp: wf_trans_def wf_links_def tr_set_def without_object_def tr_entry_ok_def)

lemma without_object_dependency_free:
  "d_object l = p \<Longrightarrow> without_object p (job_dependency_free l st) = without_object p st"
  by (simp add: without_object_def job_dependency_free_def filter_remove1 remove1_idem)

lemma without_object_delete_jobs:
  "without_object p (delete_jobs D st) = delete_jobs D (without_object p st)"
  by (simp add: without_object_def delete_jobs_def drop_links_def conj_commute)

lemma delete_jobs_empty:
  assumes "wf_trans P st"
  shows "delete_jobs {} st = st"
proof -
  have "drop_jobs {} (tr_jobs st) = tr_jobs st"
    using wf_transD(2) [OF assms] by (intro drop_jobs_id) (force simp: tr_entry_ok_def)
  moreover have "heap st |` UNIV = heap st" by (simp add: restrict_map_def)
  ultimately show ?thesis by (simp add: delete_jobs_def drop_links_def)
qed

lemma pending_not_subject:
  assumes "wf_trans P st" "p \<in> P"
  shows "p \<notin> Domain (needs st)"
  using wf_transD(3,4) [OF assms(1)] assms(2) by (auto simp: needs_def wf_links_def)

lemma without_object_nil: "object_list st p = [] \<Longrightarrow> without_object p st = st"
  by (simp add: object_list_def without_object_def filter_empty_conv filter_id_conv)

lemma needers_refl: "p \<in> needers st p"
  by (simp add: needers_def)

lemma needers_nil: "object_list st p = [] \<Longrightarrow> needers st p = {p}"
  by (auto simp: needers_def needs_def object_list_def filter_empty_conv elim: rtranclE)

lemma object_list_ConsD:
  assumes "object_list st p = l # ls"
  shows "l \<in> set (links st)" "d_object l = p"
proof -
  from assms have "l \<in> set (object_list st p)" by simp
  then show "l \<in> set (links st)" "d_object l = p" by (simp_all add: object_list_def)
qed

lemma free_object_links_eq:
  assumes "wf_trans P st" "p \<in> P"
  shows "free_object_links True p st = delete_jobs (needers st p - {p}) (without_object p st)"
  using assms
proof (induction "length (links st)" arbitrary: p P st rule: less_induct)
  case less
  note wf = less.prems(1) and pP = less.prems(2)
  show ?case
  proof (cases "object_list st p")
    case Nil
    then show ?thesis
      by (simp add: free_object_links_unfold [of _ _ st] needers_nil without_object_nil
          delete_jobs_empty [OF wf])
  next
    case (Cons l ls)
    let ?s1 = "job_dependency_free l st"
    have wf1: "wf_trans P ?s1" using wf by (rule wf_trans_dependency_free)
    have lp: "d_object l = p" and l_in: "l \<in> set (links st)"
      using object_list_ConsD [OF Cons] by auto
    have len1: "length (links ?s1) < length (links st)"
      using Cons by (rule length_links_dependency_free)
    have wo1: "without_object p ?s1 = without_object p st"
      using lp by (rule without_object_dependency_free)
    show ?thesis
    proof (cases "if d_matters l then d_subject l else None")
      case None
      then have "needs st = needs ?s1"
        using needs_dependency_free_le [of l st] needs_dependency_free_ge [of st l]
        by (auto split: if_splits)
      then have "needers st p = needers ?s1 p" by (simp add: needers_def)
      with less.hyps [OF len1 wf1 pP] Cons None wo1 show ?thesis
        by (simp add: free_object_links_unfold [of _ _ st])
    next
      case (Some k)
      then have mat: "d_matters l" and sub: "d_subject l = Some k" by (auto split: if_splits)
      have k_in: "k \<in> tr_set ?s1"
        using wf_transD(4) [OF wf] l_in sub
        by (auto simp: wf_links_def tr_set_def job_dependency_free_def)
      have len_h: "length (links (half_unlinked k ?s1)) < length (links st)"
        using len1 length_links_simps(1) [of k ?s1] length_links_simps(2) [of k "tr_remove_job k ?s1"]
        by (simp add: half_unlinked_def)
      have del: "transaction_delete_job True k ?s1 = delete_jobs (needers ?s1 k) ?s1"
        using less.hyps [OF len_h wf_trans_half_unlinked [OF wf1 k_in]]
          finish_delete [OF wf1 k_in, of "needers ?s1 k"]
        by (simp add: transaction_delete_job_def transaction_unlink_job_def
            half_unlinked_def [symmetric] needers_half_unlinked [OF wf1 k_in]
            insert_absorb [OF needers_refl])
      let ?s3 = "delete_jobs (needers ?s1 k) ?s1"
      have len3: "length (links ?s3) < length (links st)"
        using len1 le_less_trans [OF length_filter_le]
        by (auto simp: delete_jobs_def drop_links_def)
      have "(needers ?s3 p - {p}) \<union> needers ?s1 k = needers st p - {p}"
        unfolding needers_def
      proof (rule needers_round [where ?R1.0 = "needs ?s1"])
        show "(k, p) \<in> needs st" using l_in lp mat sub by (auto simp: needs_def)
        show "needs st \<subseteq> insert (k, p) (needs ?s1)"
          using needs_dependency_free_ge [of st l] lp sub by auto
        show "p \<notin> Domain (needs st)" using wf pP by (rule pending_not_subject)
      qed (simp_all add: needs_dependency_free_le needs_delete_jobs)
      with less.hyps [OF len3 wf_trans_delete_jobs [OF wf1] pP] show ?thesis
        by (simp add: free_object_links_unfold [of _ _ st] Cons Some del Let_def
            without_object_delete_jobs delete_jobs_delete_jobs wo1)
    qed
  qed
qed

lemma transaction_delete_job_eq:
  assumes "wf_trans {} st" "p \<in> tr_set st"
  shows "transaction_delete_job True p st = delete_jobs (needers st p) st"
  using free_object_links_eq [OF wf_trans_half_unlinked [OF assms]]
    finish_delete [OF assms, of "needers st p"]
  by (simp add: transaction_delete_job_def transaction_unlink_job_def half_unlinked_def [symmetric]
      needers_half_unlinked [OF assms] insert_absorb [OF needers_refl])

lemma free_object_links_False:
  "free_object_links False p st = without_object p st"
proof (induction "length (links st)" arbitrary: st rule: less_induct)
  case less
  show ?case
  proof (cases "object_list st p")
    case Nil
    then show ?thesis by (simp add: free_object_links_unfold [of _ _ st] without_object_nil)
  next
    case (Cons l ls)
    with less [OF length_links_dependency_free [OF Cons]] object_list_ConsD [OF Cons] show ?thesis
      by (simp add: free_object_links_unfold [of _ _ st] without_object_dependency_free Let_def)
  qed
qed

lemma transaction_delete_job_False_eq:
  assumes "wf_trans {} st" "p \<in> tr_set st"
  shows "transaction_delete_job False p st = delete_jobs {p} st"
  using finish_delete [OF assms, of "{}"]
    delete_jobs_empty [OF wf_trans_without_object [OF wf_trans_half_unlinked [OF assms], of p]]
  by (simp add: transaction_delete_job_def transaction_unlink_job_def half_unlinked_def [symmetric]
      free_object_links_False)

section \<open>A concrete transaction\<close>

text \<open>
  Job 11 (the anchor) requires job 12 and wants job 14; job 14 conflicts with an active unit, so it
  requires job 13, which stops that unit.
\<close>

definition ex_tr :: sys where
  "ex_tr = idle_sys
     \<lparr>heap := [11 \<mapsto> plain_job 20 JOB_START, 12 \<mapsto> plain_job 21 JOB_START, 13 \<mapsto> plain_job 22 JOB_STOP,
               14 \<mapsto> plain_job 23 JOB_START],
      next_job := 15,
      links := [\<lparr>d_subject = Some 14, d_object = 13, d_matters = True, d_conflicts = True\<rparr>,
                \<lparr>d_subject = Some 11, d_object = 14, d_matters = False, d_conflicts = False\<rparr>,
                \<lparr>d_subject = Some 11, d_object = 12, d_matters = True, d_conflicts = False\<rparr>],
      units := (\<lambda>_. plain_unit)(22 := plain_unit\<lparr>u_active_state := UNIT_ACTIVE\<rparr>),
      tr_jobs := [(20, [11]), (21, [12]), (22, [13]), (23, [14])],
      tr_anchor := Some 11\<rparr>"

lemma wf_ex_tr: "wf_trans {} ex_tr"
  by (simp add: wf_trans_def ex_tr_def idle_sys_def tr_entry_ok_def wf_links_def tr_set_def
      plain_job_def)

lemma tr_set_ex_tr: "tr_set ex_tr = {11, 12, 13, 14}"
  by (auto simp: ex_tr_def tr_set_def)

lemma needs_ex_tr: "needs ex_tr = {(14, 13), (11, 12)}"
  by (auto simp: needs_def ex_tr_def)

lemma needers_ex_tr: "needers ex_tr 13 = {13, 14}"
proof -
  have "(k, 13) \<in> (needs ex_tr)\<^sup>* \<Longrightarrow> k = 13 \<or> k = 14" for k
    by (induction rule: converse_rtrancl_induct) (auto simp: needs_ex_tr)
  then show ?thesis by (auto simp: needers_def needs_ex_tr)
qed

text \<open>
  C3.  Deleting a job with its dependencies removes exactly the jobs that need it, directly or
  through others: the jobs of the transaction that reach it over dependencies that matter leave
  their units' lists and are freed, every dependency that touches one of them is gone, and nothing
  else of the state changes.  Without the dependencies only the job itself goes.
\<close>

theorem transaction_delete_job_removes_needers:
  assumes "wf_trans {} st" "p \<in> tr_set st"
  shows "transaction_delete_job delete_dependencies p st =
    (let D = (if delete_dependencies then {k. (k, p) \<in> (needs st)\<^sup>*} else {p}) in
     st\<lparr>tr_jobs := drop_jobs D (tr_jobs st), links := drop_links D (links st),
        heap := heap st |` (- D)\<rparr>)"
  using transaction_delete_job_eq [OF assms] transaction_delete_job_False_eq [OF assms]
  by (simp add: delete_jobs_def needers_def Let_def)

theorem transaction_delete_job_removes_needers_witness:
  "wf_trans {} ex_tr \<and> 13 \<in> tr_set ex_tr \<and>
   tr_jobs (transaction_delete_job True 13 ex_tr) = [(20, [11]), (21, [12])] \<and>
   tr_jobs (transaction_delete_job False 13 ex_tr) = [(20, [11]), (21, [12]), (23, [14])]"
  using transaction_delete_job_removes_needers [OF wf_ex_tr, of 13 True]
    transaction_delete_job_removes_needers [OF wf_ex_tr, of 13 False] wf_ex_tr needers_ex_tr
  by (simp add: tr_set_ex_tr needers_def Let_def) (simp add: ex_tr_def)

end
