(* ===== verification/Transaction_Clean.thy ===== *)
theory Transaction_Clean
  imports Transaction_Delete
begin

text \<open>
  The passes of \<open>src/core/transaction.c\<close> that drop jobs from a transaction: aborting it, deleting
  all jobs of a unit, minimizing its impact, dropping redundant jobs and collecting garbage, and
  the walk that finds the jobs that matter to the anchor.

  Each of the dropping passes is one loop: scan the transaction for a job to drop, delete it, scan
  again.  The scans differ; the loop is proved once, in the locale \<open>deletion_scan\<close>.  The loop gets
  as fuel the number of jobs in the transaction, every round deletes at least one, and
  \<open>delete_while_done\<close> shows that the scan finds nothing any more when the loop stops.
\<close>

section \<open>Operations\<close>

definition job_count :: "sys \<Rightarrow> nat" where
  "job_count st = sum_list (map (length \<circ> snd) (tr_jobs st))"

fun delete_while :: "bool \<Rightarrow> (sys \<Rightarrow> jobp option) \<Rightarrow> nat \<Rightarrow> sys \<Rightarrow> sys" where
  "delete_while dd pick 0 st = st"
| "delete_while dd pick (Suc n) st =
     (case pick st of
        None \<Rightarrow> st
      | Some p \<Rightarrow> delete_while dd pick n (transaction_delete_job dd p st))"

text \<open>\<open>while ((j = hashmap_get(tr->jobs, u)))\<close>\<close>

definition pick_of_unit :: "unitp \<Rightarrow> sys \<Rightarrow> jobp option" where
  "pick_of_unit u st = (case tr_get st u of [] \<Rightarrow> None | p # _ \<Rightarrow> Some p)"

definition transaction_delete_unit :: "unitp \<Rightarrow> sys \<Rightarrow> sys" where
  "transaction_delete_unit u st = delete_while True (pick_of_unit u) (job_count st) st"

text \<open>\<open>while ((j = hashmap_first(tr->jobs)))\<close>\<close>

definition pick_first :: "sys \<Rightarrow> jobp option" where
  "pick_first st = (case concat (map snd (tr_jobs st)) of [] \<Rightarrow> None | p # _ \<Rightarrow> Some p)"

definition transaction_abort :: "sys \<Rightarrow> sys" where
  "transaction_abort st = delete_while False pick_first (job_count st) st"

text \<open>
  The walk over the dependencies that matter.  The fuel bounds the depth of the recursion, which
  is at most the number of jobs of the transaction.
\<close>

definition mark_job :: "nat \<Rightarrow> jobp \<Rightarrow> sys \<Rightarrow> sys" where
  "mark_job g p st = upd_job p (\<lambda>j. j\<lparr>j_matters_to_anchor := True, j_generation := g\<rparr>) st"

fun mark_links :: "nat \<Rightarrow> nat \<Rightarrow> job_dependency list \<Rightarrow> sys \<Rightarrow> sys" where
  "mark_links n g [] st = st"
| "mark_links n g (l # ls) st =
     (if \<not> d_matters l then mark_links n g ls st
      else if j_generation (job_at st (d_object l)) = g then mark_links n g ls st
      else mark_links n g ls
             (case n of
                0 \<Rightarrow> st
              | Suc m \<Rightarrow> mark_links m g (subject_list st (d_object l)) (mark_job g (d_object l) st)))"

definition transaction_find_jobs_that_matter_to_anchor :: "jobp \<Rightarrow> nat \<Rightarrow> sys \<Rightarrow> sys" where
  "transaction_find_jobs_that_matter_to_anchor p g st =
     mark_links (job_count st) g (subject_list st p) (mark_job g p st)"

text \<open>
  The scan of \<open>transaction_minimize_impact\<close> goes over all jobs of all units, that of
  \<open>transaction_drop_redundant\<close> over the units, and that of \<open>transaction_collect_garbage\<close> over
  the first job of every unit.
\<close>

definition has_impact :: "sys \<Rightarrow> jobp \<Rightarrow> bool" where
  "has_impact st p =
     (let j = job_at st p; u = units st (j_unit j);
          stops_running_service =
            (j_type j = JOB_STOP \<and> UNIT_IS_ACTIVE_OR_ACTIVATING (u_active_state u));
          changes_existing_job =
            (case u_job u of
               None \<Rightarrow> False
             | Some q \<Rightarrow> job_type_is_conflicting (j_type j) (j_type (job_at st q)) = Some True)
      in stops_running_service \<or> changes_existing_job)"

definition pick_impact :: "sys \<Rightarrow> jobp option" where
  "pick_impact st =
     find (\<lambda>p. \<not> j_matters_to_anchor (job_at st p) \<and> has_impact st p) (concat (map snd (tr_jobs st)))"

definition transaction_minimize_impact :: "sys \<Rightarrow> sys" where
  "transaction_minimize_impact st = delete_while True pick_impact (job_count st) st"

definition keep_job :: "sys \<Rightarrow> jobp \<Rightarrow> bool" where
  "keep_job st k =
     (let j = job_at st k; u = units st (j_unit j) in
      tr_anchor st = Some k \<or>
      job_type_is_redundant (j_type j) (u_active_state u) \<noteq> Some True \<or>
      (case u_job u of
         None \<Rightarrow> False
       | Some q \<Rightarrow> job_type_is_conflicting (j_type j) (j_type (job_at st q)) = Some True))"

definition pick_redundant :: "sys \<Rightarrow> jobp option" where
  "pick_redundant st =
     (case find (\<lambda>(u, js). \<not> list_ex (keep_job st) js) (tr_jobs st) of
        Some (u, p # _) \<Rightarrow> Some p
      | _ \<Rightarrow> None)"

definition transaction_drop_redundant :: "sys \<Rightarrow> sys" where
  "transaction_drop_redundant st = delete_while False pick_redundant (job_count st) st"

definition pick_garbage :: "sys \<Rightarrow> jobp option" where
  "pick_garbage st =
     find (\<lambda>p. tr_anchor st \<noteq> Some p \<and> object_list st p = []) (map (hd \<circ> snd) (tr_jobs st))"

definition transaction_collect_garbage :: "sys \<Rightarrow> sys" where
  "transaction_collect_garbage st = delete_while True pick_garbage (job_count st) st"

section \<open>The deletion loop\<close>

lemma wf_trans_delete_job:
  assumes "wf_trans {} st" "p \<in> tr_set st"
  shows "wf_trans {} (transaction_delete_job dd p st)"
  using assms
  by (cases dd)
    (simp_all add: transaction_delete_job_eq transaction_delete_job_False_eq wf_trans_delete_jobs)

lemma finite_tr_set: "finite (tr_set st)"
  by (auto simp: tr_set_def)

lemma card_tr_set_le: "card (tr_set st) \<le> job_count st"
proof -
  have "tr_set st = set (concat (map snd (tr_jobs st)))" by (force simp: tr_set_def)
  then have "card (tr_set st) \<le> length (concat (map snd (tr_jobs st)))"
    by (simp only: card_length)
  then show ?thesis by (simp add: job_count_def length_concat)
qed

definition deleted_by :: "bool \<Rightarrow> jobp \<Rightarrow> sys \<Rightarrow> jobp set" where
  "deleted_by dd p st = (if dd then needers st p else {p})"

lemma delete_job_deleted_by:
  "wf_trans {} st \<Longrightarrow> p \<in> tr_set st \<Longrightarrow>
    transaction_delete_job dd p st = delete_jobs (deleted_by dd p st) st"
  by (simp add: deleted_by_def transaction_delete_job_eq transaction_delete_job_False_eq)

lemma deleted_by_self: "p \<in> deleted_by dd p st"
  by (simp add: deleted_by_def needers_refl)

lemma needers_in:
  assumes "wf_trans {} st" "p \<in> tr_set st"
  shows "needers st p \<subseteq> tr_set st"
proof
  fix k assume "k \<in> needers st p"
  then have "(k, p) \<in> (needs st)\<^sup>*" by (simp add: needers_def)
  then show "k \<in> tr_set st"
    by (rule converse_rtranclE)
      (use assms wf_transD(4) [OF assms(1)] in \<open>auto simp: needs_def wf_links_def\<close>)
qed

lemma deleted_by_in:
  "wf_trans {} st \<Longrightarrow> p \<in> tr_set st \<Longrightarrow> deleted_by dd p st \<subseteq> tr_set st"
  by (simp add: deleted_by_def needers_in)

lemma needers_avoid_closed:
  assumes "needs st `` M \<subseteq> M" "p \<notin> M"
  shows "needers st p \<inter> M = {}"
  using assms Image_closed_trancl [OF assms(1)] by (auto simp: needers_def)

lemma deleted_by_avoid_closed: "needs st `` M \<subseteq> M \<Longrightarrow> p \<notin> M \<Longrightarrow> deleted_by dd p st \<inter> M = {}"
  using needers_avoid_closed by (auto simp: deleted_by_def)

locale deletion_scan =
  fixes dd :: bool and pick :: "sys \<Rightarrow> jobp option"
  assumes pick_in: "wf_trans {} st \<Longrightarrow> pick st = Some p \<Longrightarrow> p \<in> tr_set st"
begin

lemma card_decreases:
  assumes "wf_trans {} st" "pick st = Some p"
  shows "card (tr_set (transaction_delete_job dd p st)) < card (tr_set st)"
proof -
  have p: "p \<in> tr_set st" using assms by (rule pick_in)
  have "tr_set (transaction_delete_job dd p st) \<subset> tr_set st"
    using p deleted_by_self [of p dd st]
    by (auto simp: delete_job_deleted_by [OF assms(1) p] tr_set_delete_jobs)
  then show ?thesis by (simp add: finite_tr_set psubset_card_mono)
qed

lemma delete_while_done:
  assumes "wf_trans {} st" "card (tr_set st) \<le> n"
  shows "pick (delete_while dd pick n st) = None"
  using assms
proof (induction n arbitrary: st)
  case 0
  then have "tr_set st = {}" by (simp add: finite_tr_set)
  with 0 pick_in show ?case by (cases "pick st") auto
next
  case (Suc n)
  show ?case
  proof (cases "pick st")
    case (Some p)
    from Suc.prems Some have "card (tr_set (transaction_delete_job dd p st)) \<le> n"
      using card_decreases [of st p] by simp
    with Suc Some show ?thesis
      using wf_trans_delete_job [OF Suc.prems(1) pick_in] by simp
  qed simp
qed

lemma delete_while_induct:
  assumes "wf_trans {} st" "I st"
    and step: "\<And>st p. wf_trans {} st \<Longrightarrow> I st \<Longrightarrow> pick st = Some p \<Longrightarrow>
      I (delete_jobs (deleted_by dd p st) st)"
  shows "wf_trans {} (delete_while dd pick n st) \<and> I (delete_while dd pick n st)"
  using assms(1,2)
proof (induction n arbitrary: st)
  case (Suc n)
  show ?case
  proof (cases "pick st")
    case (Some p)
    have p: "p \<in> tr_set st" using Suc.prems(1) Some by (rule pick_in)
    then show ?thesis
      using Suc.IH [of "transaction_delete_job dd p st"] Suc.prems Some
        step [OF Suc.prems Some] wf_trans_delete_job [OF Suc.prems(1) p]
      by (simp add: delete_job_deleted_by [OF Suc.prems(1) p])
  qed (use Suc.prems in simp)
qed simp

lemma delete_while_deletes:
  assumes "wf_trans {} st"
  shows "\<exists>D \<subseteq> tr_set st. delete_while dd pick n st = delete_jobs D st"
proof -
  have "wf_trans {} (delete_while dd pick n st) \<and>
      (\<exists>D \<subseteq> tr_set st. delete_while dd pick n st = delete_jobs D st)"
  proof (rule delete_while_induct)
    show "\<exists>D \<subseteq> tr_set st. st = delete_jobs D st" using delete_jobs_empty [OF assms] by force
  next
    fix s p assume w: "wf_trans {} s" and D: "\<exists>D \<subseteq> tr_set st. s = delete_jobs D st"
      and p: "pick s = Some p"
    from D obtain D where "D \<subseteq> tr_set st" "s = delete_jobs D st" by auto
    with deleted_by_in [OF w pick_in [OF w p], of dd]
    show "\<exists>D \<subseteq> tr_set st. delete_jobs (deleted_by dd p s) s = delete_jobs D st"
      by (intro exI [of _ "deleted_by dd p s \<union> D"])
        (auto simp: delete_jobs_delete_jobs tr_set_delete_jobs)
  qed (fact assms)
  then show ?thesis ..
qed

text \<open>A set of jobs closed under what they need survives, if no scan ever picks one of them.\<close>

lemma delete_while_spares:
  assumes "wf_trans {} st" "needs st `` M \<subseteq> M"
    and pick: "\<And>D p. D \<inter> M = {} \<Longrightarrow> wf_trans {} (delete_jobs D st) \<Longrightarrow>
      pick (delete_jobs D st) = Some p \<Longrightarrow> p \<notin> M"
  shows "\<exists>D. delete_while dd pick n st = delete_jobs D st \<and> D \<inter> M = {}"
proof -
  have "wf_trans {} (delete_while dd pick n st) \<and>
      (\<exists>D. delete_while dd pick n st = delete_jobs D st \<and> D \<inter> M = {})"
  proof (rule delete_while_induct)
    show "\<exists>D. st = delete_jobs D st \<and> D \<inter> M = {}"
      using delete_jobs_empty [OF assms(1)] by force
  next
    fix s p assume w: "wf_trans {} s" and D: "\<exists>D. s = delete_jobs D st \<and> D \<inter> M = {}"
      and p: "pick s = Some p"
    from D obtain D where D: "s = delete_jobs D st" "D \<inter> M = {}" by auto
    have "p \<notin> M" using pick [OF D(2)] w p D(1) by simp
    then have "deleted_by dd p s \<inter> M = {}"
      using assms(2) by (intro deleted_by_avoid_closed) (auto simp: D(1) needs_delete_jobs)
    then show "\<exists>D. delete_jobs (deleted_by dd p s) s = delete_jobs D st \<and> D \<inter> M = {}"
      using D by (intro exI [of _ "deleted_by dd p s \<union> D"]) (auto simp: delete_jobs_delete_jobs)
  qed (fact assms(1))
  then show ?thesis ..
qed

end

lemma tr_set_concat: "tr_set st = set (concat (map snd (tr_jobs st)))"
  by (force simp: tr_set_def)

lemma wf_heads:
  assumes "wf_trans P st"
  shows "(hd \<circ> snd) ` set (tr_jobs st) \<subseteq> tr_set st"
proof
  fix p assume "p \<in> (hd \<circ> snd) ` set (tr_jobs st)"
  then obtain u js where e: "(u, js) \<in> set (tr_jobs st)" "p = hd js" by auto
  with wf_transD(2) [OF assms e(1)] show "p \<in> tr_set st"
    by (force simp: tr_entry_ok_def tr_set_def)
qed

interpretation of_unit: deletion_scan True "pick_of_unit u" for u
proof
  fix st p assume "wf_trans {} st" "pick_of_unit u st = Some p"
  then show "p \<in> tr_set st"
    by (force simp: pick_of_unit_def tr_get_def tr_set_def split: option.splits list.splits
        dest!: map_of_SomeD)
qed

interpretation first: deletion_scan False pick_first
proof
  fix st p assume "wf_trans {} st" "pick_first st = Some p"
  then show "p \<in> tr_set st"
    unfolding pick_first_def tr_set_concat by (metis list.case list.exhaust list.set_intros(1) option.distinct(1) option.inject)
qed

interpretation impact: deletion_scan True pick_impact
  by standard (simp only: pick_impact_def tr_set_concat, blast dest: find_SomeD)

interpretation redundant: deletion_scan False pick_redundant
proof
  fix st p assume "wf_trans {} st" "pick_redundant st = Some p"
  then show "p \<in> tr_set st"
    by (force simp: pick_redundant_def tr_set_def split: option.splits list.splits
        dest!: find_SomeD)
qed

interpretation garbage: deletion_scan True pick_garbage
proof
  fix st p assume w: "wf_trans {} st" and "pick_garbage st = Some p"
  then have "p \<in> set (map (hd \<circ> snd) (tr_jobs st))"
    unfolding pick_garbage_def by (blast dest: find_SomeD)
  then show "p \<in> tr_set st" using wf_heads [OF w] by auto
qed

section \<open>Aborting\<close>

lemma wf_tr_set_empty:
  assumes "wf_trans {} st" "tr_set st = {}"
  shows "tr_jobs st = []" and "links st = []"
proof -
  have "e \<notin> set (tr_jobs st)" for e
    using wf_transD(2) [OF assms(1), of e] assms(2)
    by (cases e) (auto simp: tr_set_def tr_entry_ok_def)
  then show "tr_jobs st = []" by (metis list.set_intros(1) neq_Nil_conv)
  have "l \<notin> set (links st)" for l
    using wf_transD(4) [OF assms(1)] assms(2) by (auto simp: wf_links_def)
  then show "links st = []" by (metis list.set_intros(1) neq_Nil_conv)
qed

lemma transaction_abort_eq:
  assumes "wf_trans {} st"
  shows "transaction_abort st =
    st\<lparr>tr_jobs := [], links := [], heap := heap st |` (- tr_set st)\<rparr>"
proof -
  let ?s = "transaction_abort st"
  obtain D where D: "D \<subseteq> tr_set st" "?s = delete_jobs D st"
    using first.delete_while_deletes [OF assms] unfolding transaction_abort_def by blast
  have "pick_first ?s = None"
    unfolding transaction_abort_def by (rule first.delete_while_done [OF assms card_tr_set_le])
  then have e: "tr_set ?s = {}" by (auto simp: pick_first_def tr_set_concat split: list.splits)
  with D have "D = tr_set st" by (auto simp: tr_set_delete_jobs)
  moreover have "wf_trans {} ?s" using assms D(2) by (simp add: wf_trans_delete_jobs)
  ultimately show ?thesis
    using wf_tr_set_empty [of ?s] e D(2) by (simp add: delete_jobs_def)
qed

text \<open>
  C4.  Aborting a transaction frees exactly its own jobs: the loop ends with an empty transaction
  and no dependency left, and every job outside it, the installed ones among them, is untouched.
\<close>

theorem transaction_abort_frees_all:
  assumes "wf_trans {} st"
  shows "transaction_abort st =
    st\<lparr>tr_jobs := [], links := [], heap := heap st |` (- tr_set st)\<rparr>"
  using assms by (rule transaction_abort_eq)

theorem transaction_abort_frees_all_witness:
  "wf_trans {} ex_tr \<and> tr_jobs (transaction_abort ex_tr) = [] \<and>
   heap (transaction_abort ex_tr) 13 = None"
  using transaction_abort_frees_all [OF wf_ex_tr] wf_ex_tr by (simp add: tr_set_ex_tr)

section \<open>The jobs that matter to the anchor\<close>

definition mark_set :: "nat \<Rightarrow> jobp set \<Rightarrow> sys \<Rightarrow> sys" where
  "mark_set g V st =
     st\<lparr>heap := (\<lambda>p. if p \<in> V
                    then map_option (\<lambda>j. j\<lparr>j_matters_to_anchor := True, j_generation := g\<rparr>) (heap st p)
                    else heap st p)\<rparr>"

lemma mark_set_views [view_simps]:
  "links (mark_set g V st) = links st"
  "tr_jobs (mark_set g V st) = tr_jobs st"
  "units (mark_set g V st) = units st"
  "subject_list (mark_set g V st) p = subject_list st p"
  by (simp_all add: mark_set_def subject_list_def)

lemma mark_job_mark_set: "mark_job g p (mark_set g V st) = mark_set g (insert p V) st"
  by (cases "heap st p") (auto simp: mark_job_def mark_set_def upd_job_def fun_eq_iff)

lemma mark_set_empty: "mark_set g {} st = st"
  by (simp add: mark_set_def)

lemma generation_mark_set:
  assumes "wf_trans {} st" "o' \<in> tr_set st" "\<forall>p \<in> tr_set st. j_generation (job_at st p) \<noteq> g"
  shows "j_generation (job_at (mark_set g V st) o') = g \<longleftrightarrow> o' \<in> V"
proof -
  obtain j where "heap st o' = Some j" using assms(1,2) by (rule tr_set_entry)
  with assms(2,3) show ?thesis by (force simp: mark_set_def)
qed

definition visited :: "sys \<Rightarrow> job_dependency list \<Rightarrow> jobp set \<Rightarrow> jobp set \<Rightarrow> bool" where
  "visited st ls V V' \<longleftrightarrow>
     V \<subseteq> V' \<and> V' \<subseteq> V \<union> tr_set st \<and>
     (\<forall>l \<in> set ls. d_matters l \<longrightarrow> d_object l \<in> V') \<and>
     (\<forall>p \<in> V' - V. needs st `` {p} \<subseteq> V') \<and>
     (\<forall>q \<in> V' - V. \<exists>l \<in> set ls. d_matters l \<and> (d_object l, q) \<in> (needs st)\<^sup>*)"

lemma visited_skip:
  "\<not> d_matters l \<or> d_object l \<in> V \<Longrightarrow> visited st ls V V' \<Longrightarrow> visited st (l # ls) V V'"
  by (auto simp: visited_def)

lemma needs_subject_list:
  "needs st `` {p} = {d_object l | l. l \<in> set (subject_list st p) \<and> d_matters l}"
  by (auto simp: needs_def subject_list_def)

lemma subject_list_links: "set (subject_list st p) \<subseteq> set (links st)"
  by (auto simp: subject_list_def)

lemma visited_step:
  assumes "visited st (subject_list st (d_object l)) (insert (d_object l) V) V1"
    and "visited st ls V1 V2" and "d_matters l" and "d_object l \<in> tr_set st"
  shows "visited st (l # ls) V V2"
proof -
  let ?o = "d_object l"
  have sub: "insert ?o V \<subseteq> V1" "V1 \<subseteq> V2" "V1 \<subseteq> insert ?o V \<union> tr_set st" "V2 \<subseteq> V1 \<union> tr_set st"
    using assms(1,2) by (simp_all add: visited_def)
  have closed1: "needs st `` {p} \<subseteq> V1" if "p \<in> V1 - V" for p
  proof (cases "p = ?o")
    case True
    then show ?thesis using assms(1) by (auto simp: needs_subject_list visited_def)
  qed (use assms(1) that in \<open>auto simp: visited_def\<close>)
  have reach1: "(?o, q) \<in> (needs st)\<^sup>*" if "q \<in> V1 - V" for q
  proof (cases "q = ?o")
    case False
    with that have "q \<in> V1 - insert ?o V" by simp
    with assms(1) obtain k where k: "k \<in> set (subject_list st ?o)" "d_matters k"
        "(d_object k, q) \<in> (needs st)\<^sup>*"
      unfolding visited_def by blast
    then have "(?o, d_object k) \<in> needs st" by (auto simp: needs_def subject_list_def)
    with k(3) show ?thesis by (rule converse_rtrancl_into_rtrancl [rotated])
  qed simp
  have "needs st `` {p} \<subseteq> V2" if "p \<in> V2 - V" for p
    using that closed1 [of p] sub(2) assms(2) by (cases "p \<in> V1") (auto simp: visited_def)
  moreover have "\<exists>k \<in> set (l # ls). d_matters k \<and> (d_object k, q) \<in> (needs st)\<^sup>*"
    if "q \<in> V2 - V" for q
    using that reach1 [of q] assms(2,3) by (cases "q \<in> V1") (auto simp: visited_def)
  moreover have "\<forall>k \<in> set (l # ls). d_matters k \<longrightarrow> d_object k \<in> V2"
    using sub assms(2) by (auto simp: visited_def)
  ultimately show ?thesis using sub assms(4) by (auto simp: visited_def)
qed

lemma mark_links_visited:
  assumes "wf_trans {} st" "\<forall>p \<in> tr_set st. j_generation (job_at st p) \<noteq> g"
    and "set ls \<subseteq> set (links st)" "card (tr_set st - V) \<le> n"
  shows "\<exists>V'. mark_links n g ls (mark_set g V st) = mark_set g V' st \<and> visited st ls V V'"
  using assms(3,4)
proof (induction n arbitrary: ls V)
  case 0
  have "d_object l \<in> V" if "l \<in> set ls" for l
    using 0 that wf_transD(4) [OF assms(1)] by (auto simp: wf_links_def finite_tr_set)
  then have "mark_links 0 g ls (mark_set g V st) = mark_set g V st"
    using 0 by (induction ls) (auto simp: mark_set_def)
  moreover have "visited st ls V V"
    using \<open>\<And>l. l \<in> set ls \<Longrightarrow> d_object l \<in> V\<close> by (auto simp: visited_def)
  ultimately show ?case by blast
next
  case (Suc n)
  show ?case
    using Suc.prems
  proof (induction ls arbitrary: V)
    case Nil
    then show ?case by (auto simp: visited_def intro!: exI [of _ V])
  next
    case (Cons l ls)
    have o: "d_object l \<in> tr_set st"
      using Cons.prems(1) wf_transD(4) [OF assms(1)] by (auto simp: wf_links_def)
    note gen = generation_mark_set [OF assms(1) o assms(2), of V]
    show ?case
    proof (cases "d_matters l \<and> d_object l \<notin> V")
      case False
      then have skip: "mark_links (Suc n) g (l # ls) (mark_set g V st) =
          mark_links (Suc n) g ls (mark_set g V st)"
        using gen by auto
      have "set ls \<subseteq> set (links st)" using Cons.prems(1) by simp
      from Cons.IH [OF this Cons.prems(2)] obtain V' where
        "mark_links (Suc n) g ls (mark_set g V st) = mark_set g V' st" "visited st ls V V'" by blast
      with False show ?thesis unfolding skip by (blast intro: visited_skip)
    next
      case True
      let ?V = "insert (d_object l) V"
      have smaller: "card (tr_set st - ?V) \<le> n"
      proof -
        have "tr_set st - ?V = (tr_set st - V) - {d_object l}" by auto
        then show ?thesis using o True Cons.prems(2) by (simp add: finite_tr_set)
      qed
      obtain V1 where V1: "mark_links n g (subject_list st (d_object l)) (mark_set g ?V st) = mark_set g V1 st"
          "visited st (subject_list st (d_object l)) ?V V1"
        using Suc.IH [OF subject_list_links smaller] by blast
      have "card (tr_set st - V1) \<le> Suc n"
      proof -
        have "tr_set st - V1 \<subseteq> tr_set st - ?V" using V1(2) by (auto simp: visited_def)
        then show ?thesis using smaller by (meson card_mono finite_Diff finite_tr_set le_SucI le_trans)
      qed
      moreover have "set ls \<subseteq> set (links st)" using Cons.prems(1) by simp
      ultimately obtain V2 where V2: "mark_links (Suc n) g ls (mark_set g V1 st) = mark_set g V2 st"
          "visited st ls V1 V2" using Cons.IH [of V1] by blast
      have "mark_links (Suc n) g (l # ls) (mark_set g V st) = mark_set g V2 st"
        using True gen V1(1) V2(1) by (simp add: mark_job_mark_set view_simps)
      with visited_step [OF V1(2) V2(2)] True o show ?thesis by blast
    qed
  qed
qed

lemma find_jobs_that_matter_eq:
  assumes "wf_trans {} st" "\<forall>p \<in> tr_set st. j_generation (job_at st p) \<noteq> g" "a \<in> tr_set st"
  shows "transaction_find_jobs_that_matter_to_anchor a g st =
    mark_set g ((needs st)\<^sup>* `` {a}) st"
proof -
  have m: "mark_job g a st = mark_set g {a} st"
    using mark_job_mark_set [of g a "{}" st] by (simp add: mark_set_empty)
  have "card (tr_set st - {a}) \<le> job_count st"
    using card_tr_set_le [of st] by (meson card_Diff1_le le_trans)
  then obtain V where V: "transaction_find_jobs_that_matter_to_anchor a g st = mark_set g V st"
      "visited st (subject_list st a) {a} V"
    using mark_links_visited [OF assms(1,2) subject_list_links, of "{a}" "job_count st" a]
    unfolding transaction_find_jobs_that_matter_to_anchor_def m by blast
  have closed: "needs st `` V \<subseteq> V"
  proof -
    have "needs st `` {p} \<subseteq> V" if "p \<in> V" for p
    proof (cases "p = a")
      case True
      then show ?thesis using V(2) by (auto simp: visited_def needs_subject_list)
    qed (use V(2) that in \<open>auto simp: visited_def\<close>)
    then show ?thesis by blast
  qed
  have "V \<subseteq> (needs st)\<^sup>* `` {a}"
  proof
    fix q assume q: "q \<in> V"
    show "q \<in> (needs st)\<^sup>* `` {a}"
    proof (cases "q = a")
      case False
      with q have "q \<in> V - {a}" by simp
      with V(2) obtain l where "l \<in> set (subject_list st a)" "d_matters l"
          "(d_object l, q) \<in> (needs st)\<^sup>*"
        unfolding visited_def by blast
      moreover from this have "(a, d_object l) \<in> needs st"
        by (auto simp: subject_list_def needs_def)
      ultimately
      show ?thesis by (auto intro: converse_rtrancl_into_rtrancl)
    qed simp
  qed
  moreover have "(needs st)\<^sup>* `` {a} \<subseteq> V"
    using V(2) closed Image_closed_trancl [OF closed] by (auto simp: visited_def)
  ultimately show ?thesis using V(1) by simp
qed

text \<open>
  C5.  The walk from the anchor marks exactly the jobs the anchor needs, directly or through
  others, over dependencies that matter; it changes nothing but their mark and generation.
\<close>

theorem find_jobs_that_matter_marks_reachable:
  assumes "wf_trans {} st" "\<forall>p \<in> tr_set st. j_generation (job_at st p) \<noteq> g" "a \<in> tr_set st"
  shows "transaction_find_jobs_that_matter_to_anchor a g st =
    st\<lparr>heap := (\<lambda>p. if (a, p) \<in> (needs st)\<^sup>*
                    then map_option (\<lambda>j. j\<lparr>j_matters_to_anchor := True, j_generation := g\<rparr>) (heap st p)
                    else heap st p)\<rparr>"
  using find_jobs_that_matter_eq [OF assms] by (simp add: mark_set_def)

lemma reach_ex_tr: "(11, p) \<in> (needs ex_tr)\<^sup>* \<longleftrightarrow> p = 11 \<or> p = 12"
proof -
  have "(11, p) \<in> (needs ex_tr)\<^sup>* \<Longrightarrow> p = 11 \<or> p = 12"
    by (induction rule: rtrancl_induct) (auto simp: needs_ex_tr)
  then show ?thesis by (auto simp: needs_ex_tr)
qed

lemma generation_ex_tr: "\<forall>p \<in> tr_set ex_tr. j_generation (job_at ex_tr p) \<noteq> 7"
  by (simp add: tr_set_ex_tr) (simp add: ex_tr_def plain_job_def)

theorem find_jobs_that_matter_marks_reachable_witness:
  "wf_trans {} ex_tr \<and> 11 \<in> tr_set ex_tr \<and>
   filter (\<lambda>p. j_matters_to_anchor (job_at (transaction_find_jobs_that_matter_to_anchor 11 7 ex_tr) p))
     [11, 12, 13, 14] = [11, 12]"
  using find_jobs_that_matter_marks_reachable [OF wf_ex_tr generation_ex_tr, of 11] wf_ex_tr
  by (simp add: tr_set_ex_tr reach_ex_tr) (simp add: ex_tr_def plain_job_def)

section \<open>Minimizing the impact\<close>

lemma heap_delete_jobs: "p \<notin> D \<Longrightarrow> heap (delete_jobs D st) p = heap st p"
  by (simp add: delete_jobs_def)

lemma tr_jobs_delete_jobs: "tr_jobs (delete_jobs D st) = drop_jobs D (tr_jobs st)"
  by (simp add: delete_jobs_def)

lemma delete_jobs_fields [simp]:
  "units (delete_jobs D st) = units st" "tr_anchor (delete_jobs D st) = tr_anchor st"
  by (simp_all add: delete_jobs_def)

lemma minimize_impact_spares:
  assumes "wf_trans {} st" "needs st `` M \<subseteq> M"
    and "\<And>p. p \<in> tr_set st \<Longrightarrow> p \<in> M \<Longrightarrow> j_matters_to_anchor (job_at st p)"
  shows "\<exists>D. transaction_minimize_impact st = delete_jobs D st \<and> D \<inter> M = {}"
  unfolding transaction_minimize_impact_def
proof (rule impact.delete_while_spares [OF assms(1,2)])
  fix D p
  assume w: "wf_trans {} (delete_jobs D st)" and p: "pick_impact (delete_jobs D st) = Some p"
  have ps: "p \<in> tr_set st" "p \<notin> D"
    using impact.pick_in [OF w p] by (auto simp: tr_set_delete_jobs)
  have "\<not> j_matters_to_anchor (job_at (delete_jobs D st) p)"
    using find_SomeD [OF p [unfolded pick_impact_def]] by simp
  then show "p \<notin> M" using assms(3) ps by (auto simp: heap_delete_jobs)
qed

lemma tr_get_delete_jobs:
  assumes "wf_trans {} st" "p \<in> set (tr_get (delete_jobs D st) u)"
  shows "p \<in> set (tr_get st u)"
proof -
  obtain js where "map_of (tr_jobs (delete_jobs D st)) u = Some js" and p: "p \<in> set js"
    using assms(2) by (cases "map_of (tr_jobs (delete_jobs D st)) u") (auto simp: tr_get_def)
  then have js: "(u, js) \<in> set (tr_jobs (delete_jobs D st))" "p \<in> set js"
    by (auto dest: map_of_SomeD)
  then obtain ks where "(u, ks) \<in> set (tr_jobs st)" "p \<in> set ks"
    by (auto simp: tr_jobs_delete_jobs set_drop_jobs)
  moreover from this have "map_of (tr_jobs st) u = Some ks"
    using wf_transD(1) [OF assms(1)] by simp
  ultimately show ?thesis by (simp add: tr_get_def)
qed

lemma delete_unit_spares:
  assumes "wf_trans {} st" "needs st `` M \<subseteq> M" "set (tr_get st u) \<inter> M = {}"
  shows "\<exists>D. transaction_delete_unit u st = delete_jobs D st \<and> D \<inter> M = {}"
  unfolding transaction_delete_unit_def
proof (rule of_unit.delete_while_spares [OF assms(1,2)])
  fix D p
  assume "pick_of_unit u (delete_jobs D st) = Some p"
  then have "p \<in> set (tr_get (delete_jobs D st) u)"
    by (auto simp: pick_of_unit_def split: list.splits)
  then show "p \<notin> M" using tr_get_delete_jobs [OF assms(1)] assms(3) by blast
qed

lemma delete_unit_empties:
  assumes "wf_trans {} st"
  shows "tr_get (transaction_delete_unit u st) u = []"
proof -
  have "pick_of_unit u (transaction_delete_unit u st) = None"
    unfolding transaction_delete_unit_def by (rule of_unit.delete_while_done [OF assms card_tr_set_le])
  then show ?thesis by (auto simp: pick_of_unit_def split: list.splits)
qed

lemma minimize_impact_done:
  assumes "wf_trans {} st" "p \<in> tr_set (transaction_minimize_impact st)"
  shows "j_matters_to_anchor (job_at (transaction_minimize_impact st) p) \<or>
    \<not> has_impact (transaction_minimize_impact st) p"
proof -
  have "pick_impact (transaction_minimize_impact st) = None"
    unfolding transaction_minimize_impact_def
    by (rule impact.delete_while_done [OF assms(1) card_tr_set_le])
  from find_NoneD [OF this [unfolded pick_impact_def]] assms(2) show ?thesis
    by (simp only: tr_set_concat) blast
qed

lemma mark_set_invariant:
  assumes "wf_trans {} st"
  shows "wf_trans {} (mark_set g V st)" "needs (mark_set g V st) = needs st"
    "tr_set (mark_set g V st) = tr_set st"
proof -
  have "tr_entry_ok (mark_set g V st) e" if "e \<in> set (tr_jobs st)" for e
    using wf_transD(2) [OF assms that] by (force simp: tr_entry_ok_def mark_set_def)
  moreover show "tr_set (mark_set g V st) = tr_set st" "needs (mark_set g V st) = needs st"
    by (simp_all add: tr_set_def needs_def view_simps)
  ultimately show "wf_trans {} (mark_set g V st)"
    using assms by (auto simp: wf_trans_def wf_links_def view_simps)
qed

text \<open>
  C6.  Minimizing the impact after the walk from the anchor never drops the anchor nor a job it
  needs, although every deletion takes the jobs that need the deleted one with it; and when it
  returns, no job is left that does not matter to the anchor and would stop a running unit or
  replace a job of its unit that is in conflict.
\<close>

theorem minimize_impact_keeps_needed:
  assumes "wf_trans {} st" "\<forall>p \<in> tr_set st. j_generation (job_at st p) \<noteq> g" "a \<in> tr_set st"
    and "s = transaction_minimize_impact (transaction_find_jobs_that_matter_to_anchor a g st)"
  shows "(\<forall>p. (a, p) \<in> (needs st)\<^sup>* \<longrightarrow> p \<in> tr_set s \<and> j_matters_to_anchor (job_at s p)) \<and>
    (\<forall>p \<in> tr_set s. j_matters_to_anchor (job_at s p) \<or> \<not> has_impact s p)"
proof -
  let ?M = "(needs st)\<^sup>* `` {a}"
  let ?m = "mark_set g ?M st"
  note inv = mark_set_invariant [OF assms(1), of g ?M]
  have s: "s = transaction_minimize_impact ?m"
    using assms find_jobs_that_matter_eq by simp
  have M: "?M \<subseteq> tr_set st"
  proof
    fix p assume "p \<in> ?M"
    then have "(a, p) \<in> (needs st)\<^sup>*" by simp
    then show "p \<in> tr_set st"
      by (rule rtranclE) (use assms(3) wf_transD(4) [OF assms(1)] in \<open>auto simp: needs_def wf_links_def\<close>)
  qed
  have marked: "j_matters_to_anchor (job_at ?m p)" if "p \<in> ?M" for p
  proof -
    have "p \<in> tr_set st" using that M by blast
    then obtain j where "heap st p = Some j" using tr_set_entry [OF assms(1)] by blast
    then show ?thesis using that by (simp add: mark_set_def)
  qed
  have "needs ?m `` ?M \<subseteq> ?M" by (auto simp: inv intro: rtrancl_into_rtrancl)
  then obtain D where D: "s = delete_jobs D ?m" "D \<inter> ?M = {}"
    using minimize_impact_spares [OF inv(1), of ?M] marked s by blast
  have "p \<in> tr_set s \<and> j_matters_to_anchor (job_at s p)" if "p \<in> ?M" for p
  proof -
    have "p \<notin> D" using that D(2) by blast
    then show ?thesis
      using that M marked [OF that] by (auto simp: D(1) tr_set_delete_jobs inv(3) heap_delete_jobs)
  qed
  moreover have "\<forall>p \<in> tr_set s. j_matters_to_anchor (job_at s p) \<or> \<not> has_impact s p"
    using minimize_impact_done [OF inv(1)] by (simp add: s)
  ultimately show ?thesis by auto
qed

theorem minimize_impact_keeps_needed_witness:
  "\<exists>s. s = transaction_minimize_impact (transaction_find_jobs_that_matter_to_anchor 11 7 ex_tr) \<and>
     11 \<in> tr_set s \<and> 12 \<in> tr_set s \<and> (13 \<notin> tr_set s \<or> \<not> has_impact s 13 \<or> j_matters_to_anchor (job_at s 13))"
  using minimize_impact_keeps_needed [OF wf_ex_tr generation_ex_tr, of 11] reach_ex_tr
  by (auto simp: tr_set_ex_tr)

section \<open>Dropping redundant jobs\<close>

text \<open>The job installed for a unit is not part of a transaction.\<close>

definition wf_units :: "sys \<Rightarrow> bool" where
  "wf_units st \<longleftrightarrow>
     (\<forall>u q. u_job (units st u) = Some q \<longrightarrow>
        (\<exists>j. heap st q = Some j \<and> j_installed j \<and> j_unit j = u \<and> j_type j \<noteq> JOB_NOP))"

lemma installed_not_in_transaction:
  assumes "wf_trans P st" "wf_units st" "u_job (units st u) = Some q"
  shows "q \<notin> tr_set st"
proof
  assume "q \<in> tr_set st"
  with assms(1) obtain j where "heap st q = Some j" "\<not> j_installed j" by (rule tr_set_entry)
  moreover obtain j' where "heap st q = Some j'" "j_installed j'"
    using assms(2,3) unfolding wf_units_def by blast
  ultimately show False by simp
qed

lemma keep_job_delete_jobs:
  assumes "wf_trans {} st" "wf_units st" "D \<subseteq> tr_set st" "k \<notin> D"
  shows "keep_job (delete_jobs D st) k = keep_job st k"
proof -
  have "q \<notin> D" if "u_job (units st u) = Some q" for u q
    using installed_not_in_transaction [OF assms(1,2) that] assms(3) by blast
  then show ?thesis
    using assms(4) by (simp add: keep_job_def heap_delete_jobs split: option.split)
qed

abbreviation kept :: "sys \<Rightarrow> unitp \<times> jobp list \<Rightarrow> bool" where
  "kept st e \<equiv> list_ex (keep_job st) (snd e)"

lemma filter_kept_drop_jobs:
  assumes "\<forall>(v, ks) \<in> set xs. ks \<noteq> [] \<and> (set ks \<inter> D = {} \<or> \<not> list_ex K ks)"
  shows "filter (\<lambda>e. list_ex K (snd e)) (drop_jobs D xs) = filter (\<lambda>e. list_ex K (snd e)) xs"
  using assms
proof (induction D xs rule: drop_jobs.induct)
  case (2 D u js xs)
  have "set js \<inter> D = {} \<Longrightarrow> filter (\<lambda>p. p \<notin> D) js = js" by (auto simp: filter_id_conv)
  moreover have "\<not> list_ex K js \<Longrightarrow> \<not> list_ex K (filter (\<lambda>p. p \<notin> D) js)"
    by (auto simp: list_ex_iff)
  moreover have "js \<noteq> []" "set js \<inter> D = {} \<or> \<not> list_ex K js" using "2.prems" by auto
  moreover have "filter (\<lambda>e. list_ex K (snd e)) (drop_jobs D xs) = filter (\<lambda>e. list_ex K (snd e)) xs"
    using 2 by (cases "filter (\<lambda>p. p \<notin> D) js = []") auto
  ultimately show ?case by (auto simp: Let_def)
qed simp

lemma pick_redundant_None:
  assumes "wf_trans {} st" "pick_redundant st = None" "e \<in> set (tr_jobs st)"
  shows "kept st e"
proof (rule ccontr)
  assume "\<not> kept st e"
  then have "find (\<lambda>(u, js). \<not> list_ex (keep_job st) js) (tr_jobs st) \<noteq> None"
    using find_NoneD [OF _ assms(3)] by (fastforce simp: case_prod_beta)
  then obtain u js where f: "find (\<lambda>(u, js). \<not> list_ex (keep_job st) js) (tr_jobs st) = Some (u, js)"
    by auto
  with wf_transD(2) [OF assms(1)] have "js \<noteq> []"
    by (force simp: tr_entry_ok_def dest!: find_SomeD)
  with f assms(2) show False by (simp add: pick_redundant_def split: list.splits)
qed

lemma pick_redundant_Some:
  assumes "wf_trans {} st" "pick_redundant st = Some p" "e \<in> set (tr_jobs st)"
  shows "set (snd e) \<inter> {p} = {} \<or> \<not> kept st e"
proof -
  obtain u js where e: "e = (u, js)" by (cases e)
  from assms(2) obtain v ks where f: "(v, p # ks) \<in> set (tr_jobs st)" "\<not> list_ex (keep_job st) (p # ks)"
    by (force simp: pick_redundant_def split: option.splits list.splits dest!: find_SomeD)
  obtain j where "heap st p = Some j" "j_unit j = v"
    using wf_transD(2) [OF assms(1) f(1)] by (auto simp: tr_entry_ok_def)
  moreover have "(u, js) = (v, p # ks)" if "u = v"
    using that assms(3) f(1) wf_transD(1) [OF assms(1)] e by (metis eq_key_imp_eq_value)
  ultimately show ?thesis
    using other_units_unaffected [OF assms(1), of p j u js] assms(3) f(2) e by (cases "u = v") auto
qed

text \<open>
  C7.  Dropping redundant jobs keeps or drops all jobs of a unit together: a unit stays, with its
  jobs as they were, exactly if one of its jobs is the anchor, would change the state of the unit,
  or is in conflict with the job installed for the unit.
\<close>

theorem drop_redundant_filters_units:
  assumes "wf_trans {} st" "wf_units st"
  shows "tr_jobs (transaction_drop_redundant st) =
    filter (\<lambda>(u, js). list_ex (keep_job st) js) (tr_jobs st)"
proof -
  let ?s = "transaction_drop_redundant st"
  let ?F = "\<lambda>s. filter (\<lambda>e. kept st e) (tr_jobs s)"
  let ?I = "\<lambda>s. (\<exists>D \<subseteq> tr_set st. s = delete_jobs D st) \<and> ?F s = ?F st"
  have K: "kept s e = kept st e" if "\<exists>D \<subseteq> tr_set st. s = delete_jobs D st" "e \<in> set (tr_jobs s)" for s e
  proof -
    from that obtain D where D: "D \<subseteq> tr_set st" "s = delete_jobs D st" by auto
    have "k \<notin> D" if "k \<in> set (snd e)" for k
      using that \<open>e \<in> set (tr_jobs s)\<close> D(2) by (cases e) (auto simp: delete_jobs_def set_drop_jobs)
    then show ?thesis
      using keep_job_delete_jobs [OF assms D(1)] D(2) by (auto simp: list_ex_iff)
  qed
  have "wf_trans {} ?s \<and> ?I ?s"
    unfolding transaction_drop_redundant_def
  proof (rule redundant.delete_while_induct)
    show "?I st" using delete_jobs_empty [OF assms(1)] by force
  next
    fix s p assume w: "wf_trans {} s" and I: "?I s" and p: "pick_redundant s = Some p"
    from I obtain D where D: "D \<subseteq> tr_set st" "s = delete_jobs D st" by auto
    have "ks \<noteq> [] \<and> (set ks \<inter> {p} = {} \<or> \<not> list_ex (keep_job st) ks)"
      if "(v, ks) \<in> set (tr_jobs s)" for v ks
      using wf_transD(2) [OF w that] pick_redundant_Some [OF w p that] K [of s, OF _ that] I
      by (auto simp: tr_entry_ok_def)
    then have "?F (delete_jobs {p} s) = ?F s"
      by (subst tr_jobs_delete_jobs) (intro filter_kept_drop_jobs, blast)
    moreover have "delete_jobs {p} s = delete_jobs (insert p D) st"
      by (simp add: D(2) delete_jobs_delete_jobs)
    moreover have "insert p D \<subseteq> tr_set st"
      using D redundant.pick_in [OF w p] by (auto simp: tr_set_delete_jobs)
    ultimately show "?I (delete_jobs (deleted_by False p s) s)"
      using I unfolding deleted_by_def by (simp only: if_False) blast
  qed (fact assms(1))
  moreover have "pick_redundant ?s = None"
    unfolding transaction_drop_redundant_def
    by (rule redundant.delete_while_done [OF assms(1) card_tr_set_le])
  ultimately have "\<forall>e \<in> set (tr_jobs ?s). kept st e" "?F ?s = ?F st"
    using pick_redundant_None [of ?s] K [of ?s] by auto
  then have "tr_jobs ?s = ?F st" by (metis (no_types, lifting) filter_True)
  then show ?thesis by (simp add: case_prod_unfold)
qed

theorem drop_redundant_filters_units_witness:
  "wf_trans {} ex_tr \<and> wf_units ex_tr \<and>
   tr_jobs (transaction_drop_redundant (ex_tr\<lparr>units := (\<lambda>_. plain_unit)(21 := plain_unit\<lparr>u_active_state := UNIT_ACTIVE\<rparr>)\<rparr>))
     = [(20, [11]), (23, [14])]"
proof -
  let ?s = "ex_tr\<lparr>units := (\<lambda>_. plain_unit)(21 := plain_unit\<lparr>u_active_state := UNIT_ACTIVE\<rparr>)\<rparr>"
  have "wf_units ex_tr" "wf_units ?s"
    by (auto simp: wf_units_def ex_tr_def plain_unit_def)
  moreover have "wf_trans {} ?s"
    using wf_ex_tr by (simp add: wf_trans_def tr_entry_ok_def wf_links_def tr_set_def)
  ultimately show ?thesis
    using drop_redundant_filters_units [of ?s] wf_ex_tr
    by (simp add: ex_tr_def keep_job_def plain_job_def plain_unit_def Let_def)
qed

section \<open>Collecting garbage\<close>

lemma collect_garbage_deletes:
  assumes "wf_trans {} st"
  shows "\<exists>D. transaction_collect_garbage st = delete_jobs D st \<and> tr_anchor st \<notin> Some ` D \<and>
    (\<forall>l \<in> set (links st). d_object l \<in> D \<longrightarrow> (\<forall>k. d_subject l = Some k \<longrightarrow> k \<in> D))"
    (is "\<exists>D. _ = _ \<and> ?P D")
proof -
  have "wf_trans {} (transaction_collect_garbage st) \<and>
      (\<exists>D. transaction_collect_garbage st = delete_jobs D st \<and> ?P D)"
    unfolding transaction_collect_garbage_def
  proof (rule garbage.delete_while_induct)
    show "\<exists>D. st = delete_jobs D st \<and> ?P D"
      using delete_jobs_empty [OF assms] by (intro exI [of _ "{}"]) simp
  next
    fix s p assume w: "wf_trans {} s" and D: "\<exists>D. s = delete_jobs D st \<and> ?P D"
      and p: "pick_garbage s = Some p"
    from D obtain D where D: "s = delete_jobs D st" "?P D" by auto
    have c: "tr_anchor s \<noteq> Some p" "object_list s p = []"
      using find_SomeD [OF p [unfolded pick_garbage_def]] by simp_all
    from c(2) have "d_object l = p \<Longrightarrow> l \<notin> set (drop_links D (links st))" for l
      by (auto simp: object_list_def filter_empty_conv D(1) delete_jobs_def)
    then have "d_object l \<in> D \<or> (\<exists>k \<in> D. d_subject l = Some k)"
      if "l \<in> set (links st)" "d_object l = p" for l
      using that by (auto simp: drop_links_def)
    then have "?P (insert p D)"
      using D(2) c(1) by (fastforce simp: D(1))
    then show "\<exists>D. delete_jobs (deleted_by True p s) s = delete_jobs D st \<and> ?P D"
      using needers_nil [OF c(2)]
      by (intro exI [of _ "insert p D"]) (simp add: deleted_by_def D(1) delete_jobs_delete_jobs)
  qed (fact assms)
  then show ?thesis ..
qed

text \<open>
  C8.  Collecting garbage never drops the anchor and never drops a job that a remaining job
  depends on; and when it returns, the first job of every unit is the anchor or is wanted by some
  other job.
\<close>

theorem collect_garbage_keeps_wanted:
  assumes "wf_trans {} st" "s = transaction_collect_garbage st"
  shows "(\<forall>a \<in> tr_set st. tr_anchor st = Some a \<longrightarrow> a \<in> tr_set s) \<and>
    (\<forall>l \<in> set (links st). \<forall>k \<in> tr_set s. d_subject l = Some k \<longrightarrow> d_object l \<in> tr_set s \<and> l \<in> set (links s)) \<and>
    (\<forall>(u, js) \<in> set (tr_jobs s). tr_anchor s = Some (hd js) \<or> object_list s (hd js) \<noteq> [])"
proof -
  obtain D where D: "s = delete_jobs D st" "tr_anchor st \<notin> Some ` D"
      "\<forall>l \<in> set (links st). d_object l \<in> D \<longrightarrow> (\<forall>k. d_subject l = Some k \<longrightarrow> k \<in> D)"
    using collect_garbage_deletes [OF assms(1)] assms(2) by blast
  have "pick_garbage s = None"
    unfolding assms(2) transaction_collect_garbage_def
    by (rule garbage.delete_while_done [OF assms(1) card_tr_set_le])
  then have n: "find (\<lambda>p. tr_anchor s \<noteq> Some p \<and> object_list s p = []) (map (hd \<circ> snd) (tr_jobs s)) = None"
    by (simp add: pick_garbage_def)
  have heads: "tr_anchor s = Some (hd js) \<or> object_list s (hd js) \<noteq> []"
    if "(u, js) \<in> set (tr_jobs s)" for u js
  proof -
    have "hd js \<in> set (map (hd \<circ> snd) (tr_jobs s))" using that by force
    from find_NoneD [OF n this] show ?thesis by blast
  qed
  moreover have "d_object l \<in> tr_set s \<and> l \<in> set (links s)"
    if "l \<in> set (links st)" "k \<in> tr_set s" "d_subject l = Some k" for l k
  proof -
    have k: "k \<notin> D" using that(2) by (simp add: D(1) tr_set_delete_jobs)
    then have "d_object l \<notin> D" using D(3) that(1,3) by blast
    moreover have "d_object l \<in> tr_set st"
      using wf_transD(4) [OF assms(1)] that(1) by (simp add: wf_links_def)
    ultimately show ?thesis
      using k that(1,3) by (simp add: D(1) tr_set_delete_jobs) (simp add: delete_jobs_def drop_links_def)
  qed
  moreover have "a \<in> tr_set s" if "a \<in> tr_set st" "tr_anchor st = Some a" for a
    using that D(2) by (auto simp: D(1) tr_set_delete_jobs)
  ultimately show ?thesis by (intro conjI ballI allI impI) auto
qed

theorem collect_garbage_keeps_wanted_witness:
  "\<exists>s. s = transaction_collect_garbage (ex_tr\<lparr>tr_anchor := Some 14\<rparr>) \<and> 14 \<in> tr_set s \<and> 13 \<in> tr_set s"
proof -
  let ?t = "ex_tr\<lparr>tr_anchor := Some 14\<rparr>"
  have w: "wf_trans {} ?t"
    using wf_ex_tr by (simp add: wf_trans_def tr_entry_ok_def wf_links_def tr_set_def)
  have "14 \<in> tr_set ?t" using tr_set_ex_tr by (simp add: tr_set_def)
  moreover have "\<lparr>d_subject = Some 14, d_object = 13, d_matters = True, d_conflicts = True\<rparr> \<in> set (links ?t)"
    by (simp add: ex_tr_def)
  ultimately show ?thesis
    using collect_garbage_keeps_wanted [OF w refl] by fastforce
qed

end
