(* ===== verification/Transaction_Merge.thy ===== *)
theory Transaction_Merge
  imports Transaction_Clean
begin

text \<open>
  Merging the jobs a transaction holds for one unit (\<open>src/core/transaction.c\<close>,
  \<open>transaction_merge_and_delete_job\<close>, \<open>job_is_conflicted_by\<close>, \<open>delete_one_unmergeable_job\<close>,
  \<open>transaction_merge_jobs\<close>).

  The two asserts of \<open>transaction_merge_and_delete_job\<close> on its arguments are part of the invariant
  \<open>wf_trans\<close>.  The assert of \<open>job_type_lookup_merge\<close> is not: it can be reached, and is the value
  \<open>None\<close> here.  The splice of the two dependency lists is a relabelling of the global list of
  dependencies; the order of a merged job's list is read by no later pass.
\<close>

section \<open>Operations\<close>

definition relabel :: "jobp set \<Rightarrow> jobp \<Rightarrow> job_dependency \<Rightarrow> job_dependency" where
  "relabel J s l =
     l\<lparr>d_subject := map_option (\<lambda>p. if p \<in> J then s else p) (d_subject l),
       d_object := (if d_object l \<in> J then s else d_object l)\<rparr>"

definition transaction_merge_and_delete_job :: "jobp \<Rightarrow> jobp \<Rightarrow> job_type \<Rightarrow> sys \<Rightarrow> sys" where
  "transaction_merge_and_delete_job p other t st =
     (let k = job_at st other;
          st = upd_job p (\<lambda>j. j\<lparr>j_type := t, j_state := JOB_WAITING,
                 j_irreversible := j_irreversible j \<or> j_irreversible k,
                 j_matters_to_anchor := j_matters_to_anchor j \<or> j_matters_to_anchor k\<rparr>) st;
          st = st\<lparr>links := map (relabel {other} p) (links st)\<rparr>
      in transaction_delete_job True other st)"

definition job_is_conflicted_by :: "sys \<Rightarrow> jobp \<Rightarrow> bool" where
  "job_is_conflicted_by st p = list_ex d_conflicts (object_list st p)"

text \<open>The first job of the second list that does not merge with \<open>p\<close>.\<close>

fun first_unmergeable :: "sys \<Rightarrow> jobp \<Rightarrow> jobp list \<Rightarrow> jobp option option" where
  "first_unmergeable st p [] = Some None"
| "first_unmergeable st p (k # ks) =
     (case job_type_is_mergeable (j_type (job_at st p)) (j_type (job_at st k)) of
        None \<Rightarrow> None
      | Some True \<Rightarrow> first_unmergeable st p ks
      | Some False \<Rightarrow> Some (Some k))"

fun unmergeable_pair :: "sys \<Rightarrow> jobp list \<Rightarrow> (jobp \<times> jobp) option option" where
  "unmergeable_pair st [] = Some None"
| "unmergeable_pair st (p # ps) =
     (case first_unmergeable st p ps of
        None \<Rightarrow> None
      | Some None \<Rightarrow> unmergeable_pair st ps
      | Some (Some k) \<Rightarrow> Some (Some (p, k)))"

text \<open>Which of two jobs in conflict goes; \<open>None\<close> if both matter.\<close>

definition job_to_delete :: "sys \<Rightarrow> jobp \<Rightarrow> jobp \<Rightarrow> jobp option" where
  "job_to_delete st p q =
     (let j = job_at st p; k = job_at st q in
      if \<not> j_matters_to_anchor j \<and> \<not> j_matters_to_anchor k then
        (if j_type j = JOB_STOP then Some (if job_is_conflicted_by st p then q else p)
         else if j_type k = JOB_STOP then Some (if job_is_conflicted_by st q then p else q)
         else Some p)
      else if \<not> j_matters_to_anchor j then Some p
      else if \<not> j_matters_to_anchor k then Some q
      else None)"

definition delete_one_unmergeable_job :: "jobp list \<Rightarrow> sys \<Rightarrow> ((err + unit) \<times> sys) option" where
  "delete_one_unmergeable_job js st =
     (case unmergeable_pair st js of
        None \<Rightarrow> None
      | Some None \<Rightarrow> Some (Inl EINVAL, st)
      | Some (Some (p, k)) \<Rightarrow>
          (case job_to_delete st p k of
             None \<Rightarrow> Some (Inl ENOEXEC, st)
           | Some d \<Rightarrow> Some (Inr (), transaction_delete_job True d st)))"

text \<open>The types of the jobs of one unit merged from left to right, in the unit's state.\<close>

fun merge_types :: "unit_active_state \<Rightarrow> job_type \<Rightarrow> job_type list \<Rightarrow> (err + job_type) option" where
  "merge_types s t [] = Some (Inr t)"
| "merge_types s t (k # ks) =
     (case job_type_merge_and_collapse t k s of
        None \<Rightarrow> None
      | Some (Inl e) \<Rightarrow> Some (Inl e)
      | Some (Inr t') \<Rightarrow> merge_types s t' ks)"

definition unit_merge :: "sys \<Rightarrow> jobp list \<Rightarrow> (err + job_type) option" where
  "unit_merge st js =
     merge_types (u_active_state (unit_of st (hd js))) (j_type (job_at st (hd js)))
       (map (\<lambda>k. j_type (job_at st k)) (tl js))"

text \<open>The first step: the jobs of the first unit whose types do not merge.\<close>

fun first_conflict :: "sys \<Rightarrow> (unitp \<times> jobp list) list \<Rightarrow> jobp list option option" where
  "first_conflict st [] = Some None"
| "first_conflict st ((u, js) # es) =
     (case unit_merge st js of
        None \<Rightarrow> None
      | Some (Inl e) \<Rightarrow> Some (Some js)
      | Some (Inr t) \<Rightarrow> first_conflict st es)"

text \<open>The loop \<open>while ((k = j->transaction_next))\<close> of the second step.\<close>

fun merge_rest :: "job_type \<Rightarrow> jobp \<Rightarrow> jobp list \<Rightarrow> sys \<Rightarrow> sys" where
  "merge_rest t j [] st = st"
| "merge_rest t j (k # ks) st =
     (if tr_anchor st = Some k
      then merge_rest t k ks (transaction_merge_and_delete_job k j t st)
      else merge_rest t j ks (transaction_merge_and_delete_job j k t st))"

fun merge_units :: "unitp list \<Rightarrow> sys \<Rightarrow> sys option" where
  "merge_units [] st = Some st"
| "merge_units (u # us) st =
     (let js = tr_get st u in
      case unit_merge st js of
        Some (Inr t) \<Rightarrow> merge_units us (merge_rest t (hd js) (tl js) st)
      | _ \<Rightarrow> None)"

definition transaction_merge_jobs :: "sys \<Rightarrow> ((err + unit) \<times> sys) option" where
  "transaction_merge_jobs st =
     (case first_conflict st (tr_jobs st) of
        None \<Rightarrow> None
      | Some (Some js) \<Rightarrow>
          (case delete_one_unmergeable_job js st of
             None \<Rightarrow> None
           | Some (Inr _, st') \<Rightarrow> Some (Inl EAGAIN, st')
           | Some (Inl _, st') \<Rightarrow> Some (Inl EDEADLK, st'))
      | Some None \<Rightarrow>
          (case merge_units (map fst (tr_jobs st)) st of
             None \<Rightarrow> None
           | Some st' \<Rightarrow> Some (Inr (), st')))"

section \<open>Relabelling\<close>

lemma relabel_relabel:
  "j' \<in> {j, k} \<Longrightarrow> relabel (insert j' K) s (relabel {j, k} j' l) = relabel (insert j (insert k K)) s l"
  by (cases "d_subject l") (auto simp: relabel_def)

lemma relabel_self: "relabel {k} j = relabel {j, k} j"
proof
  fix l
  show "relabel {k} j l = relabel {j, k} j l"
    by (cases "d_subject l") (auto simp: relabel_def)
qed

lemma relabel_singleton: "map (relabel {s} s) ls = ls"
proof (rule map_idI)
  show "relabel {s} s l = l" for l
    by (cases "d_subject l") (auto simp: relabel_def)
qed

lemma relabel_not_mentioned:
  "k \<noteq> j \<Longrightarrow> d_object (relabel {k} j l) \<noteq> k \<and> d_subject (relabel {k} j l) \<noteq> Some k"
  by (cases "d_subject l") (auto simp: relabel_def)

section \<open>One merge\<close>

definition absorb :: "job_type \<Rightarrow> job \<Rightarrow> job \<Rightarrow> job" where
  "absorb t k j = j\<lparr>j_type := t, j_state := JOB_WAITING,
     j_irreversible := j_irreversible j \<or> j_irreversible k,
     j_matters_to_anchor := j_matters_to_anchor j \<or> j_matters_to_anchor k\<rparr>"

lemma same_unit:
  assumes "wf_trans {} st" "(u, js) \<in> set (tr_jobs st)" "p \<in> set js"
  obtains j where "heap st p = Some j" "j_unit j = u" "p \<in> tr_set st"
  using wf_transD(2) [OF assms(1,2)] assms(2,3) by (force simp: tr_entry_ok_def tr_set_def)

lemma merge_and_delete_job_eq:
  assumes "wf_trans {} st" "p \<in> tr_set st" "k \<in> tr_set st" "p \<noteq> k"
  shows "transaction_merge_and_delete_job p k t st =
      st\<lparr>heap := (heap st)(k := None, p \<mapsto> absorb t (job_at st k) (job_at st p)),
         links := map (relabel {p, k} p) (links st), tr_jobs := drop_jobs {k} (tr_jobs st)\<rparr>"
    and "wf_trans {} (transaction_merge_and_delete_job p k t st)"
proof -
  let ?s = "st\<lparr>heap := (heap st)(p \<mapsto> absorb t (job_at st k) (job_at st p)),
               links := map (relabel {p, k} p) (links st)\<rparr>"
  obtain j where j: "heap st p = Some j" using assms(1,2) by (rule tr_set_entry)
  have m: "transaction_merge_and_delete_job p k t st = transaction_delete_job True k ?s"
    using j by (simp add: transaction_merge_and_delete_job_def Let_def upd_job_def absorb_def
        relabel_self [of k p])
  have ts: "tr_set ?s = tr_set st" by (simp add: tr_set_def)
  have wl: "wf_links {} ?s"
    using wf_transD(4) [OF assms(1)] assms(2) unfolding wf_links_def ts by (auto simp: relabel_def)
  have "tr_entry_ok ?s e" if "e \<in> set (tr_jobs st)" for e
    using wf_transD(2) [OF assms(1) that] j by (fastforce simp: tr_entry_ok_def absorb_def)
  with assms(1) wl have w: "wf_trans {} ?s" by (simp add: wf_trans_def ts)
  have "object_list ?s k = []"
    using relabel_not_mentioned [OF assms(4) [symmetric]]
    by (auto simp: object_list_def filter_empty_conv relabel_self [of k p, symmetric])
  then have "transaction_delete_job True k ?s = delete_jobs {k} ?s"
    using transaction_delete_job_eq [OF w] assms(3) by (simp add: ts needers_nil)
  moreover have "drop_links {k} (links ?s) = links ?s"
    using relabel_not_mentioned [OF assms(4) [symmetric]]
    by (auto simp: drop_links_def filter_id_conv relabel_self [of k p, symmetric])
  moreover have "(heap ?s) |` (- {k}) = (heap st)(k := None, p \<mapsto> absorb t (job_at st k) (job_at st p))"
    using assms(4) by (auto simp: restrict_map_def fun_eq_iff)
  ultimately show "transaction_merge_and_delete_job p k t st =
      st\<lparr>heap := (heap st)(k := None, p \<mapsto> absorb t (job_at st k) (job_at st p)),
         links := map (relabel {p, k} p) (links st), tr_jobs := drop_jobs {k} (tr_jobs st)\<rparr>"
    by (simp add: m delete_jobs_def)
  show "wf_trans {} (transaction_merge_and_delete_job p k t st)"
    using w m \<open>transaction_delete_job True k ?s = delete_jobs {k} ?s\<close> by (simp add: wf_trans_delete_jobs)
qed

section \<open>Merging the jobs of one unit\<close>

text \<open>The job that survives: the anchor if it is among them, else the first.\<close>

definition survivor :: "jobp option \<Rightarrow> jobp list \<Rightarrow> jobp" where
  "survivor a js = (case a of None \<Rightarrow> hd js | Some p \<Rightarrow> if p \<in> set js then p else hd js)"

definition merged :: "job_type \<Rightarrow> jobp \<Rightarrow> jobp set \<Rightarrow> sys \<Rightarrow> sys \<Rightarrow> bool" where
  "merged t s J st st' \<longleftrightarrow>
     wf_trans {} st' \<and> units st' = units st \<and> tr_anchor st' = tr_anchor st \<and> others st' = others st \<and>
     tr_jobs st' = drop_jobs (J - {s}) (tr_jobs st) \<and> links st' = map (relabel J s) (links st) \<and>
     (\<forall>p. p \<notin> J \<longrightarrow> heap st' p = heap st p) \<and> (\<forall>p \<in> J - {s}. heap st' p = None) \<and>
     (\<exists>j. heap st' s = Some j \<and> j_type j = t \<and> j_unit j = j_unit (job_at st s) \<and>
        (j_state (job_at st s) = JOB_WAITING \<longrightarrow> j_state j = JOB_WAITING) \<and> j_id j = j_id (job_at st s) \<and>
        j_matters_to_anchor j = (\<exists>k \<in> J. j_matters_to_anchor (job_at st k)) \<and>
        j_irreversible j = (\<exists>k \<in> J. j_irreversible (job_at st k)))"

lemma survivor_in: "js \<noteq> [] \<Longrightarrow> survivor a js \<in> set js"
  by (auto simp: survivor_def split: option.split)

lemma merged_single:
  assumes "wf_trans {} st" "heap st s = Some j" "j_type j = t"
  shows "merged t s {s} st st"
proof -
  have "drop_jobs {} (tr_jobs st) = tr_jobs st"
    using tr_jobs_delete_jobs [of "{}" st] delete_jobs_empty [OF assms(1)] by simp
  with assms show ?thesis by (simp add: merged_def relabel_singleton)
qed

lemma merged_pair:
  assumes "wf_trans {} st" "p \<in> tr_set st" "k \<in> tr_set st" "p \<noteq> k"
  shows "merged t p {p, k} st (transaction_merge_and_delete_job p k t st)"
proof -
  obtain j where "heap st p = Some j" using assms(1,2) by (rule tr_set_entry)
  moreover have "{p, k} - {p} = {k}" using assms(4) by auto
  ultimately show ?thesis
    using merge_and_delete_job_eq [OF assms, of t] assms(4) by (auto simp: merged_def absorb_def others_def)
qed

lemma mergedD:
  assumes "merged t s J st st'"
  shows "wf_trans {} st'" "units st' = units st" "tr_anchor st' = tr_anchor st"
    "tr_jobs st' = drop_jobs (J - {s}) (tr_jobs st)" "links st' = map (relabel J s) (links st)"
    "p \<notin> J \<Longrightarrow> heap st' p = heap st p" "heap st' s \<noteq> None" "j_type (job_at st' s) = t"
    "j_unit (job_at st' s) = j_unit (job_at st s)"
    "j_matters_to_anchor (job_at st' s) = (\<exists>k \<in> J. j_matters_to_anchor (job_at st k))"
    "j_irreversible (job_at st' s) = (\<exists>k \<in> J. j_irreversible (job_at st k))"
    "others st' = others st" "j_state (job_at st s) = JOB_WAITING \<Longrightarrow> j_state (job_at st' s) = JOB_WAITING"
    "j_id (job_at st' s) = j_id (job_at st s)" "p \<in> J \<Longrightarrow> p \<noteq> s \<Longrightarrow> heap st' p = None"
  using assms by (auto simp: merged_def)

lemma merged_trans:
  assumes "merged t j' {j, k} st st1" "merged t s (insert j' K) st1 st2"
    and "j' \<in> {j, k}" "{j, k} \<inter> K = {}" "s \<in> insert j' K"
  shows "merged t s (insert j (insert k K)) st st2"
proof -
  note a = mergedD [OF assms(1)] and b = mergedD [OF assms(2)]
  have eq: "heap st1 p = heap st p" if "p \<in> K" for p using a(6) that assms(4) by blast
  have D: "(insert j' K - {s}) \<union> ({j, k} - {j'}) = insert j (insert k K) - {s}"
    using assms(3,4,5) by auto
  have tr: "tr_jobs st2 = drop_jobs (insert j (insert k K) - {s}) (tr_jobs st)"
    by (simp only: a(4) b(4) drop_jobs_drop_jobs D)
  have li: "links st2 = map (relabel (insert j (insert k K)) s) (links st)"
    by (simp add: a(5) b(5) relabel_relabel [OF assms(3)])
  have he: "heap st2 p = heap st p" if "p \<notin> insert j (insert k K)" for p
  proof -
    have "p \<notin> insert j' K" "p \<notin> {j, k}" using that assms(3) by auto
    then show ?thesis using a(6) b(6) by simp
  qed
  have un: "j_unit (job_at st1 s) = j_unit (job_at st s)"
    using assms(5) eq a(9) by (cases "s = j'") simp_all
  have ma: "(\<exists>q \<in> insert j' K. j_matters_to_anchor (job_at st1 q)) \<longleftrightarrow>
      (\<exists>q \<in> insert j (insert k K). j_matters_to_anchor (job_at st q))"
    using eq by (simp add: a(10) disj_assoc)
  have ir: "(\<exists>q \<in> insert j' K. j_irreversible (job_at st1 q)) \<longleftrightarrow>
      (\<exists>q \<in> insert j (insert k K). j_irreversible (job_at st q))"
    using eq by (simp add: a(11) disj_assoc)
  have wa: "j_state (job_at st2 s) = JOB_WAITING" if "j_state (job_at st s) = JOB_WAITING"
    using assms(5) eq a(13) b(13) that by (cases "s = j'") simp_all
  have id: "j_id (job_at st2 s) = j_id (job_at st s)"
    using assms(5) eq a(14) b(14) by (cases "s = j'") simp_all
  have gone: "heap st2 p = None" if "p \<in> insert j (insert k K) - {s}" for p
  proof (cases "p \<in> insert j' K")
    case True
    then show ?thesis using b(15) [of p] that by simp
  next
    case False
    then show ?thesis using a(15) [of p] b(6) [of p] that assms(3) by auto
  qed
  obtain x where x: "heap st2 s = Some x" using b(7) by blast
  show ?thesis
    unfolding merged_def
    using b(1,2,3,8,9,10,11,12) a(2,3,12) tr li he gone un ma ir wa id x by (intro conjI exI [of _ x]) simp_all
qed

lemma merge_rest_merged:
  assumes "wf_trans {} st" "(u, js) \<in> set (tr_jobs st)" "set (j # ks) \<subseteq> set js" "distinct (j # ks)"
    and "ks = [] \<Longrightarrow> j_type (job_at st j) = t"
  shows "merged t (survivor (tr_anchor st) (j # ks)) (set (j # ks)) st (merge_rest t j ks st)"
  using assms
proof (induction ks arbitrary: j st js)
  case Nil
  obtain x where "heap st j = Some x" using Nil.prems same_unit [of st u js j] by auto
  with Nil merged_single [of st j x t] show ?case
    by (auto simp: survivor_def split: option.split)
next
  case (Cons k ks)
  define j' r where "j' = (if tr_anchor st = Some k then k else j)"
    and "r = (if tr_anchor st = Some k then j else k)"
  let ?st1 = "transaction_merge_and_delete_job j' r t st"
  have in_tr: "p \<in> tr_set st" if "p \<in> set js" for p
    using that Cons.prems(2) by (force simp: tr_set_def)
  have jr: "{j', r} = {j, k}" "j' \<noteq> r" "j' \<in> tr_set st" "r \<in> tr_set st"
    using Cons.prems(3,4) in_tr by (auto simp: j'_def r_def)
  have m: "merged t j' {j, k} st ?st1"
    using merged_pair [OF Cons.prems(1) jr(3,4,2), of t] jr(1) by simp
  have e: "(u, filter (\<lambda>p. p \<notin> {r}) js) \<in> set (tr_jobs ?st1)"
  proof -
    have "j' \<in> set (filter (\<lambda>p. p \<notin> {r}) js)"
      using jr(2) Cons.prems(3) by (auto simp: j'_def)
    then have "filter (\<lambda>p. p \<notin> {r}) js \<noteq> []" by (metis list.distinct(1) list.set_cases)
    then show ?thesis
      using Cons.prems(2) merge_and_delete_job_eq(1) [OF Cons.prems(1) jr(3,4,2), of t]
      by (auto simp: set_drop_jobs)
  qed
  have sub: "set (j' # ks) \<subseteq> set (filter (\<lambda>p. p \<notin> {r}) js)" "distinct (j' # ks)"
    using Cons.prems(3,4) by (auto simp: j'_def r_def)
  have anchor: "tr_anchor ?st1 = tr_anchor st" "j_type (job_at ?st1 j') = t"
    using m by (auto simp: merged_def)
  have ih: "merged t (survivor (tr_anchor st) (j' # ks)) (insert j' (set ks)) ?st1 (merge_rest t j' ks ?st1)"
    using Cons.IH [OF _ e sub] m anchor by (simp add: merged_def)
  have sv: "survivor (tr_anchor st) (j' # ks) = survivor (tr_anchor st) (j # k # ks)"
    by (auto simp: survivor_def j'_def split: option.split)
  have "survivor (tr_anchor st) (j' # ks) \<in> insert j' (set ks)" using survivor_in [of "j' # ks"] by simp
  moreover have "j' \<in> {j, k}" using jr(1) by blast
  moreover have "{j, k} \<inter> set ks = {}" using Cons.prems(4) by auto
  ultimately have "merged t (survivor (tr_anchor st) (j # k # ks)) (set (j # k # ks)) st (merge_rest t j' ks ?st1)"
    using merged_trans [OF m ih] sv by simp
  then show ?case
    by (cases "tr_anchor st = Some k") (simp_all add: j'_def r_def)
qed

section \<open>Merging the jobs of all units\<close>

text \<open>What a successful merge makes of every unit's jobs.\<close>

definition merged_entry :: "sys \<Rightarrow> sys \<Rightarrow> unitp \<times> jobp list \<Rightarrow> bool" where
  "merged_entry st st' e \<longleftrightarrow>
     (\<exists>t j. unit_merge st (snd e) = Some (Inr t) \<and>
        heap st' (survivor (tr_anchor st) (snd e)) = Some j \<and> j_type j = t \<and> j_unit j = fst e \<and>
        (\<forall>p \<in> set (snd e) - {survivor (tr_anchor st) (snd e)}. heap st' p = None) \<and>
        (j_state (job_at st (survivor (tr_anchor st) (snd e))) = JOB_WAITING \<longrightarrow> j_state j = JOB_WAITING) \<and>
        j_id j = j_id (job_at st (survivor (tr_anchor st) (snd e))) \<and>
        j_matters_to_anchor j = (\<exists>k \<in> set (snd e). j_matters_to_anchor (job_at st k)) \<and>
        j_irreversible j = (\<exists>k \<in> set (snd e). j_irreversible (job_at st k)))"

lemma unit_merge_cong:
  assumes "js \<noteq> []" "\<And>p. p \<in> set js \<Longrightarrow> heap st' p = heap st p" "units st' = units st"
  shows "unit_merge st' js = unit_merge st js"
proof (cases js)
  case (Cons p ps)
  then have "map (\<lambda>k. j_type (job_at st' k)) ps = map (\<lambda>k. j_type (job_at st k)) ps"
    using assms(2) by (intro map_cong) auto
  with Cons assms(2,3) show ?thesis by (simp add: unit_merge_def del: map_eq_conv)
qed (use assms(1) in simp)

lemma filter_one: "distinct xs \<Longrightarrow> x \<in> set xs \<Longrightarrow> filter (\<lambda>y. y = x) xs = [x]"
  by (induction xs) (auto simp: filter_empty_conv)

lemma drop_jobs_append: "drop_jobs D (xs @ ys) = drop_jobs D xs @ drop_jobs D ys"
  by (induction D xs rule: drop_jobs.induct) (simp_all add: Let_def)

lemma wf_entries_disjoint:
  assumes "wf_trans {} st" "(u, js) \<in> set (tr_jobs st)" "(v, ks) \<in> set (tr_jobs st)" "u \<noteq> v"
  shows "set js \<inter> set ks = {}"
proof -
  have "p \<notin> set ks" if p: "p \<in> set js" for p
  proof
    assume "p \<in> set ks"
    then obtain j where "heap st p = Some j" "j_unit j = v" using same_unit [OF assms(1,3)] by blast
    moreover obtain j' where "heap st p = Some j'" "j_unit j' = u"
      using same_unit [OF assms(1,2) p] by blast
    ultimately show False using assms(4) by simp
  qed
  then show ?thesis by blast
qed

lemma drop_jobs_one_unit:
  assumes "wf_trans {} st" "tr_jobs st = pre @ (u, js) # suf" "s \<in> set js"
  shows "drop_jobs (set js - {s}) (tr_jobs st) = pre @ (u, [s]) # suf"
proof -
  have w: "tr_entry_ok st (u, js)" using wf_transD(2) [OF assms(1)] assms(2) by simp
  then have "filter (\<lambda>p. p \<notin> set js - {s}) js = filter (\<lambda>p. p = s) js" by (auto intro: filter_cong)
  also have "\<dots> = [s]" using w assms(3) filter_one [of js s] by (simp add: tr_entry_ok_def)
  finally have one: "filter (\<lambda>p. p \<notin> set js - {s}) js = [s]" .
  have "ks \<noteq> [] \<and> set ks \<inter> (set js - {s}) = {}" if "(v, ks) \<in> set pre \<union> set suf" for v ks
  proof -
    have e: "(v, ks) \<in> set (tr_jobs st)" "(u, js) \<in> set (tr_jobs st)" using that assms(2) by auto
    have "v \<noteq> u" using that wf_transD(1) [OF assms(1)] assms(2) by force
    with wf_entries_disjoint [OF assms(1) e] wf_transD(2) [OF assms(1) e(1)] show ?thesis
      by (auto simp: tr_entry_ok_def)
  qed
  then have "drop_jobs (set js - {s}) pre = pre" "drop_jobs (set js - {s}) suf = suf"
    by (intro drop_jobs_id; auto)+
  with one show ?thesis by (simp add: assms(2) drop_jobs_append Let_def)
qed

fun representative :: "jobp option \<Rightarrow> (unitp \<times> jobp list) list \<Rightarrow> jobp \<Rightarrow> jobp" where
  "representative a [] p = p"
| "representative a (e # es) p =
     (if p \<in> set (snd e) then survivor a (snd e) else representative a es p)"

definition redirect :: "(jobp \<Rightarrow> jobp) \<Rightarrow> job_dependency \<Rightarrow> job_dependency" where
  "redirect f l = l\<lparr>d_subject := map_option f (d_subject l), d_object := f (d_object l)\<rparr>"

lemma representative_id:
  "(\<And>e. e \<in> set es \<Longrightarrow> p \<notin> set (snd e)) \<Longrightarrow> representative a es p = p"
  by (induction es) auto

lemma redirect_relabel:
  assumes "s = survivor a js" "\<And>p e. p \<in> set js \<Longrightarrow> e \<in> set es \<Longrightarrow> p \<notin> set (snd e)" "js \<noteq> []"
  shows "redirect (representative a es) (relabel (set js) s l) =
    redirect (representative a ((u, js) # es)) l"
proof -
  have "representative a es s = s"
    using assms survivor_in [of js a] by (intro representative_id) blast
  then show ?thesis
    using assms(1) by (cases "d_subject l") (auto simp: redirect_def relabel_def)
qed

definition merged_units :: "(unitp \<times> jobp list) list \<Rightarrow> (unitp \<times> jobp list) list \<Rightarrow> sys \<Rightarrow> sys \<Rightarrow> bool" where
  "merged_units pre suf st st' \<longleftrightarrow>
     wf_trans {} st' \<and> units st' = units st \<and> tr_anchor st' = tr_anchor st \<and> others st' = others st \<and>
     tr_jobs st' = pre @ map (\<lambda>(u, js). (u, [survivor (tr_anchor st) js])) suf \<and>
     links st' = map (redirect (representative (tr_anchor st) suf)) (links st) \<and>
     (\<forall>e \<in> set suf. merged_entry st st' e) \<and>
     (\<forall>p. (\<forall>e \<in> set suf. p \<notin> set (snd e)) \<longrightarrow> heap st' p = heap st p)"

lemma redirect_nil: "map (redirect (representative a [])) ls = ls"
proof (rule map_idI)
  show "redirect (representative a []) l = l" for l
    by (cases "d_subject l") (simp_all add: redirect_def)
qed

lemma merged_units_Nil: "wf_trans {} st \<Longrightarrow> tr_jobs st = pre \<Longrightarrow> merged_units pre [] st st"
  by (simp add: merged_units_def redirect_nil)

lemma merged_units_Cons:
  assumes w: "wf_trans {} st" and tr: "tr_jobs st = pre @ (u, js) # suf"
    and t: "unit_merge st js = Some (Inr t)"
    and m: "merged t s (set js) st st1" and s: "s = survivor (tr_anchor st) js"
    and r: "merged_units (pre @ [(u, [s])]) suf st1 st2"
  shows "merged_units pre ((u, js) # suf) st st2"
proof -
  note a = m [unfolded merged_def] and b = r [unfolded merged_units_def]
  have e: "(u, js) \<in> set (tr_jobs st)" using tr by simp
  have ne: "js \<noteq> []" using wf_transD(2) [OF w e] by (simp add: tr_entry_ok_def)
  have disj: "p \<notin> set (snd x)" if "p \<in> set js" "x \<in> set suf" for p x
  proof -
    obtain v ks where x: "x = (v, ks)" by (cases x)
    have "v \<noteq> u" using that(2) wf_transD(1) [OF w] tr x by force
    then show ?thesis using wf_entries_disjoint [OF w e, of v ks] that tr x by auto
  qed
  have sj: "s \<in> set js" using ne s by (simp add: survivor_in)
  have same: "heap st1 p = heap st p" if "x \<in> set suf" "p \<in> set (snd x)" for p x
    using a disj that by blast
  have "merged_entry st st2 x" if x: "x \<in> set suf" for x
  proof -
    have "snd x \<noteq> []" using wf_transD(2) [OF w, of x] tr x by (simp add: tr_entry_ok_def)
    then have "unit_merge st1 (snd x) = unit_merge st (snd x)"
      using a same [OF x] by (intro unit_merge_cong) auto
    moreover have "merged_entry st1 st2 x" "tr_anchor st1 = tr_anchor st" using a b x by auto
    moreover have "survivor (tr_anchor st) (snd x) \<in> set (snd x)" using survivor_in [OF \<open>snd x \<noteq> []\<close>] .
    ultimately show ?thesis using same [OF x] by (simp add: merged_entry_def)
  qed
  moreover have "merged_entry st st2 (u, js)"
  proof -
    have "heap st2 p = heap st1 p" if "p \<in> set js" for p using b disj [OF that] by blast
    then have "heap st2 s = heap st1 s" "\<forall>p \<in> set js - {s}. heap st2 p = None" using a sj by simp_all
    moreover obtain j where "heap st s = Some j" "j_unit j = u" using same_unit [OF w e sj] by blast
    ultimately show ?thesis using a t s by (auto simp: merged_entry_def)
  qed
  moreover have "links st2 = map (redirect (representative (tr_anchor st) ((u, js) # suf))) (links st)"
    using a b redirect_relabel [OF s disj ne, of suf _ u] by (simp add: comp_def)
  moreover have "heap st2 p = heap st p" if "\<forall>x \<in> set ((u, js) # suf). p \<notin> set (snd x)" for p
    using a b that by auto
  ultimately show ?thesis using a b s by (simp add: merged_units_def)
qed

lemma merge_units_merged:
  assumes "wf_trans {} st" "tr_jobs st = pre @ suf"
    and "\<And>e. e \<in> set suf \<Longrightarrow> \<exists>t. unit_merge st (snd e) = Some (Inr t)"
  shows "\<exists>st'. merge_units (map fst suf) st = Some st' \<and> merged_units pre suf st st'"
  using assms
proof (induction suf arbitrary: pre st)
  case Nil
  then show ?case by (simp add: merged_units_Nil)
next
  case (Cons x suf)
  obtain u js where x: "x = (u, js)" by (cases x)
  let ?s = "survivor (tr_anchor st) js"
  have tr: "tr_jobs st = pre @ (u, js) # suf" using Cons.prems(2) x by simp
  then have e: "(u, js) \<in> set (tr_jobs st)" by simp
  obtain t where t: "unit_merge st js = Some (Inr t)" using Cons.prems(3) [of x] x by auto
  have ok: "js \<noteq> []" "distinct js" using wf_transD(2) [OF Cons.prems(1) e] by (simp_all add: tr_entry_ok_def)
  have get: "tr_get st u = js"
    using map_of_is_SomeI [OF wf_transD(1) [OF Cons.prems(1)] e] by (simp add: tr_get_def)
  let ?st1 = "merge_rest t (hd js) (tl js) st"
  have m: "merged t ?s (set js) st ?st1"
  proof -
    have "tl js = [] \<Longrightarrow> j_type (job_at st (hd js)) = t" using t by (simp add: unit_merge_def)
    then show ?thesis
      using merge_rest_merged [OF Cons.prems(1) e, of "hd js" "tl js" t] ok by simp
  qed
  have "tr_jobs ?st1 = (pre @ [(u, [?s])]) @ suf"
    using m drop_jobs_one_unit [OF Cons.prems(1) tr] survivor_in [OF ok(1)] by (simp add: merged_def)
  moreover have "\<exists>t. unit_merge ?st1 (snd y) = Some (Inr t)" if y: "y \<in> set suf" for y
  proof -
    obtain v ks where y': "y = (v, ks)" by (cases y)
    have ye: "(v, ks) \<in> set (tr_jobs st)" using y y' tr by simp
    have "v \<noteq> u" using y y' wf_transD(1) [OF Cons.prems(1)] tr by force
    then have "heap ?st1 p = heap st p" if "p \<in> set ks" for p
      using m wf_entries_disjoint [OF Cons.prems(1) e ye] that by (auto simp: merged_def)
    moreover have "ks \<noteq> []" using wf_transD(2) [OF Cons.prems(1) ye] by (simp add: tr_entry_ok_def)
    ultimately have "unit_merge ?st1 ks = unit_merge st ks"
      using m by (intro unit_merge_cong) (auto simp: merged_def)
    then show ?thesis using Cons.prems(3) [of y] y y' by auto
  qed
  ultimately obtain st2 where st2: "merge_units (map fst suf) ?st1 = Some st2"
      "merged_units (pre @ [(u, [?s])]) suf ?st1 st2"
    using Cons.IH [of ?st1] m by (auto simp: merged_def)
  then show ?case
    using merged_units_Cons [OF Cons.prems(1) tr t m refl st2(2)] get t x by (simp add: Let_def)
qed

section \<open>The outcome of merging\<close>

lemma first_conflict_None_iff:
  "first_conflict st es = Some None \<longleftrightarrow> (\<forall>e \<in> set es. \<exists>t. unit_merge st (snd e) = Some (Inr t))"
  by (induction st es rule: first_conflict.induct) (auto split: option.split sum.split)

lemma first_conflict_SomeD:
  "first_conflict st es = Some (Some js) \<Longrightarrow>
    \<exists>u e. (u, js) \<in> set es \<and> unit_merge st js = Some (Inl e)"
  by (induction st es rule: first_conflict.induct) (auto split: option.splits sum.splits)

text \<open>Types that may be merged: every job of a unit that has more than one.\<close>

definition mergeable_types :: "sys \<Rightarrow> bool" where
  "mergeable_types st \<longleftrightarrow>
     (\<forall>(u, js) \<in> set (tr_jobs st). length js > 1 \<longrightarrow> (\<forall>p \<in> set js. j_type (job_at st p) \<in> merging_types))"

lemma merge_types_outcome:
  assumes "t \<in> merging_types" "set ks \<subseteq> merging_types"
  shows "merge_types s t ks \<noteq> None"
    and "merge_types s t ks = Some (Inl e) \<Longrightarrow> \<exists>k \<in> set ks. (k = JOB_STOP) \<noteq> (t = JOB_STOP)"
proof -
  have "merge_types s t ks \<noteq> None \<and>
      (merge_types s t ks = Some (Inl e) \<longrightarrow> (\<exists>k \<in> set ks. (k = JOB_STOP) \<noteq> (t = JOB_STOP)))"
    using assms
  proof (induction ks arbitrary: t)
    case (Cons k ks)
    have k: "k \<in> merging_types" using Cons.prems by simp
    note o = merge_and_collapse_outcome [OF Cons.prems(1) k, of s]
    show ?case
    proof (cases "job_type_merge_and_collapse t k s")
      case None
      with o show ?thesis by simp
    next
      case (Some r)
      with o Cons.IH [of "projr r"] Cons.prems(2) show ?thesis by (cases r) auto
    qed
  qed simp
  then show "merge_types s t ks \<noteq> None"
    "merge_types s t ks = Some (Inl e) \<Longrightarrow> \<exists>k \<in> set ks. (k = JOB_STOP) \<noteq> (t = JOB_STOP)" by auto
qed

lemma first_unmergeable_eq:
  assumes "\<forall>q \<in> set (p # ks). j_type (job_at st q) \<in> merging_types"
  shows "first_unmergeable st p ks =
    Some (find (\<lambda>k. (j_type (job_at st p) = JOB_STOP) \<noteq> (j_type (job_at st k) = JOB_STOP)) ks)"
  using assms by (induction ks) (auto simp: job_type_is_mergeable_eq)

lemma unmergeable_pair_eq:
  assumes "\<forall>q \<in> set js. j_type (job_at st q) \<in> merging_types"
  shows "(\<exists>p \<in> set js. \<exists>k \<in> set js. unmergeable_pair st js = Some (Some (p, k)) \<and>
        (j_type (job_at st p) = JOB_STOP) \<noteq> (j_type (job_at st k) = JOB_STOP)) \<or>
    unmergeable_pair st js = Some None \<and>
      (\<forall>p \<in> set js. (j_type (job_at st p) = JOB_STOP) = (j_type (job_at st (hd js)) = JOB_STOP))"
  using assms
proof (induction js)
  case (Cons p ps)
  let ?P = "\<lambda>k. (j_type (job_at st p) = JOB_STOP) \<noteq> (j_type (job_at st k) = JOB_STOP)"
  have f: "first_unmergeable st p ps = Some (find ?P ps)" using Cons.prems by (rule first_unmergeable_eq)
  show ?case
  proof (cases "find ?P ps")
    case None
    then have same: "\<forall>k \<in> set ps. \<not> ?P k" by (auto simp: find_None_iff)
    have u: "unmergeable_pair st (p # ps) = unmergeable_pair st ps" using f None by simp
    have "\<forall>q \<in> set ps. j_type (job_at st q) \<in> merging_types" using Cons.prems by simp
    from Cons.IH [OF this] show ?thesis
    proof
      assume "\<exists>p' \<in> set ps. \<exists>k \<in> set ps. unmergeable_pair st ps = Some (Some (p', k)) \<and>
        (j_type (job_at st p') = JOB_STOP) \<noteq> (j_type (job_at st k) = JOB_STOP)"
      then show ?thesis unfolding u by (meson list.set_intros(2))
    next
      assume "unmergeable_pair st ps = Some None \<and>
        (\<forall>q \<in> set ps. (j_type (job_at st q) = JOB_STOP) = (j_type (job_at st (hd ps)) = JOB_STOP))"
      then show ?thesis unfolding u using same by simp
    qed
  next
    case (Some k)
    then have "unmergeable_pair st (p # ps) = Some (Some (p, k))" using f by simp
    moreover have "k \<in> set (p # ps)" "?P k" using find_SomeD [OF Some] by auto
    ultimately show ?thesis by (meson list.set_intros(1))
  qed
qed simp

lemma unit_merge_outcome:
  assumes "\<forall>q \<in> set js. j_type (job_at st q) \<in> merging_types" "js \<noteq> []"
  shows "unit_merge st js \<noteq> None"
    and "unit_merge st js = Some (Inl e) \<Longrightarrow>
      \<exists>p \<in> set js. (j_type (job_at st p) = JOB_STOP) \<noteq> (j_type (job_at st (hd js)) = JOB_STOP)"
proof -
  obtain p ps where js: "js = p # ps" using assms(2) by (cases js) auto
  have "j_type (job_at st p) \<in> merging_types" "set (map (\<lambda>k. j_type (job_at st k)) ps) \<subseteq> merging_types"
    using assms(1) js by auto
  note o = merge_types_outcome [OF this, of "u_active_state (unit_of st p)"]
  show "unit_merge st js \<noteq> None" using o(1) by (simp add: unit_merge_def js)
  show "\<exists>p \<in> set js. (j_type (job_at st p) = JOB_STOP) \<noteq> (j_type (job_at st (hd js)) = JOB_STOP)"
    if "unit_merge st js = Some (Inl e)"
    using o(2) [of e] that by (auto simp: unit_merge_def js)
qed

lemma unit_merge_singleton: "unit_merge st [p] = Some (Inr (j_type (job_at st p)))"
  by (simp add: unit_merge_def)

lemma unit_merge_not_None:
  assumes "wf_trans {} st" "mergeable_types st" "(u, js) \<in> set (tr_jobs st)"
  shows "unit_merge st js \<noteq> None"
proof (cases "length js > 1")
  case True
  then show ?thesis
    using assms(2,3) unit_merge_outcome(1) [of js st] by (fastforce simp: mergeable_types_def)
next
  case False
  moreover have "js \<noteq> []" using wf_transD(2) [OF assms(1,3)] by (simp add: tr_entry_ok_def)
  ultimately obtain p where "js = [p]" by (cases js) auto
  then show ?thesis by (simp add: unit_merge_singleton)
qed

lemma first_conflict_not_None:
  "(\<And>u js. (u, js) \<in> set es \<Longrightarrow> unit_merge st js \<noteq> None) \<Longrightarrow> first_conflict st es \<noteq> None"
proof (induction es)
  case (Cons e es)
  obtain u js where e: "e = (u, js)" by (cases e)
  then obtain r where "unit_merge st js = Some r" using Cons.prems [of u js] by auto
  moreover have "first_conflict st es \<noteq> None" using Cons.IH Cons.prems by (metis list.set_intros(2))
  ultimately show ?case using e by (cases r) auto
qed simp

text \<open>The merged type does not depend on the order of the jobs in the list.\<close>

lemma merge_types_Cons_iff:
  "merge_types s t (k # ks) = Some (Inr r) \<longleftrightarrow>
    (\<exists>t'. merge_in s t k = Some t' \<and> merge_types s t' ks = Some (Inr r))"
  by (auto simp: merge_in_def split: option.splits sum.splits)

lemma merge_types_merge_list:
  "(merge_types s t ks = Some (Inr r)) = (jt.merge_list s t ks = Some r)"
proof (induction ks arbitrary: t)
  case (Cons k ks)
  then show ?case
    unfolding merge_types_Cons_iff by (cases "merge_in s t k") simp_all
qed simp

lemma unit_merge_perm:
  assumes "mset js' = mset js" "js \<noteq> []" "unit_merge st js = Some (Inr t)"
    and "\<forall>p \<in> set js. j_type (job_at st p) \<in> merging_types \<and> j_unit (job_at st p) = u"
  shows "unit_merge st js' = Some (Inr t)"
proof -
  obtain p ps where js: "js = p # ps" using assms(2) by (cases js) auto
  have "js' \<noteq> []" using assms(1,2) by auto
  then obtain q qs where js': "js' = q # qs" by (cases js') auto
  let ?f = "\<lambda>k. j_type (job_at st k)"
  have set_eq: "set js' = set js" using assms(1) by (rule mset_eq_setD)
  have m: "mset (?f p # map ?f ps) = mset (?f q # map ?f qs)"
    using arg_cong [OF assms(1), of "image_mset ?f"] by (simp add: js js')
  have sub: "set (?f p # map ?f ps) \<subseteq> merging_types"
    using assms(4) set_eq js js' by auto
  have un: "j_unit (job_at st q) = j_unit (job_at st p)"
    using assms(4) set_eq js js' by (metis list.set_intros(1))
  have "jt.merge_list (u_active_state (unit_of st p)) (?f p) (map ?f ps) = Some t"
    using assms(3) by (simp add: unit_merge_def js merge_types_merge_list)
  then have "jt.merge_list (u_active_state (unit_of st p)) (?f q) (map ?f qs) = Some t"
    using jt.merge_list_head [OF m sub] by simp
  then show ?thesis
    by (simp add: unit_merge_def js' un merge_types_merge_list)
qed

lemma merge_jobs_succeeds:
  assumes "wf_trans {} st" "first_conflict st (tr_jobs st) = Some None"
  shows "\<exists>st'. transaction_merge_jobs st = Some (Inr (), st')"
proof -
  have "\<exists>t. unit_merge st (snd e) = Some (Inr t)" if "e \<in> set (tr_jobs st)" for e
    using assms(2) that by (auto simp: first_conflict_None_iff)
  then obtain s where "merge_units (map fst (tr_jobs st)) st = Some s"
    using merge_units_merged [OF assms(1), of "[]" "tr_jobs st"] by auto
  with assms(2) show ?thesis by (simp add: transaction_merge_jobs_def)
qed

text \<open>
  C9.  When merging succeeds, every unit is left with one job: the anchor if it was among the
  unit's jobs, else the first one.  Its type is the merge of the types of all of them, which does
  not depend on their order; it matters to the anchor, or is irreversible, if one of them was; and
  every dependency of a job that was merged away now belongs to the surviving job.
\<close>

theorem merge_jobs_one_job_per_unit:
  assumes "wf_trans {} st" "mergeable_types st" "transaction_merge_jobs st = Some (Inr r, st')"
  shows "wf_trans {} st' \<and>
    tr_jobs st' = map (\<lambda>(u, js). (u, [survivor (tr_anchor st) js])) (tr_jobs st) \<and>
    links st' = map (redirect (representative (tr_anchor st) (tr_jobs st))) (links st) \<and>
    (\<forall>(u, js) \<in> set (tr_jobs st). merged_entry st st' (u, js) \<and>
       (\<forall>js'. mset js' = mset js \<longrightarrow> unit_merge st js' = unit_merge st js))"
proof -
  have f: "first_conflict st (tr_jobs st) = Some None"
    using assms(3) by (auto simp: transaction_merge_jobs_def split: option.splits sum.splits prod.splits)
  have all: "\<exists>t. unit_merge st (snd e) = Some (Inr t)" if "e \<in> set (tr_jobs st)" for e
    using f that by (auto simp: first_conflict_None_iff)
  obtain s where s: "merge_units (map fst (tr_jobs st)) st = Some s" "merged_units [] (tr_jobs st) st s"
    using merge_units_merged [OF assms(1), of "[]" "tr_jobs st"] all by auto
  have "s = st'" using assms(3) f s(1) by (simp add: transaction_merge_jobs_def)
  have perm: "unit_merge st js' = unit_merge st js"
    if e: "(u, js) \<in> set (tr_jobs st)" and m: "mset js' = mset js" for u js js'
  proof (cases "length js > 1")
    case True
    obtain t where t: "unit_merge st js = Some (Inr t)" using all [OF e] by auto
    have "j_type (job_at st p) \<in> merging_types \<and> j_unit (job_at st p) = u" if p: "p \<in> set js" for p
    proof -
      obtain j where "heap st p = Some j" "j_unit j = u" using same_unit [OF assms(1) e p] by blast
      then show ?thesis using assms(2) True e p by (force simp: mergeable_types_def)
    qed
    moreover have "js \<noteq> []" using True by auto
    ultimately show ?thesis using unit_merge_perm [OF m _ t, of u] t by simp
  next
    case False
    then have "js' = js"
      using m by (cases js) (auto dest: mset_eq_length)
    then show ?thesis by simp
  qed
  show ?thesis
    using s(2) perm unfolding \<open>s = st'\<close> by (auto simp: merged_units_def)
qed

text \<open>A unit with a job to start and one to restart; the second one is the anchor.\<close>

definition ex_merge :: "job_type \<Rightarrow> sys" where
  "ex_merge t = idle_sys
     \<lparr>heap := [11 \<mapsto> plain_job 20 JOB_START, 12 \<mapsto> plain_job 20 t, 13 \<mapsto> plain_job 21 JOB_START],
      next_job := 14,
      links := [\<lparr>d_subject = Some 13, d_object = 11, d_matters = True, d_conflicts = False\<rparr>],
      tr_jobs := [(20, [11, 12]), (21, [13])], tr_anchor := Some 12\<rparr>"

lemma wf_ex_merge: "wf_trans {} (ex_merge t)"
  by (simp add: wf_trans_def ex_merge_def idle_sys_def tr_entry_ok_def wf_links_def tr_set_def
      plain_job_def)

lemma mergeable_ex_merge: "t \<in> merging_types \<Longrightarrow> mergeable_types (ex_merge t)"
  by (simp add: mergeable_types_def ex_merge_def plain_job_def merging_types_def)

lemma merge_jobs_ex_merge: "\<exists>st'. transaction_merge_jobs (ex_merge JOB_RESTART) = Some (Inr (), st')"
proof -
  have "unit_merge (ex_merge JOB_RESTART) [11, 12] = Some (Inr JOB_RESTART)"
    "unit_merge (ex_merge JOB_RESTART) [13] = Some (Inr JOB_START)"
    by (simp_all add: ex_merge_def unit_merge_def plain_job_def job_type_merge_and_collapse_def merge_eval)
  moreover have "tr_jobs (ex_merge JOB_RESTART) = [(20, [11, 12]), (21, [13])]"
    by (simp add: ex_merge_def)
  ultimately show ?thesis by (intro merge_jobs_succeeds [OF wf_ex_merge]) simp
qed

theorem merge_jobs_one_job_per_unit_witness:
  "\<exists>st'. transaction_merge_jobs (ex_merge JOB_RESTART) = Some (Inr (), st') \<and>
     tr_jobs st' = [(20, [12]), (21, [13])] \<and> j_type (job_at st' 12) = JOB_RESTART"
proof -
  obtain st' where st': "transaction_merge_jobs (ex_merge JOB_RESTART) = Some (Inr (), st')"
    using merge_jobs_ex_merge by blast
  have "JOB_RESTART \<in> merging_types" by (simp add: merging_types_def)
  note p = merge_jobs_one_job_per_unit [OF wf_ex_merge mergeable_ex_merge [OF this] st']
  have "tr_jobs (ex_merge JOB_RESTART) = [(20, [11, 12]), (21, [13])]"
    "tr_anchor (ex_merge JOB_RESTART) = Some 12"
    by (simp_all add: ex_merge_def)
  moreover have "unit_merge (ex_merge JOB_RESTART) [11, 12] = Some (Inr JOB_RESTART)"
    by (simp add: ex_merge_def unit_merge_def plain_job_def job_type_merge_and_collapse_def merge_eval)
  ultimately show ?thesis
    using p st' by (auto simp: survivor_def merged_entry_def)
qed

lemma merge_jobs_outcome:
  assumes "wf_trans {} st" "mergeable_types st"
  shows "\<exists>r st'. transaction_merge_jobs st = Some (r, st') \<and>
    (\<forall>e. r = Inl e \<longrightarrow>
      (e = EAGAIN \<and> (\<exists>d \<in> tr_set st. \<not> j_matters_to_anchor (job_at st d) \<and>
          st' = delete_jobs (needers st d) st)) \<or>
      (e = EDEADLK \<and> st' = st \<and>
        (\<exists>(u, js) \<in> set (tr_jobs st). \<exists>p \<in> set js. \<exists>k \<in> set js.
          j_matters_to_anchor (job_at st p) \<and> j_matters_to_anchor (job_at st k) \<and>
          job_type_is_mergeable (j_type (job_at st p)) (j_type (job_at st k)) = Some False)))"
proof -
  have "first_conflict st (tr_jobs st) \<noteq> None"
    using unit_merge_not_None [OF assms] by (rule first_conflict_not_None)
  then obtain c where c: "first_conflict st (tr_jobs st) = Some c" by blast
  show ?thesis
  proof (cases c)
    case None
    then show ?thesis using merge_jobs_succeeds [OF assms(1)] c by auto
  next
    case (Some js)
    obtain u e where e: "(u, js) \<in> set (tr_jobs st)" "unit_merge st js = Some (Inl e)"
      using first_conflict_SomeD c Some by blast
    have ne: "js \<noteq> []" using wf_transD(2) [OF assms(1) e(1)] by (simp add: tr_entry_ok_def)
    have "length js > 1"
      using e(2) ne by (cases js; cases "tl js") (auto simp: unit_merge_singleton)
    then have types: "\<forall>q \<in> set js. j_type (job_at st q) \<in> merging_types"
      using assms(2) e(1) by (auto simp: mergeable_types_def)
    obtain p k where pk: "p \<in> set js" "k \<in> set js" "unmergeable_pair st js = Some (Some (p, k))"
        "(j_type (job_at st p) = JOB_STOP) \<noteq> (j_type (job_at st k) = JOB_STOP)"
      using unmergeable_pair_eq [OF types] unit_merge_outcome(2) [OF types ne e(2)] by blast
    have tr: "p \<in> tr_set st" "k \<in> tr_set st" using e(1) pk(1,2) by (force simp: tr_set_def)+
    have un: "job_type_is_mergeable (j_type (job_at st p)) (j_type (job_at st k)) = Some False"
      using types pk by (simp add: job_type_is_mergeable_eq)
    show ?thesis
    proof (cases "job_to_delete st p k")
      case None
      then have "j_matters_to_anchor (job_at st p)" "j_matters_to_anchor (job_at st k)"
        by (auto simp: job_to_delete_def Let_def split: if_splits)
      with None c Some pk un e(1) show ?thesis
        by (fastforce simp: transaction_merge_jobs_def delete_one_unmergeable_job_def)
    next
      case (Some d)
      then have "d \<in> {p, k}" "\<not> j_matters_to_anchor (job_at st d)"
        by (auto simp: job_to_delete_def Let_def split: if_splits)
      moreover have "transaction_delete_job True d st = delete_jobs (needers st d) st"
        using transaction_delete_job_eq [OF assms(1)] calculation(1) tr by blast
      ultimately show ?thesis
        using Some c \<open>c = Some js\<close> pk(3) tr
        by (force simp: transaction_merge_jobs_def delete_one_unmergeable_job_def)
    qed
  qed
qed

text \<open>
  C10.  Merging never runs into an assertion if no unit has several jobs one of which is a no-op.
  If two jobs of a unit do not merge, then either one job that does not matter to the anchor was
  deleted, together with the jobs that need it, and the caller is told to try again; or the
  transaction is unchanged and the caller gets an error, and then two jobs that both matter to the
  anchor are in conflict.  In particular the search for a conflicting pair always finds one, as
  the comment in \<open>delete_one_unmergeable_job\<close> relies on.
\<close>

theorem merge_jobs_failure:
  assumes "wf_trans {} st" "mergeable_types st"
  shows "\<exists>r st'. transaction_merge_jobs st = Some (r, st') \<and>
    (\<forall>e. r = Inl e \<longrightarrow>
      (e = EAGAIN \<and> (\<exists>d \<in> tr_set st. \<not> j_matters_to_anchor (job_at st d) \<and>
          st' = delete_jobs (needers st d) st)) \<or>
      (e = EDEADLK \<and> st' = st \<and>
        (\<exists>(u, js) \<in> set (tr_jobs st). \<exists>p \<in> set js. \<exists>k \<in> set js.
          j_matters_to_anchor (job_at st p) \<and> j_matters_to_anchor (job_at st k) \<and>
          job_type_is_mergeable (j_type (job_at st p)) (j_type (job_at st k)) = Some False)))"
  using assms by (rule merge_jobs_outcome)

theorem merge_jobs_failure_witness:
  "\<exists>r st'. transaction_merge_jobs (ex_merge JOB_STOP) = Some (r, st') \<and>
     (\<forall>e. r = Inl e \<longrightarrow> e = EAGAIN \<or> (e = EDEADLK \<and> st' = ex_merge JOB_STOP))"
proof -
  have "JOB_STOP \<in> merging_types" by (simp add: merging_types_def)
  from merge_jobs_failure [OF wf_ex_merge mergeable_ex_merge [OF this]] show ?thesis by blast
qed



end
