(* ===== verification/Transaction_Order.thy ===== *)
theory Transaction_Order
  imports Transaction_Merge
begin

text \<open>
  The search for ordering cycles (\<open>src/core/transaction.c\<close>, \<open>unit_matters_to_anchor\<close>,
  \<open>transaction_verify_order_one\<close>, \<open>transaction_verify_order\<close>).

  The search is a recursive walk over the jobs that have to run after a job.  Its fuel bounds the
  depth of the recursion; \<open>None\<close> is running out of it.  With one unit of fuel more than there are
  job addresses it never does.  The jobs a walk goes on to are read off the state before the loop
  over them, as nothing but marks changes until the loop is left.
\<close>

section \<open>Operations\<close>

text \<open>The list that starts at \<open>k\<close>; a job that is not part of the transaction is alone in it.\<close>

definition jobs_from :: "sys \<Rightarrow> jobp \<Rightarrow> jobp list" where
  "jobs_from st k =
     (let js = tr_get st (j_unit (job_at st k)) in
      if k \<in> set js then dropWhile (\<lambda>p. p \<noteq> k) js else [k])"

definition unit_matters_to_anchor :: "sys \<Rightarrow> jobp \<Rightarrow> bool" where
  "unit_matters_to_anchor st k = list_ex (\<lambda>p. j_matters_to_anchor (job_at st p)) (jobs_from st k)"

definition order_job :: "sys \<Rightarrow> unitp \<Rightarrow> jobp option" where
  "order_job st u = (case tr_get st u of p # _ \<Rightarrow> Some p | [] \<Rightarrow> u_job (units st u))"

definition order_successors :: "sys \<Rightarrow> jobp \<Rightarrow> jobp list" where
  "order_successors st p =
     (let j = job_at st p; deps = u_dependencies (units st (j_unit j)) in
      concat (map (\<lambda>d. filter (\<lambda>q. job_compare j (job_at st q) d < 0)
                 (List.map_filter (order_job st) (UNIT_FOREACH_DEPENDENCY deps d)))
        [UNIT_ATOM_BEFORE, UNIT_ATOM_AFTER]))"

text \<open>The way back along the markers, from \<open>from\<close> to \<open>p\<close>.\<close>

fun cycle_path :: "nat \<Rightarrow> jobp option \<Rightarrow> jobp \<Rightarrow> nat \<Rightarrow> sys \<Rightarrow> jobp list" where
  "cycle_path 0 from p g st = []"
| "cycle_path (Suc n) None p g st = []"
| "cycle_path (Suc n) (Some k) p g st =
     k # (if k = p then []
          else cycle_path n
                 (if j_generation (job_at st k) = g \<and> j_marker (job_at st k) \<noteq> Some k
                  then j_marker (job_at st k) else None) p g st)"

definition break_cycle :: "jobp \<Rightarrow> jobp option \<Rightarrow> nat \<Rightarrow> sys \<Rightarrow> (err + unit) \<times> sys" where
  "break_cycle p from g st =
     (case find (\<lambda>k. tr_get st (j_unit (job_at st k)) \<noteq> [] \<and> \<not> unit_matters_to_anchor st k)
             (cycle_path (Suc (next_job st)) from p g st) of
        Some d \<Rightarrow> (Inl EAGAIN, transaction_delete_unit (j_unit (job_at st d)) st)
      | None \<Rightarrow> (Inl EDEADLK, st))"

definition enter_job :: "jobp \<Rightarrow> jobp option \<Rightarrow> nat \<Rightarrow> sys \<Rightarrow> sys" where
  "enter_job p from g st =
     upd_job p (\<lambda>j. j\<lparr>j_marker := Some (case from of Some k \<Rightarrow> k | None \<Rightarrow> p), j_generation := g\<rparr>) st"

definition leave_job :: "jobp \<Rightarrow> sys \<Rightarrow> sys" where
  "leave_job p st = upd_job p (\<lambda>j. j\<lparr>j_marker := None\<rparr>) st"

function verify_order_one :: "nat \<Rightarrow> jobp \<Rightarrow> jobp option \<Rightarrow> nat \<Rightarrow> sys \<Rightarrow> ((err + unit) \<times> sys) option"
  and verify_successors :: "nat \<Rightarrow> jobp list \<Rightarrow> jobp \<Rightarrow> nat \<Rightarrow> sys \<Rightarrow> ((err + unit) \<times> sys) option" where
  "verify_order_one 0 p from g st = None"
| "verify_order_one (Suc n) p from g st =
     (if j_generation (job_at st p) = g then
        (if j_marker (job_at st p) = None then Some (Inr (), st)
         else Some (break_cycle p from g st))
      else
        (let st1 = enter_job p from g st in
         case verify_successors n (order_successors st1 p) p g st1 of
           Some (Inr _, st2) \<Rightarrow> Some (Inr (), leave_job p st2)
         | r \<Rightarrow> r))"
| "verify_successors n [] p g st = Some (Inr (), st)"
| "verify_successors n (q # qs) p g st =
     (case verify_order_one n q (Some p) g st of
        Some (Inr _, st') \<Rightarrow> verify_successors n qs p g st'
      | r \<Rightarrow> r)"
  by pat_completeness auto
termination
  by (relation "measures [\<lambda>x. case x of Inl (n, _) \<Rightarrow> n | Inr (n, _) \<Rightarrow> n,
                          \<lambda>x. case x of Inl _ \<Rightarrow> 0 | Inr (n, qs, _) \<Rightarrow> Suc (length qs)]") auto

fun verify_heads :: "nat \<Rightarrow> jobp list \<Rightarrow> nat \<Rightarrow> sys \<Rightarrow> ((err + unit) \<times> sys) option" where
  "verify_heads n [] g st = Some (Inr (), st)"
| "verify_heads n (p # ps) g st =
     (case verify_order_one n p None g st of
        Some (Inr _, st') \<Rightarrow> verify_heads n ps g st'
      | r \<Rightarrow> r)"

definition transaction_verify_order :: "nat \<Rightarrow> sys \<Rightarrow> ((err + unit) \<times> sys) option" where
  "transaction_verify_order g st =
     verify_heads (Suc (next_job st)) (map (hd \<circ> snd) (tr_jobs st)) g st"

section \<open>What the walk leaves alone\<close>

text \<open>The state without the marks of the walk.\<close>

definition erase :: "sys \<Rightarrow> sys" where
  "erase st = st\<lparr>heap := (\<lambda>p. map_option (\<lambda>j. j\<lparr>j_marker := None, j_generation := 0\<rparr>) (heap st p))\<rparr>"

lemma erase_fields [simp]:
  "tr_jobs (erase st) = tr_jobs st" "units (erase st) = units st" "next_job (erase st) = next_job st"
  "tr_anchor (erase st) = tr_anchor st" "links (erase st) = links st"
  by (simp_all add: erase_def)

lemma erase_heap_None [simp]: "heap (erase st) p = None \<longleftrightarrow> heap st p = None"
  by (simp add: erase_def)

lemma erase_job_fields [simp]:
  "j_type (job_at (erase st) p) = j_type (job_at st p)"
  "j_unit (job_at (erase st) p) = j_unit (job_at st p)"
  "j_ignore_order (job_at (erase st) p) = j_ignore_order (job_at st p)"
  "j_matters_to_anchor (job_at (erase st) p) = j_matters_to_anchor (job_at st p)"
  by (cases "heap st p"; simp add: erase_def)+

lemma tr_get_erase [simp]: "tr_get (erase st) = tr_get st"
  by (simp add: tr_get_def fun_eq_iff)

lemma order_job_erase: "order_job (erase st) = order_job st"
  by (simp add: order_job_def fun_eq_iff split: list.split)

lemma job_compare_erase:
  "job_compare (job_at (erase st) p) (job_at (erase st) q) d = job_compare (job_at st p) (job_at st q) d"
  by (simp add: job_compare_eq)

lemma order_successors_erase: "order_successors (erase st) p = order_successors st p"
  by (simp add: order_successors_def Let_def order_job_erase job_compare_erase)

lemma unit_matters_erase: "unit_matters_to_anchor (erase st) k = unit_matters_to_anchor st k"
  by (simp add: unit_matters_to_anchor_def jobs_from_def)

text \<open>\<open>(p, q)\<close>: job \<open>p\<close> runs before job \<open>q\<close>.\<close>

definition job_order :: "sys \<Rightarrow> (jobp \<times> jobp) set" where
  "job_order st = {(p, q). heap st p \<noteq> None \<and> q \<in> set (order_successors st p)}"

lemma same_eraseD:
  assumes "erase st' = erase st"
  shows "tr_jobs st' = tr_jobs st" "units st' = units st" "next_job st' = next_job st"
    "heap st' p = None \<longleftrightarrow> heap st p = None" "tr_get st' = tr_get st"
    "order_successors st' p = order_successors st p" "job_order st' = job_order st"
    "unit_matters_to_anchor st' k = unit_matters_to_anchor st k"
    "j_unit (job_at st' k) = j_unit (job_at st k)"
proof -
  show h: "heap st' p = None \<longleftrightarrow> heap st p = None" for p
    by (metis assms erase_heap_None)
  show "tr_jobs st' = tr_jobs st" "units st' = units st" "next_job st' = next_job st"
    "tr_get st' = tr_get st"
    by (metis assms erase_fields tr_get_erase)+
  show o: "order_successors st' p = order_successors st p" for p
    by (metis assms order_successors_erase)
  show "job_order st' = job_order st" by (simp add: job_order_def o h)
  show "unit_matters_to_anchor st' k = unit_matters_to_anchor st k"
    by (metis assms unit_matters_erase)
  show "j_unit (job_at st' k) = j_unit (job_at st k)" by (metis assms erase_job_fields(2))
qed

section \<open>Colours\<close>

text \<open>
  During a walk with generation \<open>g\<close> a job is white (not seen), grey (on the current path) or black
  (left for good).
\<close>

definition white :: "nat \<Rightarrow> sys \<Rightarrow> jobp set" where
  "white g st = {p. \<exists>j. heap st p = Some j \<and> j_generation j \<noteq> g}"

definition grey :: "nat \<Rightarrow> sys \<Rightarrow> jobp set" where
  "grey g st = {p. \<exists>j. heap st p = Some j \<and> j_generation j = g \<and> j_marker j \<noteq> None}"

definition black :: "nat \<Rightarrow> sys \<Rightarrow> jobp set" where
  "black g st = {p. \<exists>j. heap st p = Some j \<and> j_generation j = g \<and> j_marker j = None}"

lemmas colour_defs = white_def grey_def black_def

lemma colours_upd:
  assumes "heap st p = Some j"
  shows "white g (upd_job p f st) = (if j_generation (f j) \<noteq> g then insert p (white g st) else white g st - {p})"
    "grey g (upd_job p f st) =
      (if j_generation (f j) = g \<and> j_marker (f j) \<noteq> None then insert p (grey g st) else grey g st - {p})"
    "black g (upd_job p f st) =
      (if j_generation (f j) = g \<and> j_marker (f j) = None then insert p (black g st) else black g st - {p})"
  using assms by (auto simp: upd_job_def colour_defs)

lemma erase_upd:
  assumes "\<And>j. (f j)\<lparr>j_marker := None, j_generation := 0\<rparr> = j\<lparr>j_marker := None, j_generation := 0\<rparr>"
  shows "erase (upd_job p f st) = erase st"
  using assms by (auto simp: erase_def upd_job_def fun_eq_iff option.map_comp comp_def)

lemma enter_job_colours:
  assumes "p \<in> white g st"
  shows "erase (enter_job p fr g st) = erase st"
    "white g (enter_job p fr g st) = white g st - {p}"
    "grey g (enter_job p fr g st) = insert p (grey g st)"
    "black g (enter_job p fr g st) = black g st"
    "q \<noteq> p \<Longrightarrow> heap (enter_job p fr g st) q = heap st q"
    "j_marker (job_at (enter_job p fr g st) p) = Some (case fr of Some k \<Rightarrow> k | None \<Rightarrow> p)"
proof -
  obtain j where j: "heap st p = Some j" "j_generation j \<noteq> g" using assms by (auto simp: white_def)
  show "erase (enter_job p fr g st) = erase st" by (simp add: enter_job_def erase_upd)
  show "white g (enter_job p fr g st) = white g st - {p}"
    "grey g (enter_job p fr g st) = insert p (grey g st)"
    by (simp_all add: enter_job_def colours_upd [OF j(1)])
  have "p \<notin> black g st" using j by (simp add: black_def)
  then show "black g (enter_job p fr g st) = black g st"
    by (simp add: enter_job_def colours_upd [OF j(1)])
  show "q \<noteq> p \<Longrightarrow> heap (enter_job p fr g st) q = heap st q"
    "j_marker (job_at (enter_job p fr g st) p) = Some (case fr of Some k \<Rightarrow> k | None \<Rightarrow> p)"
    using j(1) by (simp_all add: enter_job_def upd_job_def)
qed

lemma leave_job_colours:
  assumes "p \<in> grey g st"
  shows "erase (leave_job p st) = erase st"
    "white g (leave_job p st) = white g st"
    "grey g (leave_job p st) = grey g st - {p}"
    "black g (leave_job p st) = insert p (black g st)"
    "q \<noteq> p \<Longrightarrow> heap (leave_job p st) q = heap st q"
proof -
  obtain j where j: "heap st p = Some j" "j_generation j = g" using assms by (auto simp: grey_def)
  show "erase (leave_job p st) = erase st" by (simp add: leave_job_def erase_upd)
  have "p \<notin> white g st" using j by (simp add: white_def)
  then show "white g (leave_job p st) = white g st"
    using j(2) by (simp add: leave_job_def colours_upd [OF j(1)])
  show "grey g (leave_job p st) = grey g st - {p}" "black g (leave_job p st) = insert p (black g st)"
    using j(2) by (simp_all add: leave_job_def colours_upd [OF j(1)])
  show "q \<noteq> p \<Longrightarrow> heap (leave_job p st) q = heap st q" by (simp add: leave_job_def upd_job_def)
qed

section \<open>The invariant of the walk\<close>

definition loop_free :: "(jobp \<times> jobp) set \<Rightarrow> jobp set \<Rightarrow> bool" where
  "loop_free R B \<longleftrightarrow> R `` B \<subseteq> B \<and> (\<forall>p \<in> B. (p, p) \<notin> R\<^sup>+)"

lemma loop_free_insert:
  assumes "loop_free R B" "R `` {p} \<subseteq> B" "p \<notin> B"
  shows "loop_free R (insert p B)"
proof -
  have "R\<^sup>* `` B = B" using assms(1) by (simp add: loop_free_def Image_closed_trancl)
  moreover have "(p, p) \<in> R\<^sup>+ \<Longrightarrow> \<exists>q. (p, q) \<in> R \<and> (q, p) \<in> R\<^sup>*" by (auto dest: tranclD)
  ultimately have "(p, p) \<notin> R\<^sup>+" using assms(2,3) by blast
  then show ?thesis using assms(1,2) by (auto simp: loop_free_def)
qed

text \<open>The markers lead back along the path, from its last job to its first.\<close>

fun chain :: "sys \<Rightarrow> jobp list \<Rightarrow> bool" where
  "chain st [] = True"
| "chain st [k] = (j_marker (job_at st k) = Some k)"
| "chain st (k # k' # ks) =
     (j_marker (job_at st k) = Some k' \<and> (k', k) \<in> job_order st \<and> chain st (k' # ks))"

lemma chain_cong:
  assumes "\<And>k. k \<in> set ks \<Longrightarrow> heap st' k = heap st k" "job_order st' = job_order st" "chain st ks"
  shows "chain st' ks"
  using assms by (induction st ks rule: chain.induct) simp_all

lemma chain_reaches: "chain st (k # ks) \<Longrightarrow> x \<in> set (k # ks) \<Longrightarrow> (x, k) \<in> (job_order st)\<^sup>*"
proof (induction ks arbitrary: k)
  case (Cons k' ks)
  then show ?case by (cases "x = k") (auto intro: rtrancl_into_rtrancl)
qed simp

lemma chain_split: "chain st (xs @ p # ys) \<Longrightarrow> x \<in> set xs \<Longrightarrow> (p, x) \<in> (job_order st)\<^sup>*"
proof (induction xs)
  case (Cons y xs)
  have tail: "chain st (xs @ p # ys)" using Cons.prems(1) by (cases xs) auto
  show ?case
  proof (cases "x = y")
    case True
    with chain_reaches [of st y "xs @ p # ys" p] Cons.prems(1) show ?thesis by simp
  qed (use Cons tail in simp)
qed simp

lemma cycle_path_eq:
  assumes "chain st (k # ks)" "distinct (k # ks)" "p \<in> set (k # ks)" "length (k # ks) \<le> n"
    and "\<And>q. q \<in> set (k # ks) \<Longrightarrow> j_generation (job_at st q) = g"
  shows "cycle_path n (Some k) p g st = takeWhile (\<lambda>q. q \<noteq> p) (k # ks) @ [p]"
  using assms
proof (induction ks arbitrary: k n)
  case Nil
  then show ?case by (cases n) auto
next
  case (Cons k' ks)
  then obtain m where n: "n = Suc m" by (cases n) auto
  show ?case
  proof (cases "k = p")
    case False
    then have "cycle_path m (Some k') p g st = takeWhile (\<lambda>q. q \<noteq> p) (k' # ks) @ [p]"
      using Cons.prems n by (intro Cons.IH) auto
    moreover have "j_marker (job_at st k) = Some k'" "k' \<noteq> k" "j_generation (job_at st k) = g"
      using Cons.prems by auto
    ultimately show ?thesis using n False by simp
  qed (use n in simp)
qed

definition wf_order :: "sys \<Rightarrow> bool" where
  "wf_order st \<longleftrightarrow>
     (\<forall>p. heap st p \<noteq> None \<longrightarrow> p < next_job st) \<and>
     (\<forall>p q. (p, q) \<in> job_order st \<longrightarrow> heap st q \<noteq> None)"

definition walk_ok :: "nat \<Rightarrow> sys \<Rightarrow> jobp list \<Rightarrow> bool" where
  "walk_ok g st path \<longleftrightarrow>
     wf_order st \<and> grey g st = set path \<and> distinct path \<and> chain st path \<and>
     loop_free (job_order st) (black g st)"

definition walk_post :: "nat \<Rightarrow> sys \<Rightarrow> sys \<Rightarrow> bool" where
  "walk_post g st st' \<longleftrightarrow>
     erase st' = erase st \<and> (\<forall>q \<in> grey g st. heap st' q = heap st q) \<and> grey g st' = grey g st \<and>
     black g st \<subseteq> black g st' \<and> white g st' \<subseteq> white g st \<and>
     loop_free (job_order st) (black g st')"

text \<open>
  Why a walk fails: it went around a cycle \<open>ks\<close>.  Either the jobs of one unit on it are deleted,
  none of which matters to the anchor, or all jobs on it are installed ones or matter.
\<close>

definition walk_fail :: "sys \<Rightarrow> err \<Rightarrow> sys \<Rightarrow> bool" where
  "walk_fail st e st' \<longleftrightarrow>
     (\<exists>st1 ks. erase st1 = erase st \<and> ks \<noteq> [] \<and> (\<forall>k \<in> set ks. (k, k) \<in> (job_order st)\<^sup>+) \<and>
        (e = EAGAIN \<and> (\<exists>d \<in> set ks. tr_get st (j_unit (job_at st d)) \<noteq> [] \<and>
             \<not> unit_matters_to_anchor st d \<and> st' = transaction_delete_unit (j_unit (job_at st d)) st1) \<or>
         e = EDEADLK \<and> st' = st1 \<and>
           (\<forall>d \<in> set ks. tr_get st (j_unit (job_at st d)) = [] \<or> unit_matters_to_anchor st d)))"

definition walk_result :: "nat \<Rightarrow> sys \<Rightarrow> jobp set \<Rightarrow> ((err + unit) \<times> sys) option \<Rightarrow> bool" where
  "walk_result g st Q x \<longleftrightarrow>
     (\<exists>r st'. x = Some (r, st') \<and>
        (case r of Inr _ \<Rightarrow> walk_post g st st' \<and> Q \<subseteq> black g st' | Inl e \<Rightarrow> walk_fail st e st'))"

lemma wf_order_erase: "erase st' = erase st \<Longrightarrow> wf_order st \<Longrightarrow> wf_order st'"
  using same_eraseD [of st' st] by (simp add: wf_order_def)

lemma walk_fail_erase: "erase st1 = erase st \<Longrightarrow> walk_fail st1 e st' \<Longrightarrow> walk_fail st e st'"
  using same_eraseD [of st1 st] unfolding walk_fail_def by simp

lemma walk_post_refl: "walk_ok g st path \<Longrightarrow> walk_post g st st"
  by (simp add: walk_ok_def walk_post_def)

lemma walk_post_trans: "walk_post g st st1 \<Longrightarrow> walk_post g st1 st2 \<Longrightarrow> walk_post g st st2"
  using same_eraseD(7) [of st1 st] by (auto simp: walk_post_def)

lemma walk_ok_post:
  assumes "walk_ok g st path" "walk_post g st st'"
  shows "walk_ok g st' path"
proof -
  have e: "erase st' = erase st" using assms(2) by (simp add: walk_post_def)
  have "chain st' path"
    using assms same_eraseD(7) [OF e] by (intro chain_cong [of path st' st]) (auto simp: walk_ok_def walk_post_def)
  then show ?thesis
    using assms wf_order_erase [OF e] same_eraseD(7) [OF e] by (simp add: walk_ok_def walk_post_def)
qed

lemma finite_white: "wf_order st \<Longrightarrow> finite (white g st)"
  by (rule finite_subset [of _ "{..<next_job st}"]) (auto simp: wf_order_def white_def)

lemma card_white_mono: "wf_order st \<Longrightarrow> walk_post g st st' \<Longrightarrow> card (white g st') \<le> card (white g st)"
  by (simp add: walk_post_def card_mono finite_white)

lemma walk_enter:
  assumes "walk_ok g st path" "p \<in> white g st" "path \<noteq> [] \<Longrightarrow> (hd path, p) \<in> job_order st"
  shows "walk_ok g (enter_job p (case path of [] \<Rightarrow> None | k # _ \<Rightarrow> Some k) g st) (p # path)"
    (is "walk_ok g ?s _")
proof -
  note c = enter_job_colours [OF assms(2), where fr = "case path of [] \<Rightarrow> None | k # _ \<Rightarrow> Some k"]
  have "p \<notin> grey g st" using assms(2) by (auto simp: colour_defs)
  then have p: "p \<notin> set path" using assms(1) by (simp add: walk_ok_def)
  have "heap ?s k = heap st k" if "k \<in> set path" for k
    using that p by (intro c(5)) auto
  then have "chain ?s path"
    using assms(1) same_eraseD(7) [OF c(1)] by (intro chain_cong [of path ?s st]) (auto simp: walk_ok_def)
  then have "chain ?s (p # path)"
    using c(6) assms(3) same_eraseD(7) [OF c(1)] by (cases path) auto
  then show ?thesis
    using assms(1) p c wf_order_erase [OF c(1)] same_eraseD(7) [OF c(1)] by (simp add: walk_ok_def)
qed

lemma walk_leave:
  assumes ok: "walk_ok g st path" and p: "p \<in> white g st"
    and s1: "s1 = enter_job p fr g st" and post: "walk_post g s1 s2"
    and all: "set (order_successors s1 p) \<subseteq> black g s2"
  shows "walk_post g st (leave_job p s2) \<and> p \<in> black g (leave_job p s2)"
proof -
  note c = enter_job_colours [OF p, where fr = fr, folded s1]
  have g: "p \<in> grey g s2" using post c(3) by (simp add: walk_post_def)
  note l = leave_job_colours [OF g]
  have j: "job_order s1 = job_order st" using same_eraseD(7) [OF c(1)] .
  have "loop_free (job_order st) (insert p (black g s2))"
  proof (rule loop_free_insert)
    show "loop_free (job_order st) (black g s2)" using post j by (simp add: walk_post_def)
    show "job_order st `` {p} \<subseteq> black g s2"
      using all same_eraseD(6) [OF c(1)] by (auto simp: job_order_def)
    show "p \<notin> black g s2" using g by (auto simp: colour_defs)
  qed
  moreover have "heap (leave_job p s2) q = heap st q" if "q \<in> grey g st" for q
  proof -
    have "q \<noteq> p" using that p by (auto simp: colour_defs)
    then show ?thesis using that post c(3,5) l(5) by (simp add: walk_post_def)
  qed
  moreover have "p \<notin> grey g st" using p by (auto simp: colour_defs)
  ultimately show ?thesis using post c l by (auto simp: walk_post_def)
qed

lemma walk_cycle:
  assumes ok: "walk_ok g st path" and p: "p \<in> grey g st"
    and e: "path \<noteq> [] \<Longrightarrow> (hd path, p) \<in> job_order st"
    and r: "break_cycle p (case path of [] \<Rightarrow> None | k # _ \<Rightarrow> Some k) g st = (r, st')"
  shows "\<exists>e. r = Inl e \<and> walk_fail st e st'"
proof -
  from ok p obtain k ks where path: "path = k # ks" by (cases path) (auto simp: walk_ok_def)
  have in_path: "p \<in> set path" and ch: "chain st path" and d: "distinct path"
    using ok p by (auto simp: walk_ok_def)
  define c where "c = takeWhile (\<lambda>q. q \<noteq> p) path @ [p]"
  have "set path \<subseteq> {..<next_job st}"
  proof
    fix x assume "x \<in> set path"
    then have "x \<in> grey g st" using ok by (simp add: walk_ok_def)
    then show "x \<in> {..<next_job st}" using ok by (auto simp: grey_def walk_ok_def wf_order_def)
  qed
  then have "length path \<le> next_job st"
    using d by (metis card_lessThan card_mono distinct_card finite_lessThan)
  moreover have "j_generation (job_at st q) = g" if "q \<in> set path" for q
  proof -
    have "q \<in> grey g st" using that ok by (simp add: walk_ok_def)
    then show ?thesis by (auto simp: grey_def)
  qed
  ultimately have "cycle_path (Suc (next_job st)) (Some k) p g st = c"
    using cycle_path_eq [of st k ks p "Suc (next_job st)" g] ch d in_path path by (simp add: c_def)
  then have r': "(case find (\<lambda>k. tr_get st (j_unit (job_at st k)) \<noteq> [] \<and> \<not> unit_matters_to_anchor st k) c of
      Some d \<Rightarrow> (Inl EAGAIN, transaction_delete_unit (j_unit (job_at st d)) st)
    | None \<Rightarrow> (Inl EDEADLK, st)) = (r, st')"
    using r by (simp only: break_cycle_def path list.case)
  have ne: "c \<noteq> []" by (simp add: c_def)
  have cyc: "(x, x) \<in> (job_order st)\<^sup>+" if x: "x \<in> set c" for x
  proof -
    obtain xs ys where s: "path = xs @ p # ys" "p \<notin> set xs" using in_path by (meson split_list_first)
    then have tw: "takeWhile (\<lambda>q. q \<noteq> p) path = xs" by (subst s(1), subst takeWhile_append2) auto
    have "(p, x) \<in> (job_order st)\<^sup>*"
      using x chain_split [of st xs p ys x] ch s tw by (auto simp: c_def)
    moreover have "(x, k) \<in> (job_order st)\<^sup>*"
      using chain_reaches [of st k ks x] ch path x in_path by (auto simp: c_def dest: set_takeWhileD split: if_splits)
    moreover have "(k, p) \<in> job_order st" using e path by simp
    ultimately show ?thesis by (meson rtrancl_into_trancl1 rtrancl_trancl_trancl trancl_rtrancl_trancl)
  qed
  show ?thesis
  proof (cases "find (\<lambda>k. tr_get st (j_unit (job_at st k)) \<noteq> [] \<and> \<not> unit_matters_to_anchor st k) c")
    case None
    then have "r = Inl EDEADLK" "st' = st" using r' by auto
    moreover have "\<forall>d \<in> set c. tr_get st (j_unit (job_at st d)) = [] \<or> unit_matters_to_anchor st d"
      using find_NoneD [OF None] by blast
    ultimately show ?thesis using cyc ne unfolding walk_fail_def by (intro exI [of _ EDEADLK]) blast
  next
    case (Some x)
    then have "r = Inl EAGAIN" "st' = transaction_delete_unit (j_unit (job_at st x)) st"
      using r' by auto
    moreover have "x \<in> set c" "tr_get st (j_unit (job_at st x)) \<noteq> []" "\<not> unit_matters_to_anchor st x"
      using find_SomeD [OF Some] by auto
    ultimately show ?thesis using cyc ne unfolding walk_fail_def by (intro exI [of _ EAGAIN]) blast
  qed
qed

section \<open>The walk\<close>

abbreviation path_from :: "jobp list \<Rightarrow> jobp option" where
  "path_from path \<equiv> (case path of [] \<Rightarrow> None | k # _ \<Rightarrow> Some k)"

definition one_ok :: "nat \<Rightarrow> nat \<Rightarrow> bool" where
  "one_ok n g \<longleftrightarrow>
     (\<forall>p path st. walk_ok g st path \<longrightarrow> heap st p \<noteq> None \<longrightarrow> card (white g st) < n \<longrightarrow>
        (path \<noteq> [] \<longrightarrow> (hd path, p) \<in> job_order st) \<longrightarrow>
        walk_result g st {p} (verify_order_one n p (path_from path) g st))"

lemma walk_resultE:
  assumes "walk_result g st Q x"
  obtains st' where "x = Some (Inr (), st')" "walk_post g st st'" "Q \<subseteq> black g st'"
    | e st' where "x = Some (Inl e, st')" "walk_fail st e st'"
proof -
  from assms obtain r st' where r: "x = Some (r, st')"
      "case r of Inr _ \<Rightarrow> walk_post g st st' \<and> Q \<subseteq> black g st' | Inl e \<Rightarrow> walk_fail st e st'"
    by (auto simp: walk_result_def)
  show thesis
  proof (cases r)
    case (Inl e)
    with r that(2) show ?thesis by simp
  next
    case (Inr u)
    with r that(1) show ?thesis by simp
  qed
qed

lemma verify_successors_ok:
  assumes "one_ok n g" "walk_ok g st (p # path)" "set qs \<subseteq> job_order st `` {p}" "card (white g st) < n"
  shows "walk_result g st (set qs) (verify_successors n qs p g st)"
  using assms(2-)
proof (induction qs arbitrary: st)
  case Nil
  then show ?case by (simp add: walk_result_def walk_post_refl)
next
  case (Cons q qs)
  have wf: "wf_order st" using Cons.prems(1) by (simp add: walk_ok_def)
  have q: "(p, q) \<in> job_order st" using Cons.prems(2) by simp
  then have "heap st q \<noteq> None" using wf by (auto simp: wf_order_def)
  then have "walk_result g st {q} (verify_order_one n q (Some p) g st)"
    using assms(1) Cons.prems(1,3) q unfolding one_ok_def
    by (metis (mono_tags, lifting) list.case(2) list.sel(1))
  then show ?case
  proof (cases rule: walk_resultE)
    case (1 st')
    have e: "erase st' = erase st" using 1(2) by (simp add: walk_post_def)
    have "walk_result g st' (set qs) (verify_successors n qs p g st')"
      using Cons.prems card_white_mono [OF wf 1(2)] walk_ok_post [OF Cons.prems(1) 1(2)] same_eraseD(7) [OF e]
      by (intro Cons.IH) auto
    then show ?thesis
    proof (cases rule: walk_resultE)
      case post: (1 st2)
      have "q \<in> black g st2" using 1(3) post(2) by (auto simp: walk_post_def)
      then show ?thesis
        using 1 post walk_post_trans [OF 1(2) post(2)] by (simp add: walk_result_def)
    next
      case (2 e' st2)
      then show ?thesis using 1 walk_fail_erase [OF e] by (simp add: walk_result_def)
    qed
  next
    case (2 e st')
    then show ?thesis by (simp add: walk_result_def)
  qed
qed

lemma verify_order_one_Suc:
  assumes "one_ok n g"
  shows "one_ok (Suc n) g"
  unfolding one_ok_def
proof (intro allI impI)
  fix p path st
  assume ok: "walk_ok g st path" and p: "heap st p \<noteq> None" and c: "card (white g st) < Suc n"
    and e: "path \<noteq> [] \<longrightarrow> (hd path, p) \<in> job_order st"
  consider (white) "p \<in> white g st" | (black) "p \<in> black g st" | (grey) "p \<in> grey g st"
    using p unfolding colour_defs by blast
  then show "walk_result g st {p} (verify_order_one (Suc n) p (path_from path) g st)"
  proof cases
    case black
    then have "verify_order_one (Suc n) p (path_from path) g st = Some (Inr (), st)"
      by (auto simp: black_def)
    then show ?thesis using black walk_post_refl [OF ok] by (simp add: walk_result_def)
  next
    case grey
    then have "verify_order_one (Suc n) p (path_from path) g st = Some (break_cycle p (path_from path) g st)"
      by (auto simp: grey_def)
    moreover obtain r st' where "break_cycle p (path_from path) g st = (r, st')" by fastforce
    ultimately show ?thesis
      using walk_cycle [OF ok grey] e by (auto simp: walk_result_def)
  next
    case white
    let ?s = "enter_job p (path_from path) g st"
    note ec = enter_job_colours [OF white, where fr = "path_from path"]
    have ok1: "walk_ok g ?s (p # path)" using walk_enter [OF ok white] e by simp
    have "finite (white g st)" using ok by (simp add: walk_ok_def finite_white)
    then have "card (white g ?s) < n" using c white ec(2) by (simp add: card_Diff_singleton) (metis card_gt_0_iff empty_iff Suc_pred less_Suc_eq_le less_eq_Suc_le)
    moreover have "set (order_successors ?s p) \<subseteq> job_order ?s `` {p}"
      using p same_eraseD(4) [OF ec(1), of p] by (auto simp: job_order_def)
    ultimately have r: "walk_result g ?s (set (order_successors ?s p))
        (verify_successors n (order_successors ?s p) p g ?s)"
      using verify_successors_ok [OF assms ok1] by blast
    have v: "verify_order_one (Suc n) p (path_from path) g st =
        (case verify_successors n (order_successors ?s p) p g ?s of
           Some (Inr _, st2) \<Rightarrow> Some (Inr (), leave_job p st2) | r \<Rightarrow> r)"
      using white by (auto simp: white_def Let_def)
    from r show ?thesis
    proof (cases rule: walk_resultE)
      case (1 st2)
      then show ?thesis
        unfolding v using walk_leave [OF ok white refl 1(2,3)] by (simp add: walk_result_def)
    next
      case (2 x st2)
      then show ?thesis unfolding v using walk_fail_erase [OF ec(1)] by (simp add: walk_result_def)
    qed
  qed
qed

lemma verify_order_one_ok: "one_ok n g"
proof (induction n)
  case 0
  show ?case by (simp add: one_ok_def)
qed (rule verify_order_one_Suc)

lemma verify_heads_ok:
  assumes "walk_ok g st []" "\<And>p. p \<in> set ps \<Longrightarrow> heap st p \<noteq> None" "card (white g st) < n"
  shows "walk_result g st (set ps) (verify_heads n ps g st)"
  using assms
proof (induction ps arbitrary: st)
  case Nil
  then show ?case by (simp add: walk_result_def walk_post_refl)
next
  case (Cons p ps)
  have wf: "wf_order st" using Cons.prems(1) by (simp add: walk_ok_def)
  have "walk_result g st {p} (verify_order_one n p None g st)"
    using verify_order_one_ok [of n g] Cons.prems unfolding one_ok_def
    by (metis (mono_tags, lifting) list.case(1) list.set_intros(1))
  then show ?case
  proof (cases rule: walk_resultE)
    case (1 st')
    have e: "erase st' = erase st" using 1(2) by (simp add: walk_post_def)
    have "walk_result g st' (set ps) (verify_heads n ps g st')"
      using Cons.prems card_white_mono [OF wf 1(2)] walk_ok_post [OF Cons.prems(1) 1(2)] same_eraseD(4) [OF e]
      by (intro Cons.IH) auto
    then show ?thesis
    proof (cases rule: walk_resultE)
      case post: (1 st2)
      have "p \<in> black g st2" using 1(3) post(2) by (auto simp: walk_post_def)
      then show ?thesis
        using 1 post walk_post_trans [OF 1(2) post(2)] by (simp add: walk_result_def)
    next
      case (2 e' st2)
      then show ?thesis using 1 walk_fail_erase [OF e] by (simp add: walk_result_def)
    qed
  next
    case (2 e st')
    then show ?thesis by (simp add: walk_result_def)
  qed
qed

section \<open>The outcome of the search\<close>

text \<open>The state in which the search starts: no job carries its generation yet.\<close>

definition fresh_walk :: "nat \<Rightarrow> sys \<Rightarrow> bool" where
  "fresh_walk g st \<longleftrightarrow>
     wf_trans {} st \<and> wf_units st \<and>
     (\<forall>p j. heap st p = Some j \<longrightarrow> p < next_job st \<and> j_generation j \<noteq> g)"

lemma job_orderD: "(p, q) \<in> job_order st \<Longrightarrow> \<exists>u. order_job st u = Some q"
  by (auto simp: job_order_def order_successors_def Let_def List.map_filter_def)

lemma order_job_head:
  assumes "wf_trans {} st" "wf_units st" "order_job st u = Some q"
  shows "j_unit (job_at st q) = u" "tr_get st u \<noteq> [] \<Longrightarrow> hd (tr_get st u) = q" "heap st q \<noteq> None"
proof -
  have "j_unit (job_at st q) = u \<and> (tr_get st u \<noteq> [] \<longrightarrow> hd (tr_get st u) = q) \<and> heap st q \<noteq> None"
  proof (cases "tr_get st u")
    case Nil
    then have "u_job (units st u) = Some q" using assms(3) by (simp add: order_job_def)
    then obtain j where "heap st q = Some j" "j_unit j = u" using assms(2) unfolding wf_units_def by blast
    then show ?thesis using Nil by simp
  next
    case (Cons k ks)
    then have "map_of (tr_jobs st) u = Some (k # ks)"
      by (cases "map_of (tr_jobs st) u") (simp_all add: tr_get_def)
    then have e: "(u, k # ks) \<in> set (tr_jobs st)" by (rule map_of_SomeD)
    have q: "q = k" using assms(3) Cons by (simp add: order_job_def)
    then have "q \<in> set (k # ks)" by simp
    then obtain j where "heap st q = Some j" "j_unit j = u" by (rule same_unit [OF assms(1) e])
    then show ?thesis using Cons q by simp
  qed
  then show "j_unit (job_at st q) = u" "tr_get st u \<noteq> [] \<Longrightarrow> hd (tr_get st u) = q" "heap st q \<noteq> None"
    by auto
qed

lemma tr_get_in_tr_set:
  assumes "p \<in> set (tr_get st u)"
  shows "p \<in> tr_set st"
proof (cases "map_of (tr_jobs st) u")
  case None
  then show ?thesis using assms by (simp add: tr_get_def)
next
  case (Some js)
  then have "(u, js) \<in> set (tr_jobs st)" by (rule map_of_SomeD)
  moreover have "p \<in> set js" using Some assms by (simp add: tr_get_def)
  ultimately show ?thesis unfolding tr_set_def by blast
qed

lemma unit_not_mattering:
  assumes "wf_trans {} st" "wf_units st" "(k, k) \<in> (job_order st)\<^sup>+" "\<not> unit_matters_to_anchor st k"
    and "p \<in> set (tr_get st (j_unit (job_at st k)))"
  shows "\<not> j_matters_to_anchor (job_at st p)"
proof -
  obtain x where "(x, k) \<in> job_order st" using tranclD2 [OF assms(3)] by blast
  then obtain u where "order_job st u = Some k" using job_orderD by blast
  note h = order_job_head [OF assms(1,2) this]
  have "tr_get st u \<noteq> []" using assms(5) h(1) by auto
  with h have "jobs_from st k = tr_get st u" by (cases "tr_get st u") (auto simp: jobs_from_def)
  then show ?thesis using assms(4,5) h(1) by (auto simp: unit_matters_to_anchor_def list_ex_iff)
qed

lemma wf_trans_erase: "wf_trans {} (erase st) = wf_trans {} st"
proof -
  have "(\<exists>j. heap (erase st) p = Some j \<and> j_unit j = u \<and> \<not> j_installed j \<and> \<not> j_in_run_queue j \<and>
      \<not> j_in_dbus_queue j \<and> \<not> j_in_gc_queue j) =
    (\<exists>j. heap st p = Some j \<and> j_unit j = u \<and> \<not> j_installed j \<and> \<not> j_in_run_queue j \<and>
      \<not> j_in_dbus_queue j \<and> \<not> j_in_gc_queue j)" for p u
    by (cases "heap st p") (simp_all add: erase_def)
  then have "tr_entry_ok (erase st) e = tr_entry_ok st e" for e by (simp add: tr_entry_ok_def)
  then show ?thesis by (simp add: wf_trans_def wf_links_def tr_set_def)
qed

lemma needs_erase: "needs (erase st) = needs st" and tr_set_erase: "tr_set (erase st) = tr_set st"
  by (simp_all add: needs_def tr_set_def)

lemma order_successors_in_heap:
  assumes "wf_trans {} st" "wf_units st" "(p, q) \<in> job_order st"
  shows "heap st q \<noteq> None"
  using job_orderD [OF assms(3)] order_job_head(3) [OF assms(1,2)] by blast

lemma fresh_walk_ok: "fresh_walk g st \<Longrightarrow> walk_ok g st []"
proof -
  assume f: "fresh_walk g st"
  then have "wf_order st"
    using order_successors_in_heap [of st] by (auto simp: wf_order_def fresh_walk_def)
  moreover have "grey g st = {}" "black g st = {}" using f by (auto simp: fresh_walk_def colour_defs)
  ultimately show ?thesis by (simp add: walk_ok_def loop_free_def)
qed

lemma verify_order_result:
  assumes "fresh_walk g st"
  shows "walk_result g st ((hd \<circ> snd) ` set (tr_jobs st)) (transaction_verify_order g st)"
proof -
  have "walk_ok g st []" using assms by (rule fresh_walk_ok)
  moreover have "heap st p \<noteq> None" if "p \<in> set (map (hd \<circ> snd) (tr_jobs st))" for p
  proof -
    have w: "wf_trans {} st" using assms by (simp add: fresh_walk_def)
    then have "p \<in> tr_set st" using that wf_heads [OF w] by auto
    then show ?thesis using tr_set_entry [OF w] by blast
  qed
  moreover have "card (white g st) < Suc (next_job st)"
  proof -
    have "white g st \<subseteq> {..<next_job st}" using assms by (auto simp: fresh_walk_def white_def)
    then have "card (white g st) \<le> card {..<next_job st}" by (intro card_mono) auto
    then show ?thesis by simp
  qed
  ultimately show ?thesis
    using verify_heads_ok [of g st "map (hd \<circ> snd) (tr_jobs st)"] by (simp add: transaction_verify_order_def)
qed

text \<open>
  C12.  If the search for ordering cycles succeeds, there is none: no job that the first job of a
  unit of the transaction runs before, directly or through others, installed jobs included, runs
  before itself.  The search leaves nothing behind but its marks.
\<close>

theorem verify_order_acyclic:
  assumes "fresh_walk g st" "transaction_verify_order g st = Some (Inr r, st')"
  shows "erase st' = erase st \<and>
    (\<forall>(u, js) \<in> set (tr_jobs st). \<forall>p. (hd js, p) \<in> (job_order st)\<^sup>* \<longrightarrow> (p, p) \<notin> (job_order st)\<^sup>+)"
proof -
  have post: "walk_post g st st'" "(hd \<circ> snd) ` set (tr_jobs st) \<subseteq> black g st'"
    using verify_order_result [OF assms(1)] assms(2) by (auto simp: walk_result_def)
  have lf: "loop_free (job_order st) (black g st')" using post(1) by (simp add: walk_post_def)
  have "(p, p) \<notin> (job_order st)\<^sup>+" if e: "(u, js) \<in> set (tr_jobs st)" "(hd js, p) \<in> (job_order st)\<^sup>*" for u js p
  proof -
    have "hd js \<in> black g st'" using post(2) e(1) by force
    then have "p \<in> black g st'"
      using Image_closed_trancl [of "job_order st" "black g st'"] lf e(2) by (auto simp: loop_free_def)
    then show ?thesis using lf by (simp add: loop_free_def)
  qed
  then show ?thesis using post(1) by (auto simp: walk_post_def)
qed

text \<open>Unit 20 is ordered before unit 21, whose dependencies are given.\<close>

definition ex_order :: "dependencies \<Rightarrow> sys" where
  "ex_order deps = ex_tr
     \<lparr>heap := [11 \<mapsto> (plain_job 20 JOB_START)\<lparr>j_matters_to_anchor := True\<rparr>,
               12 \<mapsto> (plain_job 21 JOB_START)\<lparr>j_matters_to_anchor := True\<rparr>,
               13 \<mapsto> plain_job 22 JOB_STOP, 14 \<mapsto> plain_job 23 JOB_START],
      units := (\<lambda>_. plain_unit)(20 := plain_unit\<lparr>u_dependencies := [(UNIT_BEFORE, [21])]\<rparr>,
                               21 := plain_unit\<lparr>u_dependencies := deps\<rparr>)\<rparr>"

lemma fresh_ex_order: "fresh_walk 7 (ex_order deps)"
proof -
  have "wf_units (ex_order deps)" by (simp add: wf_units_def ex_order_def plain_unit_def)
  then show ?thesis
    by (simp add: fresh_walk_def wf_trans_def ex_order_def ex_tr_def idle_sys_def tr_entry_ok_def
        wf_links_def tr_set_def plain_job_def)
qed

lemma ex_order_views:
  "tr_set (ex_order deps) = {11, 12, 13, 14}" "needs (ex_order deps) = {(14, 13), (11, 12)}"
  "tr_jobs (ex_order deps) = [(20, [11]), (21, [12]), (22, [13]), (23, [14])]"
  using tr_set_ex_tr needs_ex_tr by (simp_all add: tr_set_def needs_def ex_order_def) (simp add: ex_tr_def)

lemma ex_order_at:
  "tr_get (ex_order deps) 20 = [11]" "tr_get (ex_order deps) 21 = [12]"
  "heap (ex_order deps) 11 = Some ((plain_job 20 JOB_START)\<lparr>j_matters_to_anchor := True\<rparr>)"
  "heap (ex_order deps) 12 = Some ((plain_job 21 JOB_START)\<lparr>j_matters_to_anchor := True\<rparr>)"
  "heap (ex_order deps) 13 = Some (plain_job 22 JOB_STOP)"
  "heap (ex_order deps) 14 = Some (plain_job 23 JOB_START)"
  "u_dependencies (units (ex_order deps) 20) = [(UNIT_BEFORE, [21])]"
  "u_dependencies (units (ex_order deps) 21) = deps"
  "u_dependencies (units (ex_order deps) 22) = []" "u_dependencies (units (ex_order deps) 23) = []"
  by (simp_all add: tr_get_def ex_order_views) (simp_all add: ex_order_def plain_unit_def)

lemma ex_order_heap: "heap (ex_order deps) p \<noteq> None \<longleftrightarrow> p \<in> {11, 12, 13, 14}"
  by (auto simp: ex_order_def)

lemma ex_order_successors:
  "order_successors (ex_order deps) 11 = [12]" "order_successors (ex_order deps) 13 = []"
  "order_successors (ex_order deps) 14 = []"
  by (simp_all add: order_successors_def ex_order_at plain_job_def foreach_order List.map_filter_def
      order_job_def job_compare_eq)

lemma ex_order_sequence: "job_order (ex_order [(UNIT_AFTER, [20])]) = {(11, 12)}"
proof -
  have "order_successors (ex_order [(UNIT_AFTER, [20])]) 12 = []"
    by (simp add: order_successors_def ex_order_at plain_job_def foreach_order List.map_filter_def
        order_job_def job_compare_eq)
  then show ?thesis
    unfolding job_order_def ex_order_heap by (auto simp: ex_order_successors)
qed

theorem verify_order_acyclic_witness:
  "\<exists>st'. transaction_verify_order 7 (ex_order [(UNIT_AFTER, [20])]) = Some (Inr (), st') \<and>
     erase st' = erase (ex_order [(UNIT_AFTER, [20])])"
proof -
  let ?st = "ex_order [(UNIT_AFTER, [20])]"
  have "(p, p) \<notin> (job_order ?st)\<^sup>+" for p
    using trancl_id [of "{(11 :: jobp, 12 :: jobp)}"] by (simp add: ex_order_sequence trans_def)
  then have "\<not> walk_fail ?st e st'" for e st'
    unfolding walk_fail_def by (metis list.set_intros(1) neq_Nil_conv)
  then obtain st' where st': "transaction_verify_order 7 ?st = Some (Inr (), st')"
    using verify_order_result [OF fresh_ex_order, of "[(UNIT_AFTER, [20])]"]
    by (auto elim: walk_resultE)
  then show ?thesis using verify_order_acyclic [OF fresh_ex_order st'] by blast
qed



section \<open>The order of the units\<close>

text \<open>\<open>(u, v)\<close>: unit \<open>u\<close> is ordered before unit \<open>v\<close>, by a setting of the one or of the other.\<close>

definition unit_order :: "sys \<Rightarrow> (unitp \<times> unitp) set" where
  "unit_order st =
     {(u, v). v \<in> set (UNIT_FOREACH_DEPENDENCY (u_dependencies (units st u)) UNIT_ATOM_BEFORE) \<or>
        u \<in> set (UNIT_FOREACH_DEPENDENCY (u_dependencies (units st v)) UNIT_ATOM_AFTER)}"

definition stopping :: "sys \<Rightarrow> jobp \<Rightarrow> bool" where
  "stopping st p \<longleftrightarrow> j_type (job_at st p) \<in> {JOB_STOP, JOB_RESTART}"

lemma job_order_step:
  assumes "wf_trans {} st" "wf_units st" "(p, q) \<in> job_order st"
  shows "(j_unit (job_at st p), j_unit (job_at st q)) \<in> unit_order st \<and> \<not> stopping st q \<or>
    (j_unit (job_at st q), j_unit (job_at st p)) \<in> unit_order st \<and> stopping st p"
proof -
  let ?deps = "UNIT_FOREACH_DEPENDENCY (u_dependencies (units st (j_unit (job_at st p))))"
  have "q \<in> set (order_successors st p)" using assms(3) by (simp add: job_order_def)
  then obtain d v where d: "d \<in> {UNIT_ATOM_BEFORE, UNIT_ATOM_AFTER}" "v \<in> set (?deps d)" "order_job st v = Some q"
      "job_compare (job_at st p) (job_at st q) d < 0"
    by (auto simp: order_successors_def Let_def List.map_filter_def) blast+
  have v: "j_unit (job_at st q) = v" using order_job_head(1) [OF assms(1,2) d(3)] .
  show ?thesis
  proof (cases "d = UNIT_ATOM_AFTER")
    case True
    then show ?thesis using d v by (auto simp: unit_order_def stopping_def job_compare_eq split: if_splits)
  next
    case False
    then show ?thesis using d v by (auto simp: unit_order_def stopping_def job_compare_eq split: if_splits)
  qed
qed

text \<open>
  Among jobs that do not stop anything the order of the jobs is that of the units, among the others
  it is the reverse; and no job that stops a unit comes after one that does not.
\<close>

lemma job_order_path:
  assumes "wf_trans {} st" "wf_units st" "(p, q) \<in> (job_order st)\<^sup>+"
  shows "\<not> stopping st p \<Longrightarrow> \<not> stopping st q \<and> (j_unit (job_at st p), j_unit (job_at st q)) \<in> (unit_order st)\<^sup>+"
    and "stopping st q \<Longrightarrow> stopping st p \<and> (j_unit (job_at st q), j_unit (job_at st p)) \<in> (unit_order st)\<^sup>+"
proof -
  show "\<not> stopping st q \<and> (j_unit (job_at st p), j_unit (job_at st q)) \<in> (unit_order st)\<^sup>+" if "\<not> stopping st p"
    using assms(3)
  proof (induction rule: trancl_induct)
    case (base q)
    then show ?case using job_order_step [OF assms(1,2) base] that by auto
  next
    case (step q r)
    then have "(j_unit (job_at st q), j_unit (job_at st r)) \<in> unit_order st" "\<not> stopping st r"
      using job_order_step [OF assms(1,2) step.hyps(2)] by auto
    then show ?case using step.IH by (meson trancl_into_trancl)
  qed
  show "stopping st p \<and> (j_unit (job_at st q), j_unit (job_at st p)) \<in> (unit_order st)\<^sup>+" if "stopping st q"
    using assms(3)
  proof (induction rule: converse_trancl_induct)
    case (base p)
    then show ?case using job_order_step [OF assms(1,2) base] that by auto
  next
    case (step p r)
    then have "(j_unit (job_at st r), j_unit (job_at st p)) \<in> unit_order st" "stopping st p"
      using job_order_step [OF assms(1,2) step.hyps(1)] by auto
    then show ?case using step.IH by (meson trancl_into_trancl)
  qed
qed

lemma job_order_acyclic:
  assumes "wf_trans {} st" "wf_units st" "acyclic (unit_order st)"
  shows "acyclic (job_order st)"
  unfolding acyclic_def
proof (intro allI notI)
  fix k assume "(k, k) \<in> (job_order st)\<^sup>+"
  then have "(j_unit (job_at st k), j_unit (job_at st k)) \<in> (unit_order st)\<^sup>+"
    using job_order_path [OF assms(1,2)] by blast
  then show False using assms(3) by (auto simp: acyclic_def)
qed

text \<open>
  C26.  Units that are ordered without a cycle never make a transaction fail: whatever mix of jobs
  starts and stops them, the search finds no cycle among the jobs and leaves the transaction as it
  is, whether the orderings are set with Before= or with After=.
\<close>

theorem verify_order_accepts:
  assumes "fresh_walk g st" "acyclic (unit_order st)"
  shows "\<exists>st'. transaction_verify_order g st = Some (Inr (), st') \<and> erase st' = erase st \<and> acyclic (job_order st')"
proof -
  note w = assms(1) [unfolded fresh_walk_def]
  have a: "acyclic (job_order st)" using job_order_acyclic [OF _ _ assms(2)] w by blast
  then have "\<not> walk_fail st e st'" for e st'
    unfolding walk_fail_def acyclic_def by (metis list.set_intros(1) neq_Nil_conv)
  then obtain st' where st': "transaction_verify_order g st = Some (Inr (), st')" "walk_post g st st'"
    using verify_order_result [OF assms(1)] by (auto elim: walk_resultE)
  then have "erase st' = erase st" by (simp add: walk_post_def)
  then show ?thesis using st'(1) a same_eraseD(7) [of st' st] by auto
qed

theorem verify_order_accepts_witness:
  "acyclic (unit_order (ex_order [(UNIT_AFTER, [20])])) \<and>
   (\<exists>st'. transaction_verify_order 7 (ex_order [(UNIT_AFTER, [20])]) = Some (Inr (), st'))"
proof -
  have "unit_order (ex_order [(UNIT_AFTER, [20])]) \<subseteq> {(u, v). u < v}"
    by (auto simp: unit_order_def ex_order_def plain_unit_def foreach_order split: if_splits)
  then have "acyclic (unit_order (ex_order [(UNIT_AFTER, [20])]))"
    by (rule acyclic_subset [rotated]) (auto intro: wf_acyclic wf_less)
  then show ?thesis using verify_order_accepts [OF fresh_ex_order] by blast
qed

end
