(* ===== verification/Transaction_Build.thy ===== *)
theory Transaction_Build
  imports Transaction_Delete
begin

text \<open>
  Building a transaction (\<open>src/core/transaction.c\<close>): \<open>transaction_add_one_job\<close>,
  \<open>transaction_add_job_and_dependencies\<close> and the functions that call it.

  \<^item> The fuel bounds the depth of nested calls; running out of it is \<open>None\<close>, as is a failed
    \<open>assert()\<close>.
  \<^item> \<open>ld st u\<close> stands for \<open>manager_unit_cache_should_retry_load\<close> and \<open>unit_load\<close>, which look at the
    file system: \<open>None\<close> when no retry is due, and otherwise whether loading succeeded, and the unit
    after it.
  \<^item> The manager is not reloading, so units are not cold-plugged on the way, and memory suffices.
\<close>

section \<open>Operations\<close>

type_synonym loader = "sys \<Rightarrow> unitp \<Rightarrow> (bool \<times> unit_rec) option"

definition transaction_new :: "bool \<Rightarrow> sys \<Rightarrow> sys" where
  "transaction_new irreversible st = st\<lparr>tr_jobs := [], tr_anchor := None, tr_irreversible := irreversible\<rparr>"

text \<open>The job, and whether it is new.\<close>

definition transaction_add_one_job :: "job_type \<Rightarrow> unitp \<Rightarrow> sys \<Rightarrow> jobp \<times> bool \<times> sys" where
  "transaction_add_one_job t u st =
     (case find (\<lambda>p. j_type (job_at st p) = t) (tr_get st u) of
        Some p \<Rightarrow> (p, False, st)
      | None \<Rightarrow>
          (let (p, st) = job_new u t st;
               st = upd_job p (\<lambda>j. j\<lparr>j_generation := 0, j_marker := None, j_matters_to_anchor := False,
                                     j_irreversible := tr_irreversible st\<rparr>) st
           in (p, True, st\<lparr>tr_jobs := AList.update u (p # tr_get st u) (tr_jobs st)\<rparr>)))"

text \<open>Whether the unit is in a state to get a job: the checks before the job is added.\<close>

definition check_unit :: "loader \<Rightarrow> job_type \<Rightarrow> unitp \<Rightarrow> sys \<Rightarrow> (err + unit) \<times> sys" where
  "check_unit ld t u st =
     (if \<not> UNIT_IS_LOAD_COMPLETE (u_load_state (units st u)) then (Inl EIO, st)
      else
        let (r, st) =
          (if t = JOB_STOP then (Inr (), st)
           else
             case bus_unit_validate_load_state (units st u) of
               Inr _ \<Rightarrow> (Inr (), st)
             | Inl e \<Rightarrow>
                 (case ld st u of
                    None \<Rightarrow> (Inl e, st)
                  | Some (loaded, v) \<Rightarrow>
                      let st = upd_unit u (\<lambda>_. if \<not> loaded \<or> u_load_state v = UNIT_STUB
                                               then v\<lparr>u_load_state := UNIT_NOT_FOUND\<rparr> else v) st
                      in (bus_unit_validate_load_state (units st u), st)))
        in case r of
             Inl e \<Rightarrow> (Inl e, st)
           | Inr _ \<Rightarrow> if \<not> unit_job_is_applicable (units st u) t then (Inl EBADR, st) else (Inr (), st))"

text \<open>The units a type is propagated to, with the type that remains for the unit's state.\<close>

definition collapsed :: "sys \<Rightarrow> job_type \<Rightarrow> unitp list \<Rightarrow> (job_type \<times> unitp) list" where
  "collapsed st t us =
     filter (\<lambda>(nt, u). nt \<noteq> JOB_NOP) (map (\<lambda>u. (job_type_collapse t (u_active_state (units st u)), u)) us)"

text \<open>
  One loop over dependencies: the jobs to add, whether a failure is ignored, whether the
  dependency matters, and whether it is a conflict.
\<close>

type_synonym pull = "(job_type \<times> unitp) list \<times> bool \<times> bool \<times> bool"

definition dep_pulls :: "sys \<Rightarrow> job_type \<Rightarrow> unitp \<Rightarrow> pull list" where
  "dep_pulls st t u =
     (let deps = (\<lambda>atom. UNIT_FOREACH_DEPENDENCY (u_dependencies (units st u)) atom);
          all = (\<lambda>nt us. map (\<lambda>v. (nt, v)) us)
      in
        [(all t (u_following_set (units st u)), True, False, False)] @
        (if t \<in> {JOB_START, JOB_RESTART} then
           [(all JOB_START (deps UNIT_ATOM_PULL_IN_START), False, True, False),
            (all JOB_START (deps UNIT_ATOM_PULL_IN_START_IGNORED), True, False, False),
            (all JOB_VERIFY_ACTIVE (deps UNIT_ATOM_PULL_IN_VERIFY), False, True, False),
            (all JOB_STOP (deps UNIT_ATOM_PULL_IN_STOP), False, True, True),
            (all JOB_STOP (deps UNIT_ATOM_PULL_IN_STOP_IGNORED), True, False, False)]
         else []) @
        (if t = JOB_RESTART then
           [(collapsed st JOB_TRY_RESTART (deps UNIT_ATOM_PROPAGATE_RESTART), False, True, False)]
         else if t = JOB_STOP then
           [(collapsed st JOB_STOP (deps UNIT_ATOM_PROPAGATE_STOP), False, True, False)]
         else []) @
        (if t = JOB_RELOAD then
           [(collapsed st JOB_TRY_RELOAD (deps UNIT_ATOM_PROPAGATES_RELOAD_TO), True, False, False)]
         else []))"

text \<open>The job itself with its link, once the checks have passed.\<close>

definition add_linked_job ::
    "job_type \<Rightarrow> unitp \<Rightarrow> jobp option \<Rightarrow> bool \<Rightarrow> bool \<Rightarrow> bool \<Rightarrow> sys \<Rightarrow> (jobp \<times> bool \<times> sys) option" where
  "add_linked_job t u by matters conflicts ignore_order st =
     (let (p, is_new, st) = transaction_add_one_job t u st;
          st = upd_job p (\<lambda>j. j\<lparr>j_ignore_order := j_ignore_order j \<or> ignore_order\<rparr>) st
      in case by of
           Some k \<Rightarrow> Some (p, is_new, job_dependency_new (Some k) p matters conflicts st)
         | None \<Rightarrow> if tr_anchor st \<noteq> None then None else Some (p, is_new, st\<lparr>tr_anchor := Some p\<rparr>))"

function transaction_add_job_and_dependencies ::
    "nat \<Rightarrow> loader \<Rightarrow> job_type \<Rightarrow> unitp \<Rightarrow> jobp option \<Rightarrow> bool \<Rightarrow> bool \<Rightarrow> bool \<Rightarrow> bool \<Rightarrow> sys \<Rightarrow>
     ((err + unit) \<times> sys) option"
  and add_pulls :: "nat \<Rightarrow> loader \<Rightarrow> pull list \<Rightarrow> jobp \<Rightarrow> bool \<Rightarrow> sys \<Rightarrow> ((err + unit) \<times> sys) option" where
  "transaction_add_job_and_dependencies 0 ld t u by matters conflicts ignore_requirements ignore_order st = None"
| "transaction_add_job_and_dependencies (Suc n) ld t u by matters conflicts ignore_requirements ignore_order st =
     (if job_type_value t \<ge> JOB_TYPE_MAX_IN_TRANSACTION then None
      else
        case check_unit ld t u st of
          (Inl e, st) \<Rightarrow> Some (Inl e, st)
        | (Inr _, st) \<Rightarrow> do {
            (p, is_new, st) \<leftarrow> add_linked_job t u by matters conflicts ignore_order st;
            if is_new \<and> \<not> ignore_requirements \<and> t \<noteq> JOB_NOP
            then add_pulls n ld (dep_pulls st t u) p ignore_order st
            else Some (Inr (), st)
          })"
| "add_pulls n ld [] p ignore_order st = Some (Inr (), st)"
| "add_pulls n ld (([], ignored, matters, conflicts) # pulls) p ignore_order st =
     add_pulls n ld pulls p ignore_order st"
| "add_pulls n ld (((t, u) # tus, ignored, matters, conflicts) # pulls) p ignore_order st = do {
     (r, st) \<leftarrow> transaction_add_job_and_dependencies n ld t u (Some p) matters conflicts False ignore_order st;
     case r of
       Inr _ \<Rightarrow> add_pulls n ld ((tus, ignored, matters, conflicts) # pulls) p ignore_order st
     | Inl e \<Rightarrow>
         if ignored \<or> e = EBADR then add_pulls n ld ((tus, ignored, matters, conflicts) # pulls) p ignore_order st
         else Some (Inl e, st)
   }"
  by pat_completeness auto
termination
  by (relation "measures [\<lambda>x. case x of Inl (n, _) \<Rightarrow> n | Inr (n, _) \<Rightarrow> n,
        \<lambda>x. case x of Inl _ \<Rightarrow> 0 | Inr (n, ld, pulls, _) \<Rightarrow> Suc (length pulls + (\<Sum>q\<leftarrow>pulls. length (fst q)))]") auto

definition transaction_add_propagate_reload_jobs ::
    "nat \<Rightarrow> loader \<Rightarrow> unitp \<Rightarrow> jobp \<Rightarrow> bool \<Rightarrow> sys \<Rightarrow> ((err + unit) \<times> sys) option" where
  "transaction_add_propagate_reload_jobs n ld u by ignore_order st =
     add_pulls n ld
       [(collapsed st JOB_TRY_RELOAD
           (UNIT_FOREACH_DEPENDENCY (u_dependencies (units st u)) UNIT_ATOM_PROPAGATES_RELOAD_TO),
         True, False, False)] by ignore_order st"

definition shall_stop_on_isolate :: "sys \<Rightarrow> unitp \<Rightarrow> bool" where
  "shall_stop_on_isolate st u =
     (if u_ignore_on_isolate (units st u) then False
      else if tr_get st u \<noteq> [] then False
      else True)"

fun add_isolate_jobs :: "nat \<Rightarrow> loader \<Rightarrow> unitp list \<Rightarrow> sys \<Rightarrow> sys option" where
  "add_isolate_jobs n ld [] st = Some st"
| "add_isolate_jobs n ld (u # us) st =
     (if UNIT_IS_INACTIVE_OR_FAILED (u_active_state (units st u)) \<and> u_job (units st u) = None
      then add_isolate_jobs n ld us st
      else if \<not> shall_stop_on_isolate st u then add_isolate_jobs n ld us st
      else if list_ex (\<lambda>v. \<not> shall_stop_on_isolate st v)
           (UNIT_FOREACH_DEPENDENCY (u_dependencies (units st u)) UNIT_ATOM_TRIGGERED_BY)
      then add_isolate_jobs n ld us st
      else do {
        (r, st) \<leftarrow> transaction_add_job_and_dependencies n ld JOB_STOP u (tr_anchor st) True False False False st;
        add_isolate_jobs n ld us st
      })"

text \<open>The units of the manager, each under its own name, in iteration order.\<close>

definition transaction_add_isolate_jobs :: "nat \<Rightarrow> loader \<Rightarrow> sys \<Rightarrow> sys option" where
  "transaction_add_isolate_jobs n ld st = add_isolate_jobs n ld (unit_list st) st"

fun add_triggering_jobs :: "nat \<Rightarrow> loader \<Rightarrow> unitp list \<Rightarrow> sys \<Rightarrow> sys option" where
  "add_triggering_jobs n ld [] st = Some st"
| "add_triggering_jobs n ld (u # us) st =
     (if UNIT_IS_INACTIVE_OR_FAILED (u_active_state (units st u)) \<and> u_job (units st u) = None
      then add_triggering_jobs n ld us st
      else if tr_get st u \<noteq> [] then add_triggering_jobs n ld us st
      else do {
        (r, st) \<leftarrow> transaction_add_job_and_dependencies n ld JOB_STOP u (tr_anchor st) True False False False st;
        add_triggering_jobs n ld us st
      })"

definition transaction_add_triggering_jobs :: "nat \<Rightarrow> loader \<Rightarrow> unitp \<Rightarrow> sys \<Rightarrow> sys option" where
  "transaction_add_triggering_jobs n ld u st =
     add_triggering_jobs n ld
       (UNIT_FOREACH_DEPENDENCY (u_dependencies (units st u)) UNIT_ATOM_TRIGGERED_BY) st"

section \<open>What building a transaction changes\<close>

definition wf_build :: "sys \<Rightarrow> bool" where
  "wf_build st \<longleftrightarrow> wf_trans {} st \<and> (\<forall>p. heap st p \<noteq> None \<longrightarrow> p < next_job st)"

text \<open>
  Jobs are only added; of the jobs that exist only the flag to ignore the order may change, and
  the installed jobs and their queues are left alone.
\<close>

definition extends :: "sys \<Rightarrow> sys \<Rightarrow> bool" where
  "extends st st' \<longleftrightarrow>
     (\<forall>p j. heap st p = Some j \<longrightarrow> (\<exists>b. heap st' p = Some (j\<lparr>j_ignore_order := b\<rparr>) \<and> (p \<notin> tr_set st' \<longrightarrow> b = j_ignore_order j))) \<and>
     (\<forall>p. heap st p = None \<longrightarrow> heap st' p \<noteq> None \<longrightarrow> p \<in> tr_set st') \<and>
     set (links st) \<subseteq> set (links st') \<and> tr_set st \<subseteq> tr_set st' \<and> unit_list st' = unit_list st \<and>
     m_jobs st' = m_jobs st \<and> n_running_jobs st' = n_running_jobs st \<and> n_installed_jobs st' = n_installed_jobs st \<and>
     n_failed_jobs st' = n_failed_jobs st \<and> run_queue st' = run_queue st \<and>
     dbus_job_queue st' = dbus_job_queue st \<and> gc_job_queue st' = gc_job_queue st \<and>
     tr_irreversible st' = tr_irreversible st \<and> now_usec st' = now_usec st \<and> private_buses st' = private_buses st"

lemma extends_refl: "extends st st"
proof -
  have "\<exists>b. j = j\<lparr>j_ignore_order := b\<rparr> \<and> (P \<longrightarrow> b = j_ignore_order j)" for j :: job and P
    by (rule exI [of _ "j_ignore_order j"]) simp
  then show ?thesis by (simp add: extends_def)
qed

lemma extends_trans:
  assumes "extends st s1" "extends s1 s2"
  shows "extends st s2"
proof -
  have "\<exists>b. heap s2 p = Some (j\<lparr>j_ignore_order := b\<rparr>) \<and> (p \<notin> tr_set s2 \<longrightarrow> b = j_ignore_order j)"
    if j: "heap st p = Some j" for p j
  proof -
    obtain b where b: "heap s1 p = Some (j\<lparr>j_ignore_order := b\<rparr>)" "p \<notin> tr_set s1 \<longrightarrow> b = j_ignore_order j"
      using assms(1) j unfolding extends_def by blast
    obtain c where "heap s2 p = Some (j\<lparr>j_ignore_order := b, j_ignore_order := c\<rparr>)"
        "p \<notin> tr_set s2 \<longrightarrow> c = j_ignore_order (j\<lparr>j_ignore_order := b\<rparr>)"
      using assms(2) b(1) unfolding extends_def by blast
    moreover have "tr_set s1 \<subseteq> tr_set s2" using assms(2) by (simp add: extends_def)
    ultimately show ?thesis using b(2) by auto
  qed
  moreover have "p \<in> tr_set s2" if "heap st p = None" "heap s2 p \<noteq> None" for p
  proof (cases "heap s1 p")
    case None
    then show ?thesis using that assms(2) unfolding extends_def by blast
  next
    case (Some j)
    then have "p \<in> tr_set s1" using that(1) assms(1) unfolding extends_def by blast
    then show ?thesis using assms(2) unfolding extends_def by blast
  qed
  moreover have "set (links st) \<subseteq> set (links s2)" "tr_set st \<subseteq> tr_set s2"
    using assms unfolding extends_def by blast+
  ultimately show ?thesis using assms by (simp add: extends_def)
qed

lemma wf_trans_cong:
  assumes "heap st' = heap st" "tr_jobs st' = tr_jobs st" "links st' = links st"
  shows "wf_trans P st' = wf_trans P st"
  by (simp add: wf_trans_def tr_entry_ok_def wf_links_def tr_set_def assms)

lemma check_unit_state:
  "snd (check_unit ld t u st) = st \<or>
   (\<exists>b v. ld st u = Some (b, v) \<and>
      snd (check_unit ld t u st) = upd_unit u (\<lambda>_. if \<not> b \<or> u_load_state v = UNIT_STUB
        then v\<lparr>u_load_state := UNIT_NOT_FOUND\<rparr> else v) st)"
proof (cases "UNIT_IS_LOAD_COMPLETE (u_load_state (units st u)) \<and> t \<noteq> JOB_STOP \<and>
    (\<exists>e x. bus_unit_validate_load_state (units st u) = Inl e \<and> ld st u = Some x)")
  case True
  then obtain e b v where "bus_unit_validate_load_state (units st u) = Inl e" "ld st u = Some (b, v)" by auto
  then have "snd (check_unit ld t u st) = upd_unit u (\<lambda>_. if \<not> b \<or> u_load_state v = UNIT_STUB
      then v\<lparr>u_load_state := UNIT_NOT_FOUND\<rparr> else v) st"
    using True by (simp add: check_unit_def Let_def del: bus_unit_validate_load_state.simps split: sum.split)
  then show ?thesis using \<open>ld st u = Some (b, v)\<close> by blast
next
  case False
  then show ?thesis
    by (auto simp: check_unit_def Let_def simp del: bus_unit_validate_load_state.simps split: sum.split option.split)
qed

lemma check_unit_upd: obtains f where "snd (check_unit ld t u st) = upd_unit u f st"
proof -
  have "st = upd_unit u (\<lambda>v. v) st" by (simp add: upd_unit_def)
  then show ?thesis using that check_unit_state [of ld t u st] by metis
qed

lemma upd_unit_fields [simp]:
  "heap (upd_unit u f st) = heap st" "tr_jobs (upd_unit u f st) = tr_jobs st" "links (upd_unit u f st) = links st"
  "tr_set (upd_unit u f st) = tr_set st" "next_job (upd_unit u f st) = next_job st"
  "tr_anchor (upd_unit u f st) = tr_anchor st"
  by (simp_all add: upd_unit_def tr_set_def)

lemma extends_upd_unit: "extends st (upd_unit u f st)"
  using extends_refl [of st] by (simp add: extends_def) (simp add: upd_unit_def)

lemma wf_build_upd_unit: "wf_build (upd_unit u f st) = wf_build st"
  by (simp add: wf_build_def wf_trans_cong [of "upd_unit u f st" st])

section \<open>Adding one job\<close>

lemma in_update:
  assumes "distinct (map fst al)"
  shows "(v, y) \<in> set (AList.update u x al) \<longleftrightarrow> (if v = u then y = x else (v, y) \<in> set al)"
proof -
  have "(v, y) \<in> set (AList.update u x al) \<longleftrightarrow> map_of (AList.update u x al) v = Some y"
    using distinct_update [OF assms] by (simp add: map_of_eq_Some_iff)
  also have "\<dots> \<longleftrightarrow> (if v = u then y = x else map_of al v = Some y)"
    by (auto simp: update_conv')
  finally show ?thesis using assms by (simp add: map_of_eq_Some_iff)
qed

lemma tr_get_conv:
  assumes "wf_trans P st"
  shows "p \<in> set (tr_get st u) \<longleftrightarrow> (\<exists>js. (u, js) \<in> set (tr_jobs st) \<and> p \<in> set js)"
  using wf_transD(1) [OF assms] by (auto simp: tr_get_def split: option.split dest: map_of_SomeD)

lemma tr_get_in: "wf_trans P st \<Longrightarrow> set (tr_get st u) \<subseteq> tr_set st"
  using tr_get_conv by (fastforce simp: tr_set_def)

lemma tr_set_job:
  assumes "wf_trans P st" "p \<in> tr_set st"
  obtains j where "heap st p = Some j" "\<not> j_installed j" "\<not> j_in_run_queue j" "\<not> j_in_dbus_queue j"
    "\<not> j_in_gc_queue j" "p \<in> set (tr_get st (j_unit j))"
proof -
  obtain u js where e: "(u, js) \<in> set (tr_jobs st)" "p \<in> set js" using assms(2) by (auto simp: tr_set_def)
  then obtain j where "heap st p = Some j" "j_unit j = u" "\<not> j_installed j" "\<not> j_in_run_queue j"
      "\<not> j_in_dbus_queue j" "\<not> j_in_gc_queue j"
    using wf_transD(2) [OF assms(1) e(1)] by (auto simp: tr_entry_ok_def)
  then show ?thesis using that e tr_get_conv [OF assms(1)] by blast
qed

lemma tr_get_job:
  assumes "wf_trans P st" "p \<in> set (tr_get st u)"
  shows "\<exists>j. heap st p = Some j \<and> j_unit j = u"
proof -
  obtain js where e: "(u, js) \<in> set (tr_jobs st)" "p \<in> set js" using assms tr_get_conv by blast
  then show ?thesis using wf_transD(2) [OF assms(1) e(1)] by (auto simp: tr_entry_ok_def)
qed

text \<open>The units and types for which the transaction has a job.\<close>

definition pairs :: "sys \<Rightarrow> (unitp \<times> job_type) set" where
  "pairs st = {(u, t). \<exists>p \<in> tr_set st. \<exists>j. heap st p = Some j \<and> j_unit j = u \<and> j_type j = t}"

lemma pairs_cong:
  assumes "tr_set s = tr_set st"
    "\<And>p. map_option (\<lambda>j. (j_unit j, j_type j)) (heap s p) = map_option (\<lambda>j. (j_unit j, j_type j)) (heap st p)"
  shows "pairs s = pairs st"
proof -
  have p: "pairs st = {x. \<exists>p \<in> tr_set st. map_option (\<lambda>j. (j_unit j, j_type j)) (heap st p) = Some x}" for st
    by (auto simp: pairs_def)
  show ?thesis unfolding p assms ..
qed

text \<open>The state with a fresh job.\<close>

definition with_job :: "job_type \<Rightarrow> unitp \<Rightarrow> sys \<Rightarrow> sys" where
  "with_job t u st = snd (snd (transaction_add_one_job t u st))"

lemma add_new_job:
  assumes "wf_build st" "find (\<lambda>p. j_type (job_at st p) = t) (tr_get st u) = None"
  defines "s \<equiv> with_job t u st"
  shows "transaction_add_one_job t u st = (next_job st, True, s)"
    "\<exists>j. heap s = (heap st)(next_job st \<mapsto> j) \<and> j_unit j = u \<and> j_type j = t \<and> \<not> j_installed j \<and>
       \<not> j_in_run_queue j \<and> \<not> j_in_dbus_queue j \<and> \<not> j_in_gc_queue j \<and> \<not> j_ignore_order j \<and>
       j_state j = JOB_WAITING \<and> \<not> j_matters_to_anchor j \<and> j_generation j = 0"
    "tr_jobs s = AList.update u (next_job st # tr_get st u) (tr_jobs st)"
    "next_job s = Suc (next_job st)" "links s = links st" "units s = units st" "tr_anchor s = tr_anchor st"
    "unit_list s = unit_list st" "m_jobs s = m_jobs st" "n_running_jobs s = n_running_jobs st"
    "n_installed_jobs s = n_installed_jobs st" "n_failed_jobs s = n_failed_jobs st" "run_queue s = run_queue st"
    "dbus_job_queue s = dbus_job_queue st" "gc_job_queue s = gc_job_queue st"
    "tr_irreversible s = tr_irreversible st" "now_usec s = now_usec st" "private_buses s = private_buses st"
  using assms(2) unfolding s_def
  by (simp_all add: transaction_add_one_job_def with_job_def job_new_def Let_def upd_job_def tr_get_def)
    (intro exI conjI, rule refl, simp_all)

lemma tr_setI: "(u, js) \<in> set (tr_jobs st) \<Longrightarrow> p \<in> set js \<Longrightarrow> p \<in> tr_set st"
  by (force simp: tr_set_def)

lemma new_job_wf:
  assumes "wf_build st" "find (\<lambda>p. j_type (job_at st p) = t) (tr_get st u) = None"
  defines "s \<equiv> with_job t u st"
  shows "wf_build s" "extends st s" "tr_set s = insert (next_job st) (tr_set st)" "next_job st \<notin> tr_set st"
    "pairs s = insert (u, t) (pairs st)" "(u, t) \<notin> pairs st"
proof -
  note new = add_new_job [OF assms(1,2), folded s_def]
  have w: "wf_trans {} st" and fresh: "\<And>p. heap st p \<noteq> None \<Longrightarrow> p < next_job st"
    using assms(1) by (auto simp: wf_build_def)
  obtain j where j: "heap s = (heap st)(next_job st \<mapsto> j)" "j_unit j = u" "j_type j = t" "\<not> j_installed j"
      "\<not> j_in_run_queue j" "\<not> j_in_dbus_queue j" "\<not> j_in_gc_queue j" "\<not> j_ignore_order j"
    using new(2) by blast
  have hp: "heap st (next_job st) = None" using fresh by (meson less_irrefl)
  note e = in_update [OF wf_transD(1) [OF w]]
  show fr: "next_job st \<notin> tr_set st"
    using tr_set_job [OF w] hp by (metis option.distinct(1))
  have ent: "(v, js) \<in> set (tr_jobs s) \<longleftrightarrow> (if v = u then js = next_job st # tr_get st u else (v, js) \<in> set (tr_jobs st))" for v js
    unfolding new(3) by (rule e)
  show ts: "tr_set s = insert (next_job st) (tr_set st)"
  proof (intro set_eqI iffI)
    fix p assume "p \<in> tr_set s"
    then obtain v js where "(v, js) \<in> set (tr_jobs s)" "p \<in> set js" by (auto simp: tr_set_def)
    then show "p \<in> insert (next_job st) (tr_set st)"
      using tr_get_in [OF w, of u] by (auto simp: ent tr_set_def split: if_splits)
  next
    fix p assume p: "p \<in> insert (next_job st) (tr_set st)"
    show "p \<in> tr_set s"
    proof (cases "p = next_job st")
      case True
      then have "(u, next_job st # tr_get st u) \<in> set (tr_jobs s)" by (simp add: ent)
      then show ?thesis by (rule tr_setI) (simp add: True)
    next
      case False
      then obtain x where x: "heap st p = Some x" "p \<in> set (tr_get st (j_unit x))"
        using p tr_set_job [OF w, of p] by blast
      show ?thesis
      proof (cases "j_unit x = u")
        case True
        have "(u, next_job st # tr_get st u) \<in> set (tr_jobs s)" by (simp add: ent)
        then show ?thesis by (rule tr_setI) (use True x(2) in simp)
      next
        case False
        obtain js where "(j_unit x, js) \<in> set (tr_jobs st)" "p \<in> set js" using x(2) tr_get_conv [OF w] by blast
        then have "(j_unit x, js) \<in> set (tr_jobs s)" "p \<in> set js" using False by (simp_all add: ent)
        then show ?thesis by (rule tr_setI)
      qed
    qed
  qed
  have other: "heap s q = heap st q" if "q \<in> tr_set st" for q using that fr j(1) by auto
  have "tr_entry_ok s (v, js)" if v: "(v, js) \<in> set (tr_jobs s)" for v js
  proof (cases "v = u")
    case False
    then have "(v, js) \<in> set (tr_jobs st)" using v by (simp add: ent)
    then have "tr_entry_ok st (v, js)" "set js \<subseteq> tr_set st" using wf_transD(2) [OF w] by (auto simp: tr_set_def)
    then show ?thesis using other by (auto simp: tr_entry_ok_def subset_iff)
  next
    case True
    then have js: "js = next_job st # tr_get st u" using v by (simp add: ent)
    have "distinct (tr_get st u)" 
      using wf_transD(2) [OF w] by (fastforce simp: tr_get_def tr_entry_ok_def split: option.split dest: map_of_SomeD)
    moreover have "\<exists>x. heap s q = Some x \<and> j_unit x = u \<and> \<not> j_installed x \<and> \<not> j_in_run_queue x \<and>
        \<not> j_in_dbus_queue x \<and> \<not> j_in_gc_queue x" if q: "q \<in> set (tr_get st u)" for q
    proof -
      have "q \<in> tr_set st" using tr_get_in [OF w] q by blast
      then obtain x where "heap st q = Some x" "\<not> j_installed x" "\<not> j_in_run_queue x" "\<not> j_in_dbus_queue x"
          "\<not> j_in_gc_queue x" using tr_set_job [OF w] by blast
      moreover have "j_unit x = u" using tr_get_job [OF w q] calculation(1) by auto
      ultimately show ?thesis using other [OF \<open>q \<in> tr_set st\<close>] by auto
    qed
    moreover have "next_job st \<notin> set (tr_get st u)" using tr_get_in [OF w] fr by blast
    ultimately show ?thesis using js True j by (auto simp: tr_entry_ok_def)
  qed
  moreover have "distinct (map fst (tr_jobs s))" unfolding new(3) using wf_transD(1) [OF w] by (rule distinct_update)
  moreover have "wf_links {} s" using wf_transD(4) [OF w] unfolding wf_links_def ts new(5) by auto
  ultimately have "wf_trans {} s" unfolding wf_trans_def by auto
  moreover have "p < next_job s" if "heap s p \<noteq> None" for p
    using that fresh [of p] by (cases "p = next_job st") (auto simp: j(1) new(4))
  ultimately show "wf_build s" by (simp add: wf_build_def)
  show "extends st s"
    using extends_refl [of st] hp unfolding extends_def ts new(5-) j(1) by (auto split: if_splits)
  show "(u, t) \<notin> pairs st"
  proof
    assume "(u, t) \<in> pairs st"
    then obtain q x where q: "q \<in> tr_set st" "heap st q = Some x" "j_unit x = u" "j_type x = t" by (auto simp: pairs_def)
    then have "q \<in> set (tr_get st u)" using tr_set_job [OF w q(1)] by (metis option.inject)
    then show False using find_NoneD [OF assms(2), of q] q by simp
  qed
  show "pairs s = insert (u, t) (pairs st)"
    unfolding pairs_def ts using j(1-3) other by auto
qed

section \<open>Adding a job with its link\<close>

lemma upd_job_views [simp]:
  "heap (upd_job p f st) = (heap st)(p := map_option f (heap st p))" "tr_jobs (upd_job p f st) = tr_jobs st"
  "links (upd_job p f st) = links st" "units (upd_job p f st) = units st" "tr_set (upd_job p f st) = tr_set st"
  "next_job (upd_job p f st) = next_job st" "tr_anchor (upd_job p f st) = tr_anchor st"
  by (simp_all add: upd_job_def tr_set_def)

lemma ignore_order_wf:
  fixes io :: bool
  assumes "wf_build st" "p \<in> tr_set st"
  defines "s \<equiv> upd_job p (\<lambda>j. j\<lparr>j_ignore_order := j_ignore_order j \<or> io\<rparr>) st"
  shows "wf_build s" "extends st s" "pairs s = pairs st"
proof -
  have w: "wf_trans {} st" using assms(1) by (simp add: wf_build_def)
  obtain j where j: "heap st p = Some j" using tr_set_job [OF w assms(2)] by metis
  have h: "heap s = (heap st)(p \<mapsto> j\<lparr>j_ignore_order := j_ignore_order j \<or> io\<rparr>)" using j by (simp add: s_def)
  have "tr_entry_ok s e" if "tr_entry_ok st e" for e
    using that j unfolding tr_entry_ok_def h by auto
  then have "wf_trans {} s"
    using w by (simp add: wf_trans_def wf_links_def s_def)
  then show "wf_build s"
    using assms(1) h j by (auto simp: wf_build_def s_def split: if_splits)
  show "extends st s"
    using extends_refl [of st] assms(2) j unfolding extends_def h
    by (simp add: s_def) (auto simp: upd_job_def)
  show "pairs s = pairs st"
    using j by (intro pairs_cong) (simp_all add: s_def)
qed

lemma dependency_new_wf:
  fixes m c :: bool
  assumes "wf_build st" "p \<in> tr_set st" "k \<in> tr_set st"
  defines "s \<equiv> job_dependency_new (Some k) p m c st"
  shows "wf_build s" "extends st s" "pairs s = pairs st"
proof -
  have f: "heap s = heap st" "tr_jobs s = tr_jobs st" "tr_set s = tr_set st" "next_job s = next_job st"
    by (simp_all add: s_def job_dependency_new_def tr_set_def)
  have l: "set (links s) = insert \<lparr>d_subject = Some k, d_object = p, d_matters = m, d_conflicts = c\<rparr> (set (links st))"
    by (simp add: s_def job_dependency_new_def)
  have "wf_links {} s" using assms(1-3) unfolding wf_build_def wf_trans_def wf_links_def l f by auto
  then show "wf_build s" using assms(1) by (simp add: wf_build_def wf_trans_def f tr_entry_ok_def)
  show "extends st s"
    using extends_refl [of st] unfolding extends_def f l by (auto simp: s_def job_dependency_new_def)
  show "pairs s = pairs st" by (simp add: pairs_def f)
qed

lemma add_one_job_cases:
  assumes "wf_build st" "transaction_add_one_job t u st = (p, is_new, s)"
  shows "wf_build s" "extends st s" "p \<in> tr_set s" "tr_set s = insert p (tr_set st)" "is_new \<longleftrightarrow> p \<notin> tr_set st"
    "pairs s = insert (u, t) (pairs st)" "is_new \<longleftrightarrow> (u, t) \<notin> pairs st" "units s = units st"
    "tr_anchor s = tr_anchor st" "links s = links st"
    "\<exists>j. heap s p = Some j \<and> j_unit j = u \<and> j_type j = t"
proof -
  have w: "wf_trans {} st" using assms(1) by (simp add: wf_build_def)
  have "wf_build s \<and> extends st s \<and> p \<in> tr_set s \<and> tr_set s = insert p (tr_set st) \<and> (is_new \<longleftrightarrow> p \<notin> tr_set st) \<and>
    pairs s = insert (u, t) (pairs st) \<and> (is_new \<longleftrightarrow> (u, t) \<notin> pairs st) \<and> units s = units st \<and>
    tr_anchor s = tr_anchor st \<and> links s = links st \<and> (\<exists>j. heap s p = Some j \<and> j_unit j = u \<and> j_type j = t)"
  proof (cases "find (\<lambda>p. j_type (job_at st p) = t) (tr_get st u)")
    case None
    note new = add_new_job [OF assms(1) None] and n = new_job_wf [OF assms(1) None]
    have e: "p = next_job st" "is_new" "s = with_job t u st" using new(1) assms(2) by auto
    have "\<exists>j. heap s p = Some j \<and> j_unit j = u \<and> j_type j = t" using new(2) by (auto simp: e)
    then show ?thesis using n new(5-7) by (simp add: e)
  next
    case (Some q)
    then have e: "p = q" "\<not> is_new" "s = st" using assms(2) by (auto simp: transaction_add_one_job_def)
    have q: "q \<in> set (tr_get st u)" "j_type (job_at st q) = t" using find_SomeD [OF Some] by auto
    obtain j where j: "heap st q = Some j" "j_unit j = u" using tr_get_job [OF w q(1)] by blast
    have "q \<in> tr_set st" using q(1) tr_get_in [OF w] by blast
    moreover have "(u, t) \<in> pairs st" using calculation j q(2) by (force simp: pairs_def)
    ultimately show ?thesis using assms(1) j q(2) e extends_refl by (auto simp: insert_absorb)
  qed
  then show "wf_build s" "extends st s" "p \<in> tr_set s" "tr_set s = insert p (tr_set st)" "is_new \<longleftrightarrow> p \<notin> tr_set st"
    "pairs s = insert (u, t) (pairs st)" "is_new \<longleftrightarrow> (u, t) \<notin> pairs st" "units s = units st"
    "tr_anchor s = tr_anchor st" "links s = links st"
    "\<exists>j. heap s p = Some j \<and> j_unit j = u \<and> j_type j = t"
    by blast+
qed

lemma add_linked_job_wf:
  assumes "wf_build st" "\<And>k. by = Some k \<Longrightarrow> k \<in> tr_set st"
    and "add_linked_job t u by m c io st = Some (p, is_new, s)"
  shows "wf_build s" "extends st s" "p \<in> tr_set s" "tr_set s = insert p (tr_set st)" "is_new \<longleftrightarrow> p \<notin> tr_set st"
    "pairs s = insert (u, t) (pairs st)" "is_new \<longleftrightarrow> (u, t) \<notin> pairs st" "units s = units st"
    "\<exists>j. heap s p = Some j \<and> j_unit j = u \<and> j_type j = t"
    "tr_anchor s = (if by = None then Some p else tr_anchor st)"
    "\<And>k. by = Some k \<Longrightarrow> m \<Longrightarrow> (k, p) \<in> needs s"
proof -
  obtain p0 new0 s0 where 0: "transaction_add_one_job t u st = (p0, new0, s0)"
    using prod_cases3 by blast
  note one = add_one_job_cases [OF assms(1) 0]
  let ?s1 = "upd_job p0 (\<lambda>j. j\<lparr>j_ignore_order := j_ignore_order j \<or> io\<rparr>) s0"
  note io = ignore_order_wf [OF one(1,3), where io = io]
  have s1: "extends st ?s1" using extends_trans [OF one(2) io(2)] .
  have job1: "\<exists>j. heap ?s1 p0 = Some j \<and> j_unit j = u \<and> j_type j = t" using one(11) by auto
  have p: "p = p0" "is_new = new0" using assms(3) 0 by (auto simp: add_linked_job_def Let_def split: option.splits if_splits)
  have "wf_build s \<and> extends st s \<and> tr_set s = insert p (tr_set st) \<and> pairs s = insert (u, t) (pairs st) \<and>
    units s = units st \<and> (\<exists>j. heap s p = Some j \<and> j_unit j = u \<and> j_type j = t) \<and>
    tr_anchor s = (if by = None then Some p else tr_anchor st) \<and> (\<forall>k. by = Some k \<longrightarrow> m \<longrightarrow> (k, p) \<in> needs s)"
  proof (cases "by")
    case None
    then have s: "s = ?s1\<lparr>tr_anchor := Some p\<rparr>" using assms(3) 0 by (auto simp: add_linked_job_def Let_def split: if_splits)
    have "wf_build s = wf_build ?s1" unfolding wf_build_def s by (simp add: wf_trans_cong [of "?s1\<lparr>tr_anchor := Some p\<rparr>" ?s1])
    moreover have "extends st s" using s1 unfolding extends_def s by (simp add: tr_set_def)
    moreover have "tr_set s = insert p (tr_set st)" using one(4) by (simp add: s tr_set_def p)
    moreover have "pairs s = pairs ?s1" by (simp add: s pairs_def tr_set_def)
    ultimately show ?thesis using io(1,3) one(6,8) job1 None by (simp add: s p)
  next
    case (Some k)
    then have s: "s = job_dependency_new (Some k) p m c ?s1" using assms(3) 0 by (auto simp: add_linked_job_def Let_def)
    have k: "k \<in> tr_set ?s1" using assms(2) [OF Some] one(4) by simp
    note d = dependency_new_wf [OF io(1) _ k, of p m c, folded s]
    have ps: "p \<in> tr_set ?s1" using one(3) p by simp
    have "tr_set s = insert p (tr_set st)" using one(4) by (simp add: s job_dependency_new_def tr_set_def p)
    moreover have "m \<Longrightarrow> (k, p) \<in> needs s" by (simp add: needs_def s job_dependency_new_def)
    moreover have "heap s = heap ?s1" "units s = units ?s1" "tr_anchor s = tr_anchor ?s1"
      by (simp_all add: s job_dependency_new_def)
    ultimately show ?thesis
      using d [OF ps] io(3) one(6,8,9) job1 Some extends_trans [OF s1] by (simp add: p)
  qed
  then show "wf_build s" "extends st s" "p \<in> tr_set s" "tr_set s = insert p (tr_set st)" "is_new \<longleftrightarrow> p \<notin> tr_set st"
    "pairs s = insert (u, t) (pairs st)" "is_new \<longleftrightarrow> (u, t) \<notin> pairs st" "units s = units st"
    "\<exists>j. heap s p = Some j \<and> j_unit j = u \<and> j_type j = t"
    "tr_anchor s = (if by = None then Some p else tr_anchor st)"
    "\<And>k. by = Some k \<Longrightarrow> m \<Longrightarrow> (k, p) \<in> needs s"
    using one(5,7) p by blast+
qed

lemma add_linked_job_some:
  assumes "wf_build st" "by = None \<Longrightarrow> tr_anchor st = None"
  shows "\<exists>x. add_linked_job t u by m c io st = Some x"
proof -
  obtain p is_new s where 0: "transaction_add_one_job t u st = (p, is_new, s)" using prod_cases3 by blast
  have "tr_anchor s = tr_anchor st" using add_one_job_cases(9) [OF assms(1) 0] .
  then show ?thesis using 0 assms(2) by (cases "by") (simp_all add: add_linked_job_def)
qed

lemma extends_tr_set: "extends st s \<Longrightarrow> p \<in> tr_set st \<Longrightarrow> p \<in> tr_set s"
  by (auto simp: extends_def)

lemma add_job_extends:
  "transaction_add_job_and_dependencies n ld t u by m c ir io st = Some (r, st') \<Longrightarrow> wf_build st \<Longrightarrow>
    (\<And>k. by = Some k \<Longrightarrow> k \<in> tr_set st) \<Longrightarrow> wf_build st' \<and> extends st st'"
  "add_pulls n ld pulls p io st = Some (r, st') \<Longrightarrow> wf_build st \<Longrightarrow> p \<in> tr_set st \<Longrightarrow> wf_build st' \<and> extends st st'"
proof (induction n ld t u "by" m c ir io st and n ld pulls p io st arbitrary: r st' and r st'
    rule: transaction_add_job_and_dependencies_add_pulls.induct)
  case (2 n ld t u "by" m c ir io st)
  obtain f s where s: "check_unit ld t u st = (f, s)" by (cases "check_unit ld t u st")
  obtain g where g: "s = upd_unit u g st" using check_unit_upd [of ld t u st] s by auto
  have ws: "wf_build s" "extends st s" "tr_set s = tr_set st"
    using "2.prems"(2) by (simp_all add: g wf_build_upd_unit extends_upd_unit)
  show ?case
  proof (cases f)
    case (Inl e)
    then show ?thesis using "2.prems"(1) s ws by (auto split: if_splits)
  next
    case (Inr x)
    then obtain p is_new s1 where add: "add_linked_job t u by m c io s = Some (p, is_new, s1)"
      using "2.prems"(1) s by (auto split: if_splits simp: bind_eq_Some_conv)
    have byk: "k \<in> tr_set s" if "by = Some k" for k using "2.prems"(3) that ws(3) by simp
    note l = add_linked_job_wf [OF ws(1) byk add]
    show ?thesis
    proof (cases "is_new \<and> \<not> ir \<and> t \<noteq> JOB_NOP")
      case True
      then have "add_pulls n ld (dep_pulls s1 t u) p io s1 = Some (r, st')"
        using "2.prems"(1) s Inr add by (auto split: if_splits)
      then have "wf_build st' \<and> extends s1 st'"
        using "2.IH" s Inr add True l(1,3) "2.prems"(1) by (auto split: if_splits)
      then show ?thesis using extends_trans [OF ws(2) extends_trans [OF l(2)]] by blast
    next
      case False
      then have "st' = s1" using "2.prems"(1) s Inr add by (auto split: if_splits)
      then show ?thesis using l(1) extends_trans [OF ws(2) l(2)] by simp
    qed
  qed
next
  case (5 n ld t u tus ignored m c pulls p io st)
  obtain r1 s1 where a: "transaction_add_job_and_dependencies n ld t u (Some p) m c False io st = Some (r1, s1)"
    using "5.prems"(1) by (auto simp: bind_eq_Some_conv)
  have s1: "wf_build s1" "extends st s1" using "5.IH"(1) [OF a "5.prems"(2)] "5.prems"(3) by auto
  have p: "p \<in> tr_set s1" using extends_tr_set [OF s1(2) "5.prems"(3)] .
  show ?case
  proof (cases "add_pulls n ld ((tus, ignored, m, c) # pulls) p io s1 = Some (r, st')")
    case True
    have "wf_build st' \<and> extends s1 st'"
      by (cases r1) (use "5.IH"(2,3) True a s1(1) p "5.prems"(1) extends_refl in \<open>auto split: if_splits\<close>)
    then show ?thesis using extends_trans [OF s1(2)] by blast
  next
    case False
    then have "st' = s1" using "5.prems"(1) a by (auto split: sum.splits if_splits)
    then show ?thesis using s1 by simp
  qed
qed (auto simp: extends_refl)

section \<open>Enough fuel\<close>

definition in_types :: "job_type set" where
  "in_types = {JOB_START, JOB_VERIFY_ACTIVE, JOB_STOP, JOB_RELOAD, JOB_RESTART, JOB_NOP}"

lemma in_types: "\<not> JOB_TYPE_MAX_IN_TRANSACTION \<le> job_type_value t \<longleftrightarrow> t \<in> in_types"
  by (cases t) (simp_all add: in_types_def JOB_TYPE_MAX_IN_TRANSACTION_def)

text \<open>The units a unit names all lie in \<open>U\<close>.\<close>

definition units_in :: "unitp set \<Rightarrow> unit_rec \<Rightarrow> bool" where
  "units_in U v \<longleftrightarrow> (\<forall>(dt, us) \<in> set (u_dependencies v). set us \<subseteq> U) \<and> set (u_following_set v) \<subseteq> U"

definition within :: "unitp set \<Rightarrow> sys \<Rightarrow> bool" where
  "within U st \<longleftrightarrow> (\<forall>u \<in> U. units_in U (units st u))"

definition loader_in :: "unitp set \<Rightarrow> loader \<Rightarrow> bool" where
  "loader_in U ld \<longleftrightarrow> (\<forall>st u b v. u \<in> U \<longrightarrow> ld st u = Some (b, v) \<longrightarrow> units_in U v)"

lemma foreach_in:
  assumes "v \<in> set (UNIT_FOREACH_DEPENDENCY deps atom)"
  shows "\<exists>dt us. (dt, us) \<in> set deps \<and> v \<in> set us"
proof (cases "unit_dependency_from_unique_atom atom")
  case None
  then show ?thesis using assms by (auto simp: UNIT_FOREACH_DEPENDENCY_def)
next
  case (Some dt)
  then obtain us where "map_of deps dt = Some us" "v \<in> set us"
    using assms by (cases "map_of deps dt") (auto simp: UNIT_FOREACH_DEPENDENCY_def split: if_splits)
  then show ?thesis by (blast dest: map_of_SomeD)
qed

lemma foreach_within:
  assumes "within U st" "u \<in> U"
  shows "set (UNIT_FOREACH_DEPENDENCY (u_dependencies (units st u)) atom) \<subseteq> U"
proof
  fix v assume "v \<in> set (UNIT_FOREACH_DEPENDENCY (u_dependencies (units st u)) atom)"
  then obtain dt us where "(dt, us) \<in> set (u_dependencies (units st u))" "v \<in> set us" using foreach_in by blast
  moreover have "\<forall>(dt, us) \<in> set (u_dependencies (units st u)). set us \<subseteq> U"
    using assms by (simp add: within_def units_in_def)
  ultimately show "v \<in> U" by blast
qed

definition pulls_in :: "unitp set \<Rightarrow> pull list \<Rightarrow> bool" where
  "pulls_in U pulls \<longleftrightarrow> (\<forall>pl \<in> set pulls. \<forall>(t, u) \<in> set (fst pl). t \<in> in_types \<and> u \<in> U)"

lemma collapsed_in:
  "set us \<subseteq> U \<Longrightarrow> t \<in> {JOB_TRY_RESTART, JOB_STOP, JOB_TRY_RELOAD} \<Longrightarrow> (nt, v) \<in> set (collapsed st t us) \<Longrightarrow>
    nt \<in> in_types \<and> v \<in> U"
  by (auto simp: collapsed_def in_types_def split: if_splits)

lemma dep_pulls_in:
  assumes "within U st" "u \<in> U" "t \<in> in_types"
  shows "pulls_in U (dep_pulls st t u)"
proof -
  note f = foreach_within [OF assms(1,2)]
  have "set (u_following_set (units st u)) \<subseteq> U" using assms by (simp add: within_def units_in_def)
  moreover have "nt \<in> in_types \<and> v \<in> U"
    if "(nt, v) \<in> set (collapsed st t' (UNIT_FOREACH_DEPENDENCY (u_dependencies (units st u)) atom))"
      "t' \<in> {JOB_TRY_RESTART, JOB_STOP, JOB_TRY_RELOAD}" for nt v t' atom
    using collapsed_in [OF f that(2,1)] .
  moreover have "{JOB_START, JOB_VERIFY_ACTIVE, JOB_STOP} \<subseteq> in_types" by (simp add: in_types_def)
  ultimately show ?thesis
    using assms(3) unfolding pulls_in_def dep_pulls_def Let_def by (auto split: if_splits dest: subsetD [OF f])
qed

definition missing :: "unitp set \<Rightarrow> sys \<Rightarrow> nat" where
  "missing U st = card (U \<times> in_types - pairs st)"

lemma missing_le: "finite U \<Longrightarrow> missing U st \<le> 6 * card U"
proof -
  assume "finite U"
  have "card in_types = 6" by (simp add: in_types_def)
  then show ?thesis
    using card_mono [of "U \<times> in_types" "U \<times> in_types - pairs st"] \<open>finite U\<close>
    by (simp add: missing_def card_cartesian_product in_types_def)
qed

lemma missing_mono:
  assumes "finite U" "pairs st \<subseteq> pairs s"
  shows "missing U s \<le> missing U st"
  unfolding missing_def using assms by (intro card_mono) (auto simp: in_types_def)

lemma missing_less:
  assumes "finite U" "pairs s = insert (u, t) (pairs st)" "(u, t) \<notin> pairs st" "u \<in> U" "t \<in> in_types"
  shows "missing U s < missing U st"
  unfolding missing_def using assms by (intro psubset_card_mono) (auto simp: in_types_def)

lemma extends_pairs:
  assumes "extends st s" "wf_build st"
  shows "pairs st \<subseteq> pairs s"
proof
  fix x assume "x \<in> pairs st"
  then obtain p j where p: "p \<in> tr_set st" "heap st p = Some j" "x = (j_unit j, j_type j)" by (auto simp: pairs_def)
  then obtain b where "heap s p = Some (j\<lparr>j_ignore_order := b\<rparr>)" using assms(1) unfolding extends_def by blast
  then show "x \<in> pairs s" using p extends_tr_set [OF assms(1) p(1)] by (force simp: pairs_def)
qed

lemma within_check_unit:
  assumes "within U st" "loader_in U ld" "u \<in> U"
  shows "within U (snd (check_unit ld t u st))"
proof -
  have *: "within U (upd_unit u (\<lambda>_. v) st)" if "units_in U v" for v
    using that assms(1) by (simp add: within_def upd_unit_def)
  have l: "units_in U (v\<lparr>u_load_state := l\<rparr>) = units_in U v" for v l by (simp add: units_in_def)
  from check_unit_state [of ld t u st] show ?thesis
  proof (elim disjE exE conjE)
    fix b v assume "ld st u = Some (b, v)" and e: "snd (check_unit ld t u st) = upd_unit u
      (\<lambda>_. if \<not> b \<or> u_load_state v = UNIT_STUB then v\<lparr>u_load_state := UNIT_NOT_FOUND\<rparr> else v) st"
    then have "units_in U v" using assms(2,3) by (auto simp: loader_in_def)
    then show ?thesis unfolding e by (intro *) (simp add: l)
  qed (use assms(1) in simp)
qed

lemma within_cong: "units s = units st \<Longrightarrow> within U s = within U st"
  by (simp add: within_def)

lemma add_job_total:
  assumes "finite U" "loader_in U ld"
  shows "wf_build st \<Longrightarrow> within U st \<Longrightarrow> (\<And>k. by = Some k \<Longrightarrow> k \<in> tr_set st) \<Longrightarrow>
      (by = None \<Longrightarrow> tr_anchor st = None) \<Longrightarrow> t \<in> in_types \<Longrightarrow> u \<in> U \<Longrightarrow> missing U st < n \<Longrightarrow>
      \<exists>r st'. transaction_add_job_and_dependencies n ld t u by m c ir io st = Some (r, st') \<and> within U st'"
    "wf_build st \<Longrightarrow> within U st \<Longrightarrow> p \<in> tr_set st \<Longrightarrow> pulls_in U pulls \<Longrightarrow> missing U st < n \<Longrightarrow>
      \<exists>r st'. add_pulls n ld pulls p io st = Some (r, st') \<and> within U st'"
  using assms(2)
proof (induction n ld t u "by" m c ir io st and n ld pulls p io st
    rule: transaction_add_job_and_dependencies_add_pulls.induct)
  case (2 n ld t u "by" m c ir io st)
  have t: "\<not> JOB_TYPE_MAX_IN_TRANSACTION \<le> job_type_value t" using "2.prems"(5) by (simp add: in_types)
  obtain f s where s: "check_unit ld t u st = (f, s)" by (cases "check_unit ld t u st")
  obtain g where g: "s = upd_unit u g st" using check_unit_upd [of ld t u st] s by auto
  have ws: "wf_build s" "tr_set s = tr_set st" "pairs s = pairs st" "tr_anchor s = tr_anchor st"
    using "2.prems"(1) by (simp_all add: g wf_build_upd_unit pairs_def)
  have in_s: "within U s" using within_check_unit [OF "2.prems"(2,8,6), of t] s by simp
  show ?case
  proof (cases f)
    case (Inl e)
    then show ?thesis using s t in_s by simp
  next
    case (Inr x)
    obtain p is_new s1 where add: "add_linked_job t u by m c io s = Some (p, is_new, s1)"
      using add_linked_job_some [OF ws(1), of "by" t u m c io] "2.prems"(4) ws(4) by fastforce
    have byk: "k \<in> tr_set s" if "by = Some k" for k using "2.prems"(3) that ws(2) by simp
    note l = add_linked_job_wf [OF ws(1) byk add]
    have in1: "within U s1" using in_s within_cong [OF l(8)] by simp
    show ?thesis
    proof (cases "is_new \<and> \<not> ir \<and> t \<noteq> JOB_NOP")
      case True
      then have "missing U s1 < missing U s" using missing_less [OF assms(1) l(6)] l(7) "2.prems"(5,6) by simp
      then have "missing U s1 < n" using "2.prems"(7) ws(3) by (simp add: missing_def)
      then have "\<exists>r st'. add_pulls n ld (dep_pulls s1 t u) p io s1 = Some (r, st') \<and> within U st'"
        using "2.IH" t s Inr add True l(1,3) in1 dep_pulls_in [OF in1 "2.prems"(6,5)] "2.prems"(8) by auto
      then show ?thesis using s t Inr add True by simp
    next
      case False
      then show ?thesis using s t Inr add in1 by auto
    qed
  qed
next
  case (5 n ld t u tus ignored m c pulls p io st)
  have in5: "t \<in> in_types" "u \<in> U" "pulls_in U ((tus, ignored, m, c) # pulls)"
    using "5.prems"(4) by (auto simp: pulls_in_def)
  obtain r1 s1 where a: "transaction_add_job_and_dependencies n ld t u (Some p) m c False io st = Some (r1, s1)"
      "within U s1"
    using "5.IH"(1) [OF "5.prems"(1,2) _ _ in5(1,2) "5.prems"(5,6)] "5.prems"(3) by auto
  have s1: "wf_build s1" "extends st s1" using add_job_extends(1) [OF a(1) "5.prems"(1)] "5.prems"(3) by auto
  have p: "p \<in> tr_set s1" using extends_tr_set [OF s1(2) "5.prems"(3)] .
  have m: "missing U s1 < n"
    using missing_mono [OF assms(1) extends_pairs [OF s1(2) "5.prems"(1)]] "5.prems"(5) by simp
  have ih2: "\<exists>r st'. add_pulls n ld ((tus, ignored, m, c) # pulls) p io s1 = Some (r, st') \<and> within U st'"
    if "r1 = Inr x" for x
    using "5.IH"(3) [of "(r1, s1)" r1 s1 x] that s1(1) a p in5(3) m "5.prems"(6) by simp
  have ih3: "\<exists>r st'. add_pulls n ld ((tus, ignored, m, c) # pulls) p io s1 = Some (r, st') \<and> within U st'"
    if "r1 = Inl e" "ignored \<or> e = EBADR" for e
    using "5.IH"(2) [of "(r1, s1)" r1 s1 e] that s1(1) a p in5(3) m "5.prems"(6) by simp
  show ?case
  proof (cases r1)
    case (Inl e)
    then show ?thesis using a ih3 [OF Inl] by (cases "ignored \<or> e = EBADR") auto
  next
    case (Inr x)
    then show ?thesis using a ih2 [OF Inr] by simp
  qed
next
  case (4 n ld ignored m c pulls p io st)
  then show ?case by (simp add: pulls_in_def)
qed auto

section \<open>The transaction is complete\<close>

text \<open>
  Job \<open>p\<close> has pulled in what its unit asks for: for each applicable dependency job of \<open>dep_pulls\<close>
  the transaction has that job, linked to \<open>p\<close> if the dependency matters.
\<close>

definition has_pull :: "sys \<Rightarrow> jobp \<Rightarrow> bool \<Rightarrow> job_type \<times> unitp \<Rightarrow> bool" where
  "has_pull st p matters tu \<longleftrightarrow>
     (unit_job_is_applicable (units st (snd tu)) (fst tu) \<longrightarrow>
       (\<exists>q \<in> tr_set st. \<exists>k. heap st q = Some k \<and> j_unit k = snd tu \<and> j_type k = fst tu \<and>
          (matters \<longrightarrow> (p, q) \<in> needs st)))"

definition pulled_in :: "sys \<Rightarrow> jobp \<Rightarrow> bool" where
  "pulled_in st p \<longleftrightarrow>
     (\<forall>(tus, ignored, matters, conflicts) \<in> set (dep_pulls st (j_type (job_at st p)) (j_unit (job_at st p))).
        \<forall>tu \<in> set tus. has_pull st p matters tu)"

definition loaded :: "unitp set \<Rightarrow> sys \<Rightarrow> bool" where
  "loaded U st \<longleftrightarrow> (\<forall>u \<in> U. u_load_state (units st u) = UNIT_LOADED)"

lemma check_unit_loaded:
  assumes "u_load_state (units st u) = UNIT_LOADED"
  shows "check_unit ld t u st = (if unit_job_is_applicable (units st u) t then Inr () else Inl EBADR, st)"
  using assms by (simp add: check_unit_def UNIT_IS_LOAD_COMPLETE_def)

lemma has_pull_mono:
  assumes "has_pull st p m tu" "extends st s" "units s = units st"
  shows "has_pull s p m tu"
  unfolding has_pull_def
proof
  assume "unit_job_is_applicable (units s (snd tu)) (fst tu)"
  then obtain q k where q: "q \<in> tr_set st" "heap st q = Some k" "j_unit k = snd tu" "j_type k = fst tu"
      "m \<longrightarrow> (p, q) \<in> needs st"
    using assms(1,3) by (auto simp: has_pull_def)
  obtain b where "heap s q = Some (k\<lparr>j_ignore_order := b\<rparr>)" using assms(2) q(2) unfolding extends_def by blast
  moreover have "needs st \<subseteq> needs s" using assms(2) by (auto simp: extends_def needs_def)
  ultimately show "\<exists>q \<in> tr_set s. \<exists>k. heap s q = Some k \<and> j_unit k = snd tu \<and> j_type k = fst tu \<and> (m \<longrightarrow> (p, q) \<in> needs s)"
    using q extends_tr_set [OF assms(2) q(1)] by force
qed

lemma dep_pulls_cong:
  assumes "units s = units st"
  shows "dep_pulls s = dep_pulls st"
proof -
  have c: "collapsed s = collapsed st" by (simp add: fun_eq_iff collapsed_def assms)
  have "dep_pulls s t u = dep_pulls st t u" for t u unfolding dep_pulls_def assms c ..
  then show ?thesis by (simp add: fun_eq_iff)
qed

lemma pulled_in_mono:
  assumes "pulled_in st p" "extends st s" "units s = units st" "heap st p = Some j"
  shows "pulled_in s p"
proof -
  obtain b where "heap s p = Some (j\<lparr>j_ignore_order := b\<rparr>)" using assms(2,4) unfolding extends_def by blast
  moreover have "dep_pulls s = dep_pulls st" using dep_pulls_cong [OF assms(3)] .
  ultimately show ?thesis
    using assms(1,4) has_pull_mono [OF _ assms(2,3)] by (fastforce simp: pulled_in_def)
qed

lemma has_pull_no_matter: "has_pull st p True tu \<Longrightarrow> has_pull st p m tu"
  by (auto simp: has_pull_def)

text \<open>Jobs other than the one the call is about have a link to them.\<close>

definition linked :: "sys \<Rightarrow> jobp \<Rightarrow> bool" where
  "linked st q \<longleftrightarrow> (\<exists>l \<in> set (links st). d_object l = q)"

lemma linked_mono: "extends st s \<Longrightarrow> linked st q \<Longrightarrow> linked s q"
  by (auto simp: extends_def linked_def)

lemma add_linked_job_linked:
  "add_linked_job t u (Some k) m c io st = Some (p, is_new, s) \<Longrightarrow> linked s p"
  by (cases "transaction_add_one_job t u st") (auto simp: add_linked_job_def linked_def job_dependency_new_def)

text \<open>What the calls establish when all units are loaded.\<close>

definition added_post :: "sys \<Rightarrow> sys \<Rightarrow> jobp option \<Rightarrow> bool" where
  "added_post st st' by \<longleftrightarrow>
     units st' = units st \<and> (by \<noteq> None \<longrightarrow> tr_anchor st' = tr_anchor st) \<and>
     (\<forall>q \<in> tr_set st' - tr_set st. pulled_in st' q \<and> (linked st' q \<or> by = None \<and> tr_anchor st' = Some q))"

lemma added_post_trans:
  assumes "added_post st s1 (Some k)" "added_post s1 s2 (Some k)" "extends s1 s2" "wf_build s1"
  shows "added_post st s2 (Some k)"
proof -
  have "pulled_in s2 q \<and> linked s2 q" if q: "q \<in> tr_set s2 - tr_set st" for q
  proof (cases "q \<in> tr_set s1")
    case True
    then obtain j where "heap s1 q = Some j" using assms(4) tr_set_job by (metis wf_build_def)
    then show ?thesis
      using True q assms(1,2) pulled_in_mono [OF _ assms(3)] linked_mono [OF assms(3)] by (auto simp: added_post_def)
  qed (use q assms(2) in \<open>auto simp: added_post_def\<close>)
  then show ?thesis using assms(1,2) by (auto simp: added_post_def)
qed

definition no_nops :: "pull list \<Rightarrow> bool" where
  "no_nops pulls \<longleftrightarrow> (\<forall>pl \<in> set pulls. \<forall>tu \<in> set (fst pl). fst tu \<noteq> JOB_NOP)"

lemma dep_pulls_no_nops: "t \<noteq> JOB_NOP \<Longrightarrow> no_nops (dep_pulls st t u)"
  by (auto simp: no_nops_def dep_pulls_def Let_def collapsed_def)

definition all_pulled :: "sys \<Rightarrow> jobp \<Rightarrow> pull list \<Rightarrow> bool" where
  "all_pulled st p pulls \<longleftrightarrow> (\<forall>(tus, i, m, c) \<in> set pulls. \<forall>tu \<in> set tus. has_pull st p m tu)"

lemma all_pulled_conv: "all_pulled st p ((tu # tus, i, m, c) # pulls) \<longleftrightarrow>
    has_pull st p m tu \<and> all_pulled st p ((tus, i, m, c) # pulls)"
  "all_pulled st p (([], i, m, c) # pulls) \<longleftrightarrow> all_pulled st p pulls" "all_pulled st p []"
  by (auto simp: all_pulled_def)

lemma pulled_in_conv:
  "heap st p = Some j \<Longrightarrow> pulled_in st p \<longleftrightarrow> all_pulled st p (dep_pulls st (j_type j) (j_unit j))"
  by (simp add: pulled_in_def all_pulled_def)

definition has_job :: "sys \<Rightarrow> jobp option \<Rightarrow> bool \<Rightarrow> job_type \<Rightarrow> unitp \<Rightarrow> bool" where
  "has_job st by m t u \<longleftrightarrow> (\<exists>q \<in> tr_set st. \<exists>k. heap st q = Some k \<and> j_unit k = u \<and> j_type k = t \<and>
     (by = None \<longrightarrow> tr_anchor st = Some q) \<and> (\<forall>b. by = Some b \<longrightarrow> m \<longrightarrow> (b, q) \<in> needs st))"

lemma add_linked_job_has_job:
  assumes "wf_build st" "\<And>k. by = Some k \<Longrightarrow> k \<in> tr_set st"
    and "add_linked_job t u by m c io st = Some (p, is_new, s)"
  shows "has_job s by m t u"
  unfolding has_job_def using add_linked_job_wf(3,9,10,11) [OF assms] by (intro bexI [of _ p]) auto

lemma has_job_mono:
  assumes "has_job s1 by m t u" "extends s1 s2" "tr_anchor s2 = tr_anchor s1"
  shows "has_job s2 by m t u"
proof -
  obtain q k where q: "q \<in> tr_set s1" "heap s1 q = Some k" "j_unit k = u" "j_type k = t"
      "by = None \<longrightarrow> tr_anchor s1 = Some q" "\<forall>b. by = Some b \<longrightarrow> m \<longrightarrow> (b, q) \<in> needs s1"
    using assms(1) by (auto simp: has_job_def)
  obtain b where "heap s2 q = Some (k\<lparr>j_ignore_order := b\<rparr>)" using assms(2) q(2) unfolding extends_def by blast
  moreover have "needs s1 \<subseteq> needs s2" using assms(2) by (auto simp: extends_def needs_def)
  ultimately show ?thesis
    unfolding has_job_def using q extends_tr_set [OF assms(2) q(1)] assms(3) by (intro bexI [of _ q]) auto
qed

lemma add_job_complete:
  "transaction_add_job_and_dependencies n ld t u by m c ir io st = Some (r, st') \<Longrightarrow> wf_build st \<Longrightarrow>
    (\<And>k. by = Some k \<Longrightarrow> k \<in> tr_set st) \<Longrightarrow> loaded U st \<Longrightarrow> within U st \<Longrightarrow> u \<in> U \<Longrightarrow> t \<in> in_types \<Longrightarrow> t \<noteq> JOB_NOP \<Longrightarrow> \<not> ir \<Longrightarrow>
    added_post st st' by \<and> r = (if unit_job_is_applicable (units st u) t then Inr () else Inl EBADR) \<and>
    (r = Inr () \<longrightarrow> has_job st' by m t u)"
  "add_pulls n ld pulls p io st = Some (r, st') \<Longrightarrow> wf_build st \<Longrightarrow> p \<in> tr_set st \<Longrightarrow> loaded U st \<Longrightarrow> within U st \<Longrightarrow>
    pulls_in U pulls \<Longrightarrow> no_nops pulls \<Longrightarrow>
    added_post st st' (Some p) \<and> r = Inr () \<and> all_pulled st' p pulls"
proof (induction n ld t u "by" m c ir io st and n ld pulls p io st arbitrary: r st' and r st'
    rule: transaction_add_job_and_dependencies_add_pulls.induct)
  case (2 n ld t u "by" m c ir io st)
  have chk: "check_unit ld t u st = (if unit_job_is_applicable (units st u) t then Inr () else Inl EBADR, st)"
    using check_unit_loaded "2.prems"(4,6) by (auto simp: loaded_def)
  have t: "\<not> JOB_TYPE_MAX_IN_TRANSACTION \<le> job_type_value t" using "2.prems"(7) by (simp add: in_types)
  show ?case
  proof (cases "unit_job_is_applicable (units st u) t")
    case False
    then show ?thesis using "2.prems"(1) chk t by (auto simp: added_post_def)
  next
    case True
    then obtain p is_new s1 where add: "add_linked_job t u by m c io st = Some (p, is_new, s1)"
      using "2.prems"(1) chk t by (auto simp: bind_eq_Some_conv)
    note l = add_linked_job_wf [OF "2.prems"(2,3) add]
    obtain j where j: "heap s1 p = Some j" "j_unit j = u" "j_type j = t" using l(9) by blast
    have hj: "has_job s1 by m t u" using add_linked_job_has_job [OF "2.prems"(2,3) add] .
    have lk: "linked s1 p \<or> by = None \<and> tr_anchor s1 = Some p"
      using add_linked_job_linked [of t u _ m c io st p is_new s1] add l(10) by (cases "by") auto
    show ?thesis
    proof (cases is_new)
      case False
      then have "st' = s1" "r = Inr ()" using "2.prems"(1) chk t True add by auto
      then show ?thesis using l(4,5,8,10) False hj True by (auto simp: added_post_def)
    next
      case new: True
      have pulls: "add_pulls n ld (dep_pulls s1 t u) p io s1 = Some (r, st')"
        using "2.prems"(1,8,9) chk t True add new by auto
      have "loaded U s1" "within U s1" using "2.prems"(4,5) l(8) by (simp_all add: loaded_def within_def)
      then have post: "added_post s1 st' (Some p)" "r = Inr ()" "all_pulled st' p (dep_pulls s1 t u)"
        using "2.IH" [OF t _ _ _ _ _ _ pulls] chk True add new "2.prems"(7-9) l(1,3)
          dep_pulls_in [OF \<open>within U s1\<close> "2.prems"(6,7)] dep_pulls_no_nops [OF "2.prems"(8)] by auto
      have ext: "extends s1 st'" using add_job_extends(2) [OF pulls l(1,3)] by blast
      have u': "units st' = units s1" "tr_anchor st' = tr_anchor s1" using post(1) by (auto simp: added_post_def)
      obtain b where "heap st' p = Some (j\<lparr>j_ignore_order := b\<rparr>)" using ext j(1) unfolding extends_def by blast
      then have "pulled_in st' p" using pulled_in_conv post(3) dep_pulls_cong [OF u'(1)] j by simp
      moreover have "linked st' p \<or> by = None \<and> tr_anchor st' = Some p" using lk linked_mono [OF ext] u'(2) by auto
      ultimately have "added_post st st' by"
        using post(1) l(4,8,10) u' by (auto simp: added_post_def)
      then show ?thesis using post(2) True has_job_mono [OF hj ext u'(2)] by simp
    qed
  qed
next
  case (5 n ld t u tus ignored m c pulls p io st)
  have in5: "t \<in> in_types" "u \<in> U" "pulls_in U ((tus, ignored, m, c) # pulls)" "t \<noteq> JOB_NOP"
      "no_nops ((tus, ignored, m, c) # pulls)"
    using "5.prems"(6,7) by (auto simp: pulls_in_def no_nops_def)
  obtain r1 s1 where a: "transaction_add_job_and_dependencies n ld t u (Some p) m c False io st = Some (r1, s1)"
    using "5.prems"(1) by (auto simp: bind_eq_Some_conv)
  have post1: "added_post st s1 (Some p)" "r1 = (if unit_job_is_applicable (units st u) t then Inr () else Inl EBADR)"
      "r1 = Inr () \<longrightarrow> has_job s1 (Some p) m t u"
    using "5.IH"(1) [OF a "5.prems"(2) _ "5.prems"(4,5) in5(2,1,4)] "5.prems"(3) by auto
  have s1: "wf_build s1" "extends st s1" using add_job_extends(1) [OF a "5.prems"(2)] "5.prems"(3) by auto
  have p1: "p \<in> tr_set s1" using extends_tr_set [OF s1(2) "5.prems"(3)] .
  have u1: "units s1 = units st" using post1(1) by (simp add: added_post_def)
  have in1: "loaded U s1" "within U s1" using "5.prems"(4,5) u1 by (simp_all add: loaded_def within_def)
  have rest: "add_pulls n ld ((tus, ignored, m, c) # pulls) p io s1 = Some (r, st')"
    using "5.prems"(1) a post1(2) by (auto split: if_splits)
  have post2: "added_post s1 st' (Some p) \<and> r = Inr () \<and> all_pulled st' p ((tus, ignored, m, c) # pulls)"
  proof (cases r1)
    case (Inl e)
    then have "e = EBADR" using post1(2) by (auto split: if_splits)
    then show ?thesis using "5.IH"(2) [OF a refl Inl _ rest s1(1) p1 in1 in5(3,5)] by simp
  next
    case (Inr x)
    then show ?thesis using "5.IH"(3) [OF a refl Inr rest s1(1) p1 in1 in5(3,5)] by simp
  qed
  have ext: "extends s1 st'" using add_job_extends(2) [OF rest s1(1) p1] by blast
  have "has_pull s1 p m (t, u)"
    using post1(2,3) u1 by (auto simp: has_pull_def has_job_def split: if_splits)
  then have "has_pull st' p m (t, u)" using has_pull_mono [OF _ ext] post2 by (simp add: added_post_def)
  then show ?case
    using added_post_trans [OF post1(1) _ ext s1(1)] post2 by (simp add: all_pulled_conv)
next
  case (4 n ld ignored m c pulls p io st)
  then show ?case by (simp add: pulls_in_def no_nops_def all_pulled_conv)
qed (auto simp: added_post_def all_pulled_conv)

section \<open>The properties\<close>

text \<open>
  C18.  Building a transaction always ends and collects everything that is needed.  Let \<open>U\<close> be a
  finite set of loaded units that contains every unit its members name.  Then six nested calls
  per unit are enough to add an applicable job for a unit of \<open>U\<close> to an empty transaction; the
  call succeeds, the transaction is well formed, its anchor is the requested job, every other job
  has a link to it, and every job has pulled in the jobs its unit's dependencies ask for.
\<close>

theorem transaction_build_complete:
  assumes "finite U" "within U st" "loaded U st" "loader_in U ld" "u \<in> U"
    and "wf_build st" "tr_jobs st = []" "tr_anchor st = None"
    and "t \<in> in_types" "t \<noteq> JOB_NOP" "unit_job_is_applicable (units st u) t"
  shows "\<exists>st' a. transaction_add_job_and_dependencies (Suc (6 * card U)) ld t u None True False False io st =
      Some (Inr (), st') \<and> wf_build st' \<and> units st' = units st \<and>
    tr_anchor st' = Some a \<and> a \<in> tr_set st' \<and> j_unit (job_at st' a) = u \<and> j_type (job_at st' a) = t \<and>
    (\<forall>p \<in> tr_set st'. pulled_in st' p \<and> (p = a \<or> linked st' p))"
proof -
  have m: "missing U st < Suc (6 * card U)" using missing_le [OF assms(1)] by (simp add: less_Suc_eq_le)
  obtain r st' where st': "transaction_add_job_and_dependencies (Suc (6 * card U)) ld t u None True False False io st = Some (r, st')"
    using add_job_total(1) [OF assms(1,4,6,2), of None t u] assms(5,8,9) m by blast
  have "wf_build st'" using add_job_extends(1) [OF st' assms(6)] by simp
  moreover have post: "added_post st st' None" "r = Inr ()" "has_job st' None True t u"
    using add_job_complete(1) [OF st' assms(6) _ assms(3,2,5,9,10)] assms(11) by auto
  moreover have "tr_set st = {}" using assms(7) by (simp add: tr_set_def)
  ultimately show ?thesis using st' by (auto simp: has_job_def added_post_def)
qed

text \<open>Unit 20 requires unit 21, which conflicts with unit 22.\<close>

definition ex_build :: sys where
  "ex_build = idle_sys\<lparr>units := (\<lambda>_. plain_unit)
     (20 := plain_unit\<lparr>u_dependencies := [(UNIT_REQUIRES, [21])]\<rparr>,
      21 := plain_unit\<lparr>u_dependencies := [(UNIT_CONFLICTS, [22]), (UNIT_REQUIRED_BY, [20])]\<rparr>)\<rparr>"

theorem transaction_build_complete_witness:
  "\<exists>st' a. transaction_add_job_and_dependencies 19 (\<lambda>_ _. None) JOB_START 20 None True False False False ex_build =
      Some (Inr (), st') \<and> tr_anchor st' = Some a \<and> pulled_in st' a"
proof -
  have "within {20, 21, 22} ex_build" "loaded {20, 21, 22} ex_build" "wf_build ex_build"
    "unit_job_is_applicable (units ex_build 20) JOB_START"
    by (simp_all add: within_def units_in_def loaded_def ex_build_def plain_unit_def wf_build_def wf_trans_def
        wf_links_def tr_set_def idle_sys_def)
  moreover have "tr_jobs ex_build = []" "tr_anchor ex_build = None" by (simp_all add: ex_build_def idle_sys_def)
  ultimately show ?thesis
    using transaction_build_complete [of "{20, 21, 22}" ex_build "\<lambda>_ _. None" 20 JOB_START False]
    by (auto simp: loader_in_def in_types_def simp del: transaction_add_job_and_dependencies.simps)
qed

text \<open>
  Unit 20 requires units 21 and 22, in the given order; unit 21 wants unit 22; unit 22 requires
  unit 23, which does not exist.
\<close>

definition ex_required :: "unitp list \<Rightarrow> sys" where
  "ex_required us = idle_sys\<lparr>units := (\<lambda>_. plain_unit)
     (20 := plain_unit\<lparr>u_dependencies := [(UNIT_REQUIRES, us)]\<rparr>,
      21 := plain_unit\<lparr>u_dependencies := [(UNIT_WANTS, [22])]\<rparr>,
      22 := plain_unit\<lparr>u_dependencies := [(UNIT_REQUIRES, [23])]\<rparr>,
      23 := plain_unit\<lparr>u_load_state := UNIT_NOT_FOUND\<rparr>)\<rparr>"

lemma foreach_requires:
  "UNIT_FOREACH_DEPENDENCY [(UNIT_REQUIRES, us)] UNIT_ATOM_PULL_IN_START = us"
  "UNIT_FOREACH_DEPENDENCY [(UNIT_REQUIRES, us)] UNIT_ATOM_PULL_IN_START_IGNORED = []"
  "UNIT_FOREACH_DEPENDENCY [(UNIT_REQUIRES, us)] UNIT_ATOM_PULL_IN_VERIFY = []"
  "UNIT_FOREACH_DEPENDENCY [(UNIT_REQUIRES, us)] UNIT_ATOM_PULL_IN_STOP = []"
  "UNIT_FOREACH_DEPENDENCY [(UNIT_REQUIRES, us)] UNIT_ATOM_PULL_IN_STOP_IGNORED = []"
  "UNIT_FOREACH_DEPENDENCY [(UNIT_WANTS, us)] UNIT_ATOM_PULL_IN_START = []"
  "UNIT_FOREACH_DEPENDENCY [(UNIT_WANTS, us)] UNIT_ATOM_PULL_IN_START_IGNORED = us"
  "UNIT_FOREACH_DEPENDENCY [(UNIT_WANTS, us)] UNIT_ATOM_PULL_IN_VERIFY = []"
  "UNIT_FOREACH_DEPENDENCY [(UNIT_WANTS, us)] UNIT_ATOM_PULL_IN_STOP = []"
  "UNIT_FOREACH_DEPENDENCY [(UNIT_WANTS, us)] UNIT_ATOM_PULL_IN_STOP_IGNORED = []"
  by (simp_all add: UNIT_FOREACH_DEPENDENCY_def unit_dependency_from_unique_atom_def atom_defs)

lemma dep_pulls_ex_required:
  assumes "units st = units (ex_required us)"
  shows "dep_pulls st JOB_START 20 = [([], True, False, False), (map (Pair JOB_START) us, False, True, False),
      ([], True, False, False), ([], False, True, False), ([], False, True, True), ([], True, False, False)]"
    "dep_pulls st JOB_START 21 = [([], True, False, False), ([], False, True, False),
      ([(JOB_START, 22)], True, False, False), ([], False, True, False), ([], False, True, True), ([], True, False, False)]"
    "dep_pulls st JOB_START 22 = [([], True, False, False), ([(JOB_START, 23)], False, True, False),
      ([], True, False, False), ([], False, True, False), ([], False, True, True), ([], True, False, False)]"
  unfolding dep_pulls_def assms by (simp_all add: ex_required_def foreach_requires plain_unit_def Let_def)

lemma check_unit_ex_required:
  assumes "units st = units (ex_required us)"
  shows "check_unit (\<lambda>_ _. None) JOB_START 20 st = (Inr (), st)" "check_unit (\<lambda>_ _. None) JOB_START 21 st = (Inr (), st)"
    "check_unit (\<lambda>_ _. None) JOB_START 22 st = (Inr (), st)" "check_unit (\<lambda>_ _. None) JOB_START 23 st = (Inl ENOENT, st)"
  unfolding check_unit_def assms by (simp_all add: ex_required_def plain_unit_def UNIT_IS_LOAD_COMPLETE_def)

lemma ex_required_fields:
  "tr_jobs (ex_required us) = []" "tr_anchor (ex_required us) = None" "next_job (ex_required us) = 1"
  "heap (ex_required us) = (\<lambda>_. None)"
  by (simp_all add: ex_required_def idle_sys_def)


end
