(* ===== verification/Job_Engine.thy ===== *)
theory Job_Engine
  imports Job
begin

text \<open>
  The life of an installed job (\<open>src/core/job.c\<close>): its state and timers, the three job queues,
  installing and uninstalling, running, finishing, and the questions which jobs wait for which.

  \<^item> A failed \<open>assert()\<close> is \<open>None\<close>.
  \<^item> \<open>job_finish_and_invalidate\<close> calls itself on the jobs of dependent units.  Its fuel bounds the
    depth of these calls; running out of it is \<open>None\<close> too.
  \<^item> What units do on their own when a job is started or finished is a parameter, the record
    \<open>hooks\<close>: \<open>unit_start_on_failure\<close>, \<open>unit_trigger_notify\<close>, the calls at the end of
    \<open>job_finish_and_invalidate\<close> (the three submit queues and \<open>manager_check_finished\<close>), and
    \<open>unit_start\<close>, \<open>unit_stop\<close> and \<open>unit_reload\<close>.
  \<^item> Messages on the console and on the bus, and the queues of units, are not modelled.
\<close>

section \<open>Time\<close>

definition USEC_INFINITY :: u64 where
  "USEC_INFINITY = -1"

definition usec_add :: "u64 \<Rightarrow> u64 \<Rightarrow> u64" where
  "usec_add a b = (if a > USEC_INFINITY - b then USEC_INFINITY else a + b)"

section \<open>State and queues\<close>

definition job_set_state :: "jobp \<Rightarrow> job_state \<Rightarrow> sys \<Rightarrow> sys option" where
  "job_set_state p s st =
     (let j = job_at st p in
      if j_state j = s then Some st
      else
        let st1 = upd_job p (\<lambda>j. j\<lparr>j_state := s\<rparr>) st in
        if \<not> j_installed j then Some st1
        else if s = JOB_RUNNING then Some (st1\<lparr>n_running_jobs := n_running_jobs st1 + 1\<rparr>)
        else if n_running_jobs st1 > 0 then Some (st1\<lparr>n_running_jobs := n_running_jobs st1 - 1\<rparr>)
        else None)"

definition job_slot :: "job_type \<Rightarrow> unit_rec \<Rightarrow> jobp option" where
  "job_slot t u = (if t = JOB_NOP then u_nop_job u else u_job u)"

definition set_job_slot :: "job_type \<Rightarrow> unitp \<Rightarrow> jobp option \<Rightarrow> sys \<Rightarrow> sys" where
  "set_job_slot t u v st =
     upd_unit u (\<lambda>r. if t = JOB_NOP then r\<lparr>u_nop_job := v\<rparr> else r\<lparr>u_job := v\<rparr>) st"

definition job_uninstall :: "jobp \<Rightarrow> sys \<Rightarrow> sys option" where
  "job_uninstall p st =
     (if \<not> j_installed (job_at st p) then None
      else do {
        st \<leftarrow> job_set_state p JOB_WAITING st;
        let j = job_at st p;
        if job_slot (j_type j) (units st (j_unit j)) \<noteq> Some p then None
        else
          let st = set_job_slot (j_type j) (j_unit j) None st;
              st = st\<lparr>m_jobs := filter (\<lambda>e. e \<noteq> (j_id j, p)) (m_jobs st)\<rparr>
          in Some (upd_job p (\<lambda>j. j\<lparr>j_installed := False\<rparr>) st)
      })"

definition job_add_to_run_queue :: "jobp \<Rightarrow> sys \<Rightarrow> sys option" where
  "job_add_to_run_queue p st =
     (if \<not> j_installed (job_at st p) then None
      else if j_in_run_queue (job_at st p) then Some st
      else Some (upd_job p (\<lambda>j. j\<lparr>j_in_run_queue := True\<rparr>) (st\<lparr>run_queue := p # run_queue st\<rparr>)))"

definition job_add_to_dbus_queue :: "jobp \<Rightarrow> sys \<Rightarrow> sys option" where
  "job_add_to_dbus_queue p st =
     (if \<not> j_installed (job_at st p) then None
      else if j_in_dbus_queue (job_at st p) then Some st
      else Some (upd_job p (\<lambda>j. j\<lparr>j_in_dbus_queue := True\<rparr>)
                   (st\<lparr>dbus_job_queue := p # dbus_job_queue st\<rparr>)))"

text \<open>The jobs installed for the units ordered after or before this one.\<close>

definition ordered_jobs :: "sys \<Rightarrow> unitp \<Rightarrow> u64 \<Rightarrow> jobp list" where
  "ordered_jobs st u atom =
     List.map_filter (\<lambda>v. u_job (units st v)) (UNIT_FOREACH_DEPENDENCY (u_dependencies (units st u)) atom)"

text \<open>The check resets a stale reference of a private bus connection, so it returns the state.\<close>

definition job_may_gc :: "jobp \<Rightarrow> sys \<Rightarrow> bool \<times> sys" where
  "job_may_gc p st =
     (let j = job_at st p in
      if \<not> u_gc_jobs (units st (j_unit j)) then (False, st)
      else if j_bus_refs j > 0 then (False, st)
      else if j_ref_by_private_bus j \<and> private_buses st then (False, st)
      else
        let st = (if j_ref_by_private_bus j
                  then upd_job p (\<lambda>j. j\<lparr>j_ref_by_private_bus := False\<rparr>) st else st)
        in
        if j_type j = JOB_NOP then (False, st)
        else if list_ex (\<lambda>q. job_compare j (job_at st q) UNIT_ATOM_BEFORE < 0)
             (ordered_jobs st (j_unit j) UNIT_ATOM_BEFORE) then (False, st)
        else if list_ex (\<lambda>q. job_compare j (job_at st q) UNIT_ATOM_AFTER < 0)
             (ordered_jobs st (j_unit j) UNIT_ATOM_AFTER) then (False, st)
        else (True, st))"

definition job_add_to_gc_queue :: "jobp \<Rightarrow> sys \<Rightarrow> sys" where
  "job_add_to_gc_queue p st =
     (if j_in_gc_queue (job_at st p) then st
      else
        let (may, st) = job_may_gc p st in
        if \<not> may then st
        else upd_job p (\<lambda>j. j\<lparr>j_in_gc_queue := True\<rparr>) (st\<lparr>gc_job_queue := p # gc_job_queue st\<rparr>))"

section \<open>Timers\<close>

definition job_start_timer :: "jobp \<Rightarrow> bool \<Rightarrow> sys \<Rightarrow> sys" where
  "job_start_timer p job_running st =
     (if job_running then
        let st = upd_job p (\<lambda>j. j\<lparr>j_begin_running_usec := now_usec st\<rparr>) st;
            u = unit_of st p;
            timeout_time = usec_add (j_begin_running_usec (job_at st p)) (u_job_running_timeout u)
        in
        if u_job_running_timeout u = USEC_INFINITY then st
        else
          (case j_timer (job_at st p) of
             Some old_timeout_time \<Rightarrow>
               if old_timeout_time \<le> timeout_time then st
               else upd_job p (\<lambda>j. j\<lparr>j_timer := Some timeout_time\<rparr>) st
           | None \<Rightarrow> upd_job p (\<lambda>j. j\<lparr>j_timer := Some timeout_time\<rparr>) st)
      else if j_timer (job_at st p) \<noteq> None then st
      else
        let st = upd_job p (\<lambda>j. j\<lparr>j_begin_usec := now_usec st\<rparr>) st; u = unit_of st p in
        if u_job_timeout u = USEC_INFINITY then st
        else upd_job p (\<lambda>j. j\<lparr>j_timer := Some (usec_add (j_begin_usec j) (u_job_timeout u))\<rparr>) st)"

definition job_get_timeout :: "jobp \<Rightarrow> sys \<Rightarrow> u64 option" where
  "job_get_timeout p st =
     (let x = (case j_timer (job_at st p) of None \<Rightarrow> USEC_INFINITY | Some t \<Rightarrow> t);
          y = (case u_get_timeout (unit_of st p) of None \<Rightarrow> USEC_INFINITY | Some t \<Rightarrow> t)
      in if x = USEC_INFINITY \<and> y = USEC_INFINITY then None else Some (min x y))"

definition job_coldplug :: "jobp \<Rightarrow> sys \<Rightarrow> sys option" where
  "job_coldplug p st = do {
     st \<leftarrow> (if j_state (job_at st p) = JOB_WAITING then job_add_to_run_queue p st else Some st);
     let st = job_add_to_gc_queue p st;
     let j = job_at st p;
     let u = unit_of st p;
     if j_begin_usec j = 0 then Some st
     else
       let timeout_time = (if u_job_timeout u \<noteq> USEC_INFINITY
                           then usec_add (j_begin_usec j) (u_job_timeout u) else USEC_INFINITY);
           timeout_time = (if j_begin_running_usec j > 0 \<and> j_begin_running_usec j \<noteq> USEC_INFINITY
                           then min timeout_time (usec_add (j_begin_running_usec j) (u_job_running_timeout u))
                           else timeout_time)
       in if timeout_time = USEC_INFINITY then Some st
          else Some (upd_job p (\<lambda>j. j\<lparr>j_timer := Some timeout_time\<rparr>) st)
   }"

section \<open>Who waits for whom\<close>

definition job_is_runnable :: "jobp \<Rightarrow> sys \<Rightarrow> bool" where
  "job_is_runnable p st =
     (let j = job_at st p in
      if j_ignore_order j then True
      else if j_type j = JOB_NOP then True
      else if list_ex (\<lambda>q. job_compare j (job_at st q) UNIT_ATOM_AFTER > 0)
           (ordered_jobs st (j_unit j) UNIT_ATOM_AFTER) then False
      else if list_ex (\<lambda>q. job_compare j (job_at st q) UNIT_ATOM_BEFORE > 0)
           (ordered_jobs st (j_unit j) UNIT_ATOM_BEFORE) then False
      else True)"

text \<open>Sort by identifier, then drop a job that follows itself.\<close>

fun drop_repeated :: "jobp option \<Rightarrow> jobp list \<Rightarrow> jobp list" where
  "drop_repeated previous [] = []"
| "drop_repeated previous (p # ps) =
     (if previous = Some p then drop_repeated previous ps else p # drop_repeated (Some p) ps)"

definition sort_job_list :: "sys \<Rightarrow> jobp list \<Rightarrow> jobp list" where
  "sort_job_list st ps = drop_repeated None (sort_key (\<lambda>p. j_id (job_at st p)) ps)"

definition job_get_before :: "jobp \<Rightarrow> sys \<Rightarrow> jobp list" where
  "job_get_before p st =
     (let j = job_at st p in
      if j_ignore_order j then []
      else sort_job_list st
        (filter (\<lambda>q. job_compare j (job_at st q) UNIT_ATOM_AFTER > 0)
           (ordered_jobs st (j_unit j) UNIT_ATOM_AFTER) @
         filter (\<lambda>q. job_compare j (job_at st q) UNIT_ATOM_BEFORE > 0)
           (ordered_jobs st (j_unit j) UNIT_ATOM_BEFORE)))"

definition job_get_after :: "jobp \<Rightarrow> sys \<Rightarrow> jobp list" where
  "job_get_after p st =
     (let j = job_at st p in
      sort_job_list st
        (filter (\<lambda>q. \<not> j_ignore_order (job_at st q) \<and> job_compare j (job_at st q) UNIT_ATOM_BEFORE < 0)
           (ordered_jobs st (j_unit j) UNIT_ATOM_BEFORE) @
         filter (\<lambda>q. \<not> j_ignore_order (job_at st q) \<and> job_compare j (job_at st q) UNIT_ATOM_AFTER < 0)
           (ordered_jobs st (j_unit j) UNIT_ATOM_AFTER)))"

section \<open>Finishing\<close>

record hooks =
  h_start_on_failure :: "unitp \<Rightarrow> sys \<Rightarrow> sys"
  h_trigger_notify :: "unitp \<Rightarrow> sys \<Rightarrow> sys"
  h_finished :: "unitp \<Rightarrow> sys \<Rightarrow> sys"
  h_perform :: "job_type \<Rightarrow> unitp \<Rightarrow> sys \<Rightarrow> (err + unit) \<times> sys"

fun enqueue_jobs :: "jobp list \<Rightarrow> sys \<Rightarrow> sys option" where
  "enqueue_jobs [] st = Some st"
| "enqueue_jobs (p # ps) st = do {
     st \<leftarrow> job_add_to_run_queue p st;
     enqueue_jobs ps (job_add_to_gc_queue p st)
   }"

text \<open>The end of \<open>job_finish_and_invalidate\<close>, from the label \<open>finish\<close> on.\<close>

definition start_next_jobs :: "hooks \<Rightarrow> unitp \<Rightarrow> sys \<Rightarrow> sys option" where
  "start_next_jobs hk u st = do {
     st \<leftarrow> enqueue_jobs (ordered_jobs st u UNIT_ATOM_AFTER) st;
     st \<leftarrow> enqueue_jobs (ordered_jobs st u UNIT_ATOM_BEFORE) st;
     Some (h_finished hk u st)
   }"

definition restart_becomes_start :: "jobp \<Rightarrow> sys \<Rightarrow> sys option" where
  "restart_becomes_start p st = do {
     st \<leftarrow> job_set_state p JOB_WAITING (upd_job p (\<lambda>j. j\<lparr>j_type := JOB_START\<rparr>) st);
     st \<leftarrow> job_add_to_dbus_queue p st;
     st \<leftarrow> job_add_to_run_queue p st;
     Some (job_add_to_gc_queue p st)
   }"

function job_finish_and_invalidate ::
    "nat \<Rightarrow> hooks \<Rightarrow> jobp \<Rightarrow> job_result \<Rightarrow> bool \<Rightarrow> sys \<Rightarrow> sys option"
  and job_fail_dependencies :: "nat \<Rightarrow> hooks \<Rightarrow> unitp list \<Rightarrow> sys \<Rightarrow> sys option" where
  "job_finish_and_invalidate 0 hk p result recursive st = None"
| "job_finish_and_invalidate (Suc n) hk p result recursive st =
     (let j = job_at st p; u = j_unit j; t = j_type j in
      if \<not> j_installed j \<or> job_type_value t \<ge> JOB_TYPE_MAX_IN_TRANSACTION then None
      else
        let st = upd_job p (\<lambda>j. j\<lparr>j_result := result\<rparr>) st in
        if result = JOB_DONE \<and> t = JOB_RESTART then do {
          st \<leftarrow> restart_becomes_start p st;
          start_next_jobs hk u st
        } else do {
          let st = (if result \<in> {JOB_FAILED, JOB_INVALID}
                    then st\<lparr>n_failed_jobs := n_failed_jobs st + 1\<rparr> else st);
          st \<leftarrow> job_uninstall p st;
          let st = job_free p st;
          st \<leftarrow> (if result \<noteq> JOB_DONE \<and> recursive then
                   if t \<in> {JOB_START, JOB_VERIFY_ACTIVE} then
                     job_fail_dependencies n hk
                       (UNIT_FOREACH_DEPENDENCY (u_dependencies (units st u)) UNIT_ATOM_PROPAGATE_START_FAILURE) st
                   else if t = JOB_STOP then
                     job_fail_dependencies n hk
                       (UNIT_FOREACH_DEPENDENCY (u_dependencies (units st u)) UNIT_ATOM_PROPAGATE_STOP_FAILURE) st
                   else Some st
                 else Some st);
          st \<leftarrow> (if result = JOB_DONE \<and> recursive \<and> t \<in> {JOB_START, JOB_RELOAD} \<and>
                    \<not> UNIT_IS_ACTIVE_OR_RELOADING (u_active_state (units st u)) then
                   job_fail_dependencies n hk
                     (UNIT_FOREACH_DEPENDENCY (u_dependencies (units st u))
                        UNIT_ATOM_PROPAGATE_INACTIVE_START_AS_FAILURE) st
                 else Some st);
          let st = (if result \<in> {JOB_TIMEOUT, JOB_DEPENDENCY} then h_start_on_failure hk u st else st);
          start_next_jobs hk u (h_trigger_notify hk u st)
        })"
| "job_fail_dependencies n hk [] st = Some st"
| "job_fail_dependencies n hk (v # vs) st =
     (case u_job (units st v) of
        None \<Rightarrow> job_fail_dependencies n hk vs st
      | Some q \<Rightarrow>
          if j_type (job_at st q) \<notin> {JOB_START, JOB_VERIFY_ACTIVE} then job_fail_dependencies n hk vs st
          else do {
            st \<leftarrow> job_finish_and_invalidate n hk q JOB_DEPENDENCY True st;
            job_fail_dependencies n hk vs st
          })"
  by pat_completeness auto
termination
  by (relation "measures [\<lambda>x. case x of Inl (n, _) \<Rightarrow> n | Inr (n, _) \<Rightarrow> n,
                          \<lambda>x. case x of Inl _ \<Rightarrow> 0 | Inr (n, hk, vs, _) \<Rightarrow> Suc (length vs)]") auto

definition job_dispatch_timer :: "nat \<Rightarrow> hooks \<Rightarrow> jobp \<Rightarrow> sys \<Rightarrow> sys option" where
  "job_dispatch_timer n hk p st = job_finish_and_invalidate n hk p JOB_TIMEOUT True st"

section \<open>Installing\<close>

definition job_merge_into_installed :: "jobp \<Rightarrow> jobp \<Rightarrow> sys \<Rightarrow> sys option" where
  "job_merge_into_installed p other st =
     (let j = job_at st p; k = job_at st other in
      if \<not> j_installed j \<or> j_unit j \<noteq> j_unit k then None
      else do {
        t \<leftarrow> (if j_type j \<noteq> JOB_NOP then
                (case job_type_merge_and_collapse (j_type j) (j_type k) (u_active_state (units st (j_unit j))) of
                   Some (Inr t) \<Rightarrow> Some t
                 | _ \<Rightarrow> None)
              else if j_type k = JOB_NOP then Some JOB_NOP else None);
        Some (upd_job p (\<lambda>j. j\<lparr>j_type := t, j_irreversible := j_irreversible j \<or> j_irreversible k,
                               j_ignore_order := j_ignore_order j \<or> j_ignore_order k\<rparr>) st)
      })"

definition install_new :: "jobp \<Rightarrow> sys \<Rightarrow> (jobp \<times> sys) option" where
  "install_new p st =
     (let j = job_at st p;
          st = set_job_slot (j_type j) (j_unit j) (Some p) st;
          st = upd_job p (\<lambda>j. j\<lparr>j_installed := True\<rparr>) st;
          st = st\<lparr>n_installed_jobs := n_installed_jobs st + 1\<rparr>;
          st = job_add_to_gc_queue p st
      in do {
        st \<leftarrow> job_add_to_dbus_queue p st;
        Some (p, st)
      })"

definition job_install :: "nat \<Rightarrow> hooks \<Rightarrow> jobp \<Rightarrow> sys \<Rightarrow> (jobp \<times> sys) option" where
  "job_install n hk p st =
     (let j = job_at st p in
      if j_installed j \<or> job_type_value (j_type j) \<ge> JOB_TYPE_MAX_IN_TRANSACTION \<or> j_state j \<noteq> JOB_WAITING
      then None
      else
        case job_slot (j_type j) (units st (j_unit j)) of
          None \<Rightarrow> install_new p st
        | Some q \<Rightarrow> do {
            let uj = job_at st q;
            conflicting \<leftarrow> job_type_is_conflicting (j_type uj) (j_type j);
            if conflicting then do {
              st \<leftarrow> job_finish_and_invalidate n hk q JOB_CANCELED False st;
              install_new p st
            } else do {
              superset \<leftarrow> job_type_is_superset (j_type uj) (j_type j);
              st \<leftarrow> job_merge_into_installed q p st;
              if j_state uj = JOB_WAITING \<or> (job_type_allows_late_merge (j_type j) \<and> superset)
              then Some (q, st)
              else do {
                st \<leftarrow> job_set_state q JOB_WAITING st;
                Some (q, st)
              }
            }
          })"

definition job_install_deserialized :: "jobp \<Rightarrow> sys \<Rightarrow> ((err + unit) \<times> sys) option" where
  "job_install_deserialized p st =
     (let j = job_at st p in
      if j_installed j then None
      else if job_type_value (j_type j) \<ge> JOB_TYPE_MAX_IN_TRANSACTION then Some (Inl EINVAL, st)
      else if job_slot (j_type j) (units st (j_unit j)) \<noteq> None then Some (Inl EEXIST, st)
      else if map_of (m_jobs st) (j_id j) \<noteq> None then Some (Inl EEXIST, st)
      else
        let st = st\<lparr>m_jobs := (j_id j, p) # m_jobs st\<rparr>;
            st = set_job_slot (j_type j) (j_unit j) (Some p) st;
            st = upd_job p (\<lambda>j. j\<lparr>j_installed := True\<rparr>) st;
            st = (if j_state j = JOB_RUNNING then st\<lparr>n_running_jobs := n_running_jobs st + 1\<rparr> else st)
        in Some (Inr (), st))"

section \<open>Running\<close>

definition remove_from_run_queue :: "jobp \<Rightarrow> sys \<Rightarrow> sys" where
  "remove_from_run_queue p st =
     upd_job p (\<lambda>j. j\<lparr>j_in_run_queue := False\<rparr>) (st\<lparr>run_queue := remove1 p (run_queue st)\<rparr>)"

text \<open>
  The job may be gone when the unit has been asked to do something; it is looked up again by its
  identifier.
\<close>

definition job_perform_on_unit ::
    "hooks \<Rightarrow> jobp \<Rightarrow> sys \<Rightarrow> (jobp option \<times> (err + unit) \<times> sys) option" where
  "job_perform_on_unit hk p st =
     (let j = job_at st p; t = j_type j in
      if t \<notin> {JOB_START, JOB_RESTART, JOB_STOP, JOB_RELOAD} then None
      else
        let (r, st) = h_perform hk (if t = JOB_RESTART then JOB_STOP else t) (j_unit j) st;
            wait_only = (t \<noteq> JOB_RELOAD \<and> r = Inl EBADR)
        in Some (map_of (m_jobs st) (j_id j), if wait_only then Inr () else r, st))"

fun result_of_error :: "err \<Rightarrow> job_result" where
  "result_of_error e =
     (if e = EALREADY then JOB_DONE
      else if e = ECOMM then JOB_DONE
      else if e = EBADR then JOB_SKIPPED
      else if e = ENOEXEC then JOB_INVALID
      else if e = EPROTO then JOB_ASSERT
      else if e = EOPNOTSUPP then JOB_UNSUPPORTED
      else if e = ENOLINK then JOB_DEPENDENCY
      else if e = ESTALE then JOB_ONCE
      else JOB_FAILED)"

definition perform_job :: "hooks \<Rightarrow> jobp \<Rightarrow> sys \<Rightarrow> (jobp option \<times> (err + unit) \<times> sys) option" where
  "perform_job hk p st =
     (let j = job_at st p; s = u_active_state (units st (j_unit j)) in
      if j_type j = JOB_VERIFY_ACTIVE then
        Some (Some p,
              (if UNIT_IS_ACTIVE_OR_RELOADING s then Inl EALREADY
               else if s = UNIT_ACTIVATING then Inl EAGAIN
               else Inl EBADR), st)
      else if j_type j = JOB_NOP then Some (Some p, Inl EALREADY, st)
      else job_perform_on_unit hk p st)"

definition job_run_and_invalidate :: "nat \<Rightarrow> hooks \<Rightarrow> jobp \<Rightarrow> sys \<Rightarrow> ((err + unit) \<times> sys) option" where
  "job_run_and_invalidate n hk p st =
     (let j = job_at st p in
      if \<not> j_installed j \<or> job_type_value (j_type j) \<ge> JOB_TYPE_MAX_IN_TRANSACTION \<or> \<not> j_in_run_queue j
      then None
      else
        let st = remove_from_run_queue p st in
        if j_state j \<noteq> JOB_WAITING then Some (Inr (), st)
        else if \<not> job_is_runnable p st then Some (Inl EAGAIN, st)
        else do {
          st \<leftarrow> job_set_state p JOB_RUNNING (job_start_timer p True st);
          st \<leftarrow> job_add_to_dbus_queue p st;
          (q, r, st) \<leftarrow> perform_job hk p st;
          case (q, r) of
            (Some q, Inl e) \<Rightarrow>
              if e = EAGAIN then do {
                st \<leftarrow> job_set_state q JOB_WAITING st;
                Some (Inl EAGAIN, st)
              } else do {
                st \<leftarrow> job_finish_and_invalidate n hk q (result_of_error e) True st;
                Some (Inr (), st)
              }
          | _ \<Rightarrow> Some (r, st)
        })"

end
