(* ===== verification/Job_Invariant.thy ===== *)
theory Job_Invariant
  imports Job_Engine
begin

text \<open>
  The invariant of the installed jobs, and that the operations of \<open>src/core/job.c\<close> keep it: a unit
  has at most one job and one no-op job, and they point back at it; the table of jobs by
  identifier, the three queues and the count of running jobs agree with the jobs.
\<close>

section \<open>The invariant\<close>

definition installed_jobs :: "sys \<Rightarrow> jobp set" where
  "installed_jobs st = {p. \<exists>j. heap st p = Some j \<and> j_installed j}"

definition running_jobs :: "sys \<Rightarrow> jobp set" where
  "running_jobs st = {p. \<exists>j. heap st p = Some j \<and> j_installed j \<and> j_state j = JOB_RUNNING}"

definition slots_ok :: "sys \<Rightarrow> bool" where
  "slots_ok st \<longleftrightarrow>
     (\<forall>u p. u_job (units st u) = Some p \<longrightarrow>
        (\<exists>j. heap st p = Some j \<and> j_installed j \<and> j_unit j = u \<and> j_type j \<in> merging_types)) \<and>
     (\<forall>u p. u_nop_job (units st u) = Some p \<longrightarrow>
        (\<exists>j. heap st p = Some j \<and> j_installed j \<and> j_unit j = u \<and> j_type j = JOB_NOP)) \<and>
     (\<forall>p j. heap st p = Some j \<longrightarrow> j_installed j \<longrightarrow> job_slot (j_type j) (units st (j_unit j)) = Some p)"

definition queue_ok :: "(sys \<Rightarrow> jobp list) \<Rightarrow> (job \<Rightarrow> bool) \<Rightarrow> sys \<Rightarrow> bool" where
  "queue_ok q flag st \<longleftrightarrow>
     distinct (q st) \<and> (\<forall>p. p \<in> set (q st) \<longleftrightarrow> (\<exists>j. heap st p = Some j \<and> flag j)) \<and>
     (\<forall>p j. heap st p = Some j \<longrightarrow> flag j \<longrightarrow> j_installed j)"

definition count_ok :: "sys \<Rightarrow> bool" where
  "count_ok st \<longleftrightarrow> finite (installed_jobs st) \<and> n_running_jobs st = card (running_jobs st)"

text \<open>\<open>P\<close> holds jobs that are in the table of jobs and not installed yet.\<close>

definition index_ok :: "jobp set \<Rightarrow> sys \<Rightarrow> bool" where
  "index_ok P st \<longleftrightarrow>
     distinct (map fst (m_jobs st)) \<and>
     (\<forall>i p. (i, p) \<in> set (m_jobs st) \<longrightarrow> p \<in> installed_jobs st \<union> P \<and> j_id (job_at st p) = i) \<and>
     (\<forall>p j. heap st p = Some j \<longrightarrow> j_installed j \<longrightarrow> (j_id j, p) \<in> set (m_jobs st))"

definition wf_jobs :: "jobp set \<Rightarrow> sys \<Rightarrow> bool" where
  "wf_jobs P st \<longleftrightarrow>
     slots_ok st \<and> queue_ok run_queue j_in_run_queue st \<and> queue_ok dbus_job_queue j_in_dbus_queue st \<and>
     queue_ok gc_job_queue j_in_gc_queue st \<and> count_ok st \<and> index_ok P st"

lemma wf_jobsD:
  assumes "wf_jobs P st"
  shows "slots_ok st" "queue_ok run_queue j_in_run_queue st"
    "queue_ok dbus_job_queue j_in_dbus_queue st" "queue_ok gc_job_queue j_in_gc_queue st"
    "count_ok st" "index_ok P st"
  using assms by (simp_all add: wf_jobs_def)

lemma slots_okD:
  assumes "slots_ok st"
  shows "u_job (units st u) = Some p \<Longrightarrow>
      \<exists>j. heap st p = Some j \<and> j_installed j \<and> j_unit j = u \<and> j_type j \<in> merging_types"
    and "u_nop_job (units st u) = Some p \<Longrightarrow>
      \<exists>j. heap st p = Some j \<and> j_installed j \<and> j_unit j = u \<and> j_type j = JOB_NOP"
    and "heap st p = Some j \<Longrightarrow> j_installed j \<Longrightarrow> job_slot (j_type j) (units st (j_unit j)) = Some p"
  using assms unfolding slots_ok_def by blast+

lemma slot_job:
  assumes "slots_ok st" "job_slot t (units st u) = Some p"
  shows "\<exists>j. heap st p = Some j \<and> j_installed j \<and> j_unit j = u \<and>
    (j_type j = JOB_NOP \<longleftrightarrow> t = JOB_NOP) \<and> (j_type j \<noteq> JOB_NOP \<longrightarrow> j_type j \<in> merging_types)"
proof (cases "t = JOB_NOP")
  case True
  then show ?thesis using assms slots_okD(2) [OF assms(1)] by (fastforce simp: job_slot_def)
next
  case False
  then obtain j where j: "heap st p = Some j" "j_installed j" "j_unit j = u" "j_type j \<in> merging_types"
    using assms slots_okD(1) [OF assms(1)] by (fastforce simp: job_slot_def)
  then have "j_type j \<noteq> JOB_NOP" by (auto simp: merging_types_def)
  with j False show ?thesis by blast
qed

lemma installed_type:
  assumes "slots_ok st" "heap st p = Some j" "j_installed j"
  shows "j_type j = JOB_NOP \<or> j_type j \<in> merging_types"
proof -
  have "job_slot (j_type j) (units st (j_unit j)) = Some p"
    using slots_okD(3) [OF assms] .
  then obtain j' where "heap st p = Some j'" "j_type j' \<noteq> JOB_NOP \<longrightarrow> j_type j' \<in> merging_types"
    using slot_job [OF assms(1)] by blast
  then show ?thesis using assms(2) by auto
qed

lemma type_in_transaction:
  "t = JOB_NOP \<or> t \<in> merging_types \<Longrightarrow> \<not> JOB_TYPE_MAX_IN_TRANSACTION \<le> job_type_value t"
  by (auto simp: merging_types_def JOB_TYPE_MAX_IN_TRANSACTION_def)

lemma nop_not_merging [simp]: "JOB_NOP \<notin> merging_types"
  by (simp add: merging_types_def)

section \<open>Updating one job\<close>

lemma heap_upd_job [simp]:
  "heap (upd_job p f st) = (heap st)(p := map_option f (heap st p))"
  by (simp add: upd_job_def)

lemma upd_job_fields [simp]:
  "units (upd_job p f st) = units st" "m_jobs (upd_job p f st) = m_jobs st"
  "n_running_jobs (upd_job p f st) = n_running_jobs st"
  "run_queue (upd_job p f st) = run_queue st" "dbus_job_queue (upd_job p f st) = dbus_job_queue st"
  "gc_job_queue (upd_job p f st) = gc_job_queue st" "links (upd_job p f st) = links st"
  "tr_jobs (upd_job p f st) = tr_jobs st" "tr_anchor (upd_job p f st) = tr_anchor st"
  "next_job (upd_job p f st) = next_job st" "now_usec (upd_job p f st) = now_usec st"
  "n_installed_jobs (upd_job p f st) = n_installed_jobs st"
  "current_job_id (upd_job p f st) = current_job_id st" "unit_list (upd_job p f st) = unit_list st"
  "tr_irreversible (upd_job p f st) = tr_irreversible st"
  "n_failed_jobs (upd_job p f st) = n_failed_jobs st" "private_buses (upd_job p f st) = private_buses st"
  by (simp_all add: upd_job_def)

text \<open>An update that only touches fields the invariant does not read.\<close>

definition harmless :: "(job \<Rightarrow> job) \<Rightarrow> job \<Rightarrow> bool" where
  "harmless f j \<longleftrightarrow>
     j_unit (f j) = j_unit j \<and> j_installed (f j) = j_installed j \<and> j_state (f j) = j_state j \<and>
     j_id (f j) = j_id j \<and> j_in_run_queue (f j) = j_in_run_queue j \<and>
     j_in_dbus_queue (f j) = j_in_dbus_queue j \<and> j_in_gc_queue (f j) = j_in_gc_queue j \<and>
     (j_type (f j) = j_type j \<or> j_type j \<in> merging_types \<and> j_type (f j) \<in> merging_types)"

lemma slots_ok_upd:
  assumes "slots_ok st" "heap st p = Some j" "j_unit (f j) = j_unit j" "j_installed (f j) = j_installed j"
    "j_type (f j) = j_type j \<or> j_type j \<in> merging_types \<and> j_type (f j) \<in> merging_types"
  shows "slots_ok (upd_job p f st)"
proof -
  have t: "j_type (f j) = JOB_NOP \<longleftrightarrow> j_type j = JOB_NOP"
    "j_type j \<in> merging_types \<Longrightarrow> j_type (f j) \<in> merging_types"
    using assms(5) by (auto simp: merging_types_def)
  have s: "job_slot (j_type (f j)) u = job_slot (j_type j) u" for u using t(1) by (simp add: job_slot_def)
  have 1: "\<exists>j'. heap (upd_job p f st) q = Some j' \<and> j_installed j' \<and> j_unit j' = u \<and> j_type j' \<in> merging_types"
    if u: "u_job (units st u) = Some q" for u q
  proof -
    obtain x where x: "heap st q = Some x" "j_installed x" "j_unit x = u" "j_type x \<in> merging_types"
      using slots_okD(1) [OF assms(1) u] by blast
    show ?thesis
    proof (cases "q = p")
      case True
      then have "x = j" using x(1) assms(2) by simp
      then show ?thesis using True x assms(2-4) t(2) by simp
    qed (use x in simp)
  qed
  have 2: "\<exists>j'. heap (upd_job p f st) q = Some j' \<and> j_installed j' \<and> j_unit j' = u \<and> j_type j' = JOB_NOP"
    if u: "u_nop_job (units st u) = Some q" for u q
  proof -
    obtain x where x: "heap st q = Some x" "j_installed x" "j_unit x = u" "j_type x = JOB_NOP"
      using slots_okD(2) [OF assms(1) u] by blast
    show ?thesis
    proof (cases "q = p")
      case True
      then have "x = j" using x(1) assms(2) by simp
      then show ?thesis using True x assms(2-4) t(1) by simp
    qed (use x in simp)
  qed
  have 3: "job_slot (j_type x) (units st (j_unit x)) = Some q"
    if "heap (upd_job p f st) q = Some x" "j_installed x" for q x
  proof (cases "q = p")
    case True
    then have "x = f j" using that(1) assms(2) by simp
    then show ?thesis using that(2) True slots_okD(3) [OF assms(1,2)] assms(3,4) s by simp
  next
    case False
    then show ?thesis using that slots_okD(3) [OF assms(1), of q x] by simp
  qed
  show ?thesis
    unfolding slots_ok_def upd_job_fields
  proof (intro conjI allI impI)
    fix u q assume "u_job (units st u) = Some q"
    then show "\<exists>j'. heap (upd_job p f st) q = Some j' \<and> j_installed j' \<and> j_unit j' = u \<and> j_type j' \<in> merging_types"
      by (rule 1)
  next
    fix u q assume "u_nop_job (units st u) = Some q"
    then show "\<exists>j'. heap (upd_job p f st) q = Some j' \<and> j_installed j' \<and> j_unit j' = u \<and> j_type j' = JOB_NOP"
      by (rule 2)
  next
    fix q x assume "heap (upd_job p f st) q = Some x" "j_installed x"
    then show "job_slot (j_type x) (units st (j_unit x)) = Some q" by (rule 3)
  qed
qed

lemma queue_ok_upd:
  assumes "queue_ok q flag st" "heap st p = Some j" "q (upd_job p f st) = q st"
    "flag (f j) = flag j" "j_installed (f j) = j_installed j"
  shows "queue_ok q flag (upd_job p f st)"
proof -
  have "(\<exists>x. heap (upd_job p f st) r = Some x \<and> flag x) = (\<exists>x. heap st r = Some x \<and> flag x)" for r
    using assms(2,4) by (cases "r = p") simp_all
  moreover have "j_installed x" if "heap (upd_job p f st) r = Some x" "flag x" for r x
    using that assms by (cases "r = p") (auto simp: queue_ok_def)
  ultimately show ?thesis using assms(1) unfolding queue_ok_def assms(3) by simp
qed

lemma installed_upd:
  "heap st p = Some j \<Longrightarrow> j_installed (f j) = j_installed j \<Longrightarrow>
    installed_jobs (upd_job p f st) = installed_jobs st"
  by (force simp: installed_jobs_def)

lemma running_upd:
  "heap st p = Some j \<Longrightarrow> j_installed (f j) = j_installed j \<Longrightarrow> j_state (f j) = j_state j \<Longrightarrow>
    running_jobs (upd_job p f st) = running_jobs st"
  by (force simp: running_jobs_def)

lemma index_ok_upd:
  assumes "index_ok P st" "heap st p = Some j" "j_installed (f j) = j_installed j" "j_id (f j) = j_id j"
  shows "index_ok P (upd_job p f st)"
proof -
  have "j_id (job_at (upd_job p f st) q) = j_id (job_at st q)" for q using assms by simp
  then show ?thesis
    using assms(1) installed_upd [of st p j f] assms(2-) by (auto simp: index_ok_def)
qed

lemma wf_jobs_upd:
  assumes "wf_jobs P st" "heap st p = Some j" "harmless f j"
  shows "wf_jobs P (upd_job p f st)"
proof -
  note w = wf_jobsD [OF assms(1)] and h = assms(3) [unfolded harmless_def]
  have "slots_ok (upd_job p f st)" using w(1) assms(2) h by (intro slots_ok_upd) auto
  moreover have "count_ok (upd_job p f st)"
    using w(5) h installed_upd [OF assms(2), of f] running_upd [OF assms(2), of f] by (simp add: count_ok_def)
  moreover have "index_ok P (upd_job p f st)" using w(6) assms(2) h by (intro index_ok_upd) auto
  ultimately show ?thesis
    using w(2-4) h assms(2) by (simp add: wf_jobs_def queue_ok_upd)
qed

section \<open>Changing the state\<close>

lemma n_running_irrelevant [simp]:
  "slots_ok (st\<lparr>n_running_jobs := n\<rparr>) = slots_ok st"
  "installed_jobs (st\<lparr>n_running_jobs := n\<rparr>) = installed_jobs st"
  "running_jobs (st\<lparr>n_running_jobs := n\<rparr>) = running_jobs st"
  "index_ok P (st\<lparr>n_running_jobs := n\<rparr>) = index_ok P st"
  "queue_ok run_queue flag (st\<lparr>n_running_jobs := n\<rparr>) = queue_ok run_queue flag st"
  "queue_ok dbus_job_queue flag (st\<lparr>n_running_jobs := n\<rparr>) = queue_ok dbus_job_queue flag st"
  "queue_ok gc_job_queue flag (st\<lparr>n_running_jobs := n\<rparr>) = queue_ok gc_job_queue flag st"
  by (simp_all add: slots_ok_def installed_jobs_def running_jobs_def index_ok_def queue_ok_def)

lemma finite_running: "count_ok st \<Longrightarrow> finite (running_jobs st)"
  by (rule finite_subset [of _ "installed_jobs st"])
    (auto simp: running_jobs_def installed_jobs_def count_ok_def)

lemma job_set_state_wf:
  assumes "wf_jobs P st" "heap st p = Some j"
  obtains n where "job_set_state p s st = Some (upd_job p (\<lambda>j. j\<lparr>j_state := s\<rparr>) (st\<lparr>n_running_jobs := n\<rparr>))"
    "wf_jobs P (upd_job p (\<lambda>j. j\<lparr>j_state := s\<rparr>) (st\<lparr>n_running_jobs := n\<rparr>))"
proof -
  let ?f = "\<lambda>j. j\<lparr>j_state := s\<rparr>"
  let ?st1 = "upd_job p ?f st"
  note w = wf_jobsD [OF assms(1)]
  define n where "n = (if j_installed j then card (running_jobs ?st1) else n_running_jobs st)"
  have sw: "upd_job p ?f (st\<lparr>n_running_jobs := n\<rparr>) = ?st1\<lparr>n_running_jobs := n\<rparr>"
    by (simp add: upd_job_def)
  have inst: "installed_jobs ?st1 = installed_jobs st" using assms(2) by (intro installed_upd) auto
  have run: "running_jobs ?st1 =
      (if j_installed j \<and> s = JOB_RUNNING then insert p (running_jobs st) else running_jobs st - {p})"
    using assms(2) by (auto simp: running_jobs_def)
  have mem: "p \<in> running_jobs st \<longleftrightarrow> j_installed j \<and> j_state j = JOB_RUNNING"
    using assms(2) by (simp add: running_jobs_def)
  have cnt: "n_running_jobs st = card (running_jobs st)" and fin: "finite (running_jobs st)"
    using w(5) finite_running [OF w(5)] by (simp_all add: count_ok_def)
  have other: "j_installed j \<Longrightarrow> j_state j \<noteq> s \<Longrightarrow> s \<noteq> JOB_RUNNING \<Longrightarrow> p \<in> running_jobs st"
    using mem by (cases s; cases "j_state j") auto
  have state_id: "j_state j = s \<Longrightarrow> ?st1 = st"
    using assms(2) by (simp add: upd_job_def fun_upd_idem)
  have "job_set_state p s st = Some (?st1\<lparr>n_running_jobs := n\<rparr>)"
  proof (cases "j_state j = s")
    case True
    then show ?thesis
      using assms(2) state_id cnt by (simp add: job_set_state_def n_def)
  next
    case changed: False
    show ?thesis
    proof (cases "j_installed j")
      case False
      then show ?thesis using assms(2) changed by (simp add: job_set_state_def n_def Let_def)
    next
      case True
      show ?thesis
      proof (cases "s = JOB_RUNNING")
        case r: True
        have "p \<notin> running_jobs st" using mem changed r by simp
        then show ?thesis
          using True r changed assms(2) run cnt fin by (simp add: job_set_state_def n_def Let_def)
      next
        case r: False
        then have "p \<in> running_jobs st" using other True changed by blast
        then have "card (running_jobs st) > 0" "card (running_jobs ?st1) = card (running_jobs st) - 1"
          using fin run r by (auto simp: card_gt_0_iff)
        then show ?thesis
          using True r changed assms(2) cnt by (simp add: job_set_state_def n_def Let_def)
      qed
    qed
  qed
  moreover have "wf_jobs P (?st1\<lparr>n_running_jobs := n\<rparr>)"
  proof -
    have "n = card (running_jobs ?st1)"
      using run mem cnt by (simp add: n_def)
    then have "count_ok (?st1\<lparr>n_running_jobs := n\<rparr>)" using w(5) inst by (simp add: count_ok_def)
    moreover have "slots_ok ?st1" using w(1) assms(2) by (intro slots_ok_upd) auto
    moreover have "index_ok P ?st1" using w(6) assms(2) by (intro index_ok_upd) auto
    ultimately show ?thesis
      using w(2-4) assms(2) by (simp add: wf_jobs_def queue_ok_upd)
  qed
  ultimately show ?thesis using that sw by metis
qed

section \<open>A job leaves\<close>

text \<open>The state without the installed job \<open>p\<close>.\<close>

definition retire :: "jobp \<Rightarrow> sys \<Rightarrow> sys" where
  "retire p st =
     (set_job_slot (j_type (job_at st p)) (j_unit (job_at st p)) None st)
       \<lparr>heap := (heap st)(p := None),
        m_jobs := filter (\<lambda>e. e \<noteq> (j_id (job_at st p), p)) (m_jobs st),
        run_queue := removeAll p (run_queue st), dbus_job_queue := removeAll p (dbus_job_queue st),
        gc_job_queue := removeAll p (gc_job_queue st), n_running_jobs := card (running_jobs st - {p})\<rparr>"

lemma set_job_slot_fields [simp]:
  "heap (set_job_slot t u v st) = heap st" "m_jobs (set_job_slot t u v st) = m_jobs st"
  "run_queue (set_job_slot t u v st) = run_queue st" "dbus_job_queue (set_job_slot t u v st) = dbus_job_queue st"
  "gc_job_queue (set_job_slot t u v st) = gc_job_queue st" "n_running_jobs (set_job_slot t u v st) = n_running_jobs st"
  "links (set_job_slot t u v st) = links st" "tr_jobs (set_job_slot t u v st) = tr_jobs st"
  "u_job (units (set_job_slot t u v st) w) = (if t \<noteq> JOB_NOP \<and> w = u then v else u_job (units st w))"
  "u_nop_job (units (set_job_slot t u v st) w) = (if t = JOB_NOP \<and> w = u then v else u_nop_job (units st w))"
  "u_dependencies (units (set_job_slot t u v st) w) = u_dependencies (units st w)"
  "u_active_state (units (set_job_slot t u v st) w) = u_active_state (units st w)"
  by (simp_all add: set_job_slot_def upd_unit_def)

lemma remove1_queue:
  assumes "queue_ok q flag st" "heap st p = Some j"
  shows "flag j \<Longrightarrow> remove1 p (q st) = removeAll p (q st)" "\<not> flag j \<Longrightarrow> removeAll p (q st) = q st"
  using assms by (auto simp: queue_ok_def distinct_remove1_removeAll)

lemma job_free_eq:
  assumes "heap st p = Some j"
  shows "job_free p st =
    st\<lparr>heap := (heap st)(p := None),
       run_queue := (if j_in_run_queue j then remove1 p (run_queue st) else run_queue st),
       dbus_job_queue := (if j_in_dbus_queue j then remove1 p (dbus_job_queue st) else dbus_job_queue st),
       gc_job_queue := (if j_in_gc_queue j then remove1 p (gc_job_queue st) else gc_job_queue st)\<rparr>"
  using assms
  by (cases "j_in_run_queue j"; cases "j_in_dbus_queue j"; cases "j_in_gc_queue j")
    (simp_all add: job_free_def job_unlink_def Let_def upd_job_def)

lemma retire_eq:
  assumes "wf_jobs P st" "heap st p = Some j" "j_installed j"
  shows "\<exists>st1. job_uninstall p st = Some st1 \<and> job_free p st1 = retire p st"
proof -
  let ?f = "\<lambda>j. j\<lparr>j_state := JOB_WAITING\<rparr>"
  note w = wf_jobsD [OF assms(1)]
  obtain n where n: "job_set_state p JOB_WAITING st = Some (upd_job p ?f (st\<lparr>n_running_jobs := n\<rparr>))"
      "wf_jobs P (upd_job p ?f (st\<lparr>n_running_jobs := n\<rparr>))"
    using job_set_state_wf [OF assms(1,2)] by blast
  have slot: "job_slot (j_type j) (units st (j_unit j)) = Some p"
    using slots_okD(3) [OF w(1) assms(2,3)] .
  have "running_jobs (upd_job p ?f (st\<lparr>n_running_jobs := n\<rparr>)) = running_jobs st - {p}"
    using assms(2) by (auto simp: running_jobs_def)
  then have n': "n = card (running_jobs st - {p})"
    using wf_jobsD(5) [OF n(2)] by (simp add: count_ok_def)
  let ?s1 = "upd_job p (\<lambda>j. j\<lparr>j_installed := False\<rparr>)
      ((set_job_slot (j_type j) (j_unit j) None (upd_job p ?f (st\<lparr>n_running_jobs := n\<rparr>)))
         \<lparr>m_jobs := filter (\<lambda>e. e \<noteq> (j_id j, p)) (m_jobs st)\<rparr>)"
  have "job_uninstall p st = Some ?s1"
    using assms(2,3) n(1) slot by (simp add: job_uninstall_def Let_def)
  moreover have "job_free p ?s1 = retire p st"
  proof -
    have "heap ?s1 p = Some (j\<lparr>j_state := JOB_WAITING, j_installed := False\<rparr>)" using assms(2) by simp
    note f = job_free_eq [OF this]
    show ?thesis
      unfolding f using assms(2)
      by (intro sys.equality)
        (simp_all add: retire_def set_job_slot_def upd_unit_def upd_job_def n'
          remove1_queue [OF w(2) assms(2)] remove1_queue [OF w(3) assms(2)] remove1_queue [OF w(4) assms(2)])
  qed
  ultimately show ?thesis by blast
qed

lemma installed_retire: "installed_jobs (retire p st) = installed_jobs st - {p}"
  by (auto simp: installed_jobs_def retire_def)

lemma running_retire: "running_jobs (retire p st) = running_jobs st - {p}"
  by (auto simp: running_jobs_def retire_def)

lemma queue_ok_retire:
  assumes "queue_ok q flag st" "q (retire p st) = removeAll p (q st)"
  shows "queue_ok q flag (retire p st)"
proof -
  have "heap (retire p st) = (heap st)(p := None)" by (simp add: retire_def)
  then show ?thesis using assms unfolding queue_ok_def assms(2) by (simp add: distinct_removeAll)
qed

lemma wf_jobs_retire:
  assumes "wf_jobs P st" "heap st p = Some j" "j_installed j"
  shows "wf_jobs (P - {p}) (retire p st)"
proof -
  note w = wf_jobsD [OF assms(1)]
  have h: "heap (retire p st) = (heap st)(p := None)" by (simp add: retire_def)
  have slot: "job_slot (j_type j) (units st (j_unit j)) = Some p"
    using slots_okD(3) [OF w(1) assms(2,3)] .
  have us: "u_job (units (retire p st) v) = (if u_job (units st v) = Some p then None else u_job (units st v))" for v
    using slot slots_okD(1) [OF w(1), of v p] assms(2)
    by (auto simp: retire_def job_slot_def)
  have ns: "u_nop_job (units (retire p st) v) =
      (if u_nop_job (units st v) = Some p then None else u_nop_job (units st v))" for v
    using slot slots_okD(2) [OF w(1), of v p] assms(2)
    by (auto simp: retire_def job_slot_def)
  have "slots_ok (retire p st)"
    unfolding slots_ok_def
  proof (intro conjI allI impI)
    fix v q assume "u_job (units (retire p st) v) = Some q"
    then have "u_job (units st v) = Some q" "q \<noteq> p" by (auto simp: us split: if_splits)
    with slots_okD(1) [OF w(1)] show
      "\<exists>j. heap (retire p st) q = Some j \<and> j_installed j \<and> j_unit j = v \<and> j_type j \<in> merging_types"
      by (simp add: h)
  next
    fix v q assume "u_nop_job (units (retire p st) v) = Some q"
    then have "u_nop_job (units st v) = Some q" "q \<noteq> p" by (auto simp: ns split: if_splits)
    with slots_okD(2) [OF w(1)] show
      "\<exists>j. heap (retire p st) q = Some j \<and> j_installed j \<and> j_unit j = v \<and> j_type j = JOB_NOP"
      by (simp add: h)
  next
    fix q x assume x: "heap (retire p st) q = Some x" "j_installed x"
    then have q: "q \<noteq> p" "heap st q = Some x" by (auto simp: h split: if_splits)
    then have "job_slot (j_type x) (units st (j_unit x)) = Some q"
      using slots_okD(3) [OF w(1)] x(2) by blast
    then show "job_slot (j_type x) (units (retire p st) (j_unit x)) = Some q"
      using q(1) by (simp add: job_slot_def us ns split: if_splits)
  qed
  moreover have "queue_ok run_queue j_in_run_queue (retire p st)"
    "queue_ok dbus_job_queue j_in_dbus_queue (retire p st)" "queue_ok gc_job_queue j_in_gc_queue (retire p st)"
    using w(2-4) by (intro queue_ok_retire; simp add: retire_def)+
  moreover have "count_ok (retire p st)"
    using w(5) by (simp add: count_ok_def installed_retire running_retire) (simp add: retire_def)
  moreover have "index_ok (P - {p}) (retire p st)"
  proof -
    have m: "m_jobs (retire p st) = filter (\<lambda>e. e \<noteq> (j_id j, p)) (m_jobs st)"
      using assms(2) by (simp add: retire_def)
    have "distinct (map fst (m_jobs (retire p st)))"
      using w(6) by (simp add: m index_ok_def distinct_map_filter)
    moreover have "q \<in> installed_jobs (retire p st) \<union> (P - {p}) \<and> j_id (job_at (retire p st) q) = i"
      if "(i, q) \<in> set (m_jobs (retire p st))" for i q
    proof -
      have iq: "(i, q) \<in> set (m_jobs st)" "(i, q) \<noteq> (j_id j, p)" using that by (simp_all add: m)
      then have "j_id (job_at st q) = i" "q \<in> installed_jobs st \<union> P" using w(6) unfolding index_ok_def by blast+
      moreover have "q \<noteq> p" using calculation(1) iq(2) assms(2) by auto
      ultimately show ?thesis by (simp add: installed_retire h)
    qed
    moreover have "(j_id x, q) \<in> set (m_jobs (retire p st))"
      if "heap (retire p st) q = Some x" "j_installed x" for q x
    proof -
      have "q \<noteq> p" "heap st q = Some x" using that(1) by (auto simp: h split: if_splits)
      then show ?thesis using w(6) that(2) by (simp add: m index_ok_def)
    qed
    ultimately show ?thesis unfolding index_ok_def by blast
  qed
  ultimately show ?thesis by (simp add: wf_jobs_def)
qed

section \<open>Queues\<close>

text \<open>Nothing happened to the jobs but their place in queues, their timers and bus references.\<close>

definition core :: "job \<Rightarrow> job" where
  "core j = j\<lparr>j_in_run_queue := False, j_in_dbus_queue := False, j_in_gc_queue := False,
     j_ref_by_private_bus := False, j_timer := None, j_begin_usec := 0, j_begin_running_usec := 0\<rparr>"

definition same_core :: "sys \<Rightarrow> sys \<Rightarrow> bool" where
  "same_core st st' \<longleftrightarrow>
     (\<forall>q. map_option core (heap st' q) = map_option core (heap st q)) \<and> units st' = units st \<and>
     m_jobs st' = m_jobs st \<and> links st' = links st \<and> tr_jobs st' = tr_jobs st \<and>
     tr_anchor st' = tr_anchor st \<and> next_job st' = next_job st"

lemma same_core_refl: "same_core st st"
  by (simp add: same_core_def)

lemma same_core_trans: "same_core st s1 \<Longrightarrow> same_core s1 s2 \<Longrightarrow> same_core st s2"
  by (simp add: same_core_def)

lemma core_fields:
  "j_unit (core j) = j_unit j" "j_type (core j) = j_type j" "j_installed (core j) = j_installed j"
  "j_state (core j) = j_state j" "j_id (core j) = j_id j" "j_ignore_order (core j) = j_ignore_order j"
  "j_matters_to_anchor (core j) = j_matters_to_anchor j" "j_irreversible (core j) = j_irreversible j"
  by (simp_all add: core_def)

lemma same_core_job:
  assumes "same_core st st'" "heap st p = Some j"
  obtains j' where "heap st' p = Some j'" "core j' = core j" "j_unit j' = j_unit j" "j_type j' = j_type j"
    "j_installed j' = j_installed j" "j_state j' = j_state j" "j_id j' = j_id j"
proof -
  have "map_option core (heap st' p) = Some (core j)" using assms by (simp add: same_core_def)
  then obtain j' where "heap st' p = Some j'" "core j' = core j" by auto
  then show ?thesis using that by (metis core_fields)
qed

lemma same_core_sym: "same_core st st' \<Longrightarrow> same_core st' st"
  by (simp add: same_core_def)

lemma queue_push:
  assumes "queue_ok q flag st" "heap st p = Some j" "j_installed j" "\<not> flag j"
    and "q st' = p # q st" "heap st' = (heap st)(p \<mapsto> j')" "flag j'" "j_installed j'"
  shows "queue_ok q flag st'"
proof -
  have p: "p \<notin> set (q st)" using assms(1,2,4) by (auto simp: queue_ok_def)
  have "(r \<in> set (q st')) = (\<exists>x. heap st' r = Some x \<and> flag x)" for r
    using assms by (cases "r = p") (simp_all add: queue_ok_def)
  moreover have "j_installed x" if "heap st' r = Some x" "flag x" for r x
    using that assms by (cases "r = p") (auto simp: queue_ok_def)
  ultimately show ?thesis using p assms(1,5) by (auto simp: queue_ok_def)
qed

lemma queue_irrelevant [simp]:
  "slots_ok (st\<lparr>run_queue := r\<rparr>) = slots_ok st" "slots_ok (st\<lparr>dbus_job_queue := r\<rparr>) = slots_ok st"
  "slots_ok (st\<lparr>gc_job_queue := r\<rparr>) = slots_ok st"
  "installed_jobs (st\<lparr>run_queue := r\<rparr>) = installed_jobs st"
  "installed_jobs (st\<lparr>dbus_job_queue := r\<rparr>) = installed_jobs st"
  "installed_jobs (st\<lparr>gc_job_queue := r\<rparr>) = installed_jobs st"
  "running_jobs (st\<lparr>run_queue := r\<rparr>) = running_jobs st"
  "running_jobs (st\<lparr>dbus_job_queue := r\<rparr>) = running_jobs st"
  "running_jobs (st\<lparr>gc_job_queue := r\<rparr>) = running_jobs st"
  "count_ok (st\<lparr>run_queue := r\<rparr>) = count_ok st" "count_ok (st\<lparr>dbus_job_queue := r\<rparr>) = count_ok st"
  "count_ok (st\<lparr>gc_job_queue := r\<rparr>) = count_ok st"
  "index_ok P (st\<lparr>run_queue := r\<rparr>) = index_ok P st" "index_ok P (st\<lparr>dbus_job_queue := r\<rparr>) = index_ok P st"
  "index_ok P (st\<lparr>gc_job_queue := r\<rparr>) = index_ok P st"
  "queue_ok dbus_job_queue flag (st\<lparr>run_queue := r\<rparr>) = queue_ok dbus_job_queue flag st"
  "queue_ok gc_job_queue flag (st\<lparr>run_queue := r\<rparr>) = queue_ok gc_job_queue flag st"
  "queue_ok run_queue flag (st\<lparr>dbus_job_queue := r\<rparr>) = queue_ok run_queue flag st"
  "queue_ok gc_job_queue flag (st\<lparr>dbus_job_queue := r\<rparr>) = queue_ok gc_job_queue flag st"
  "queue_ok run_queue flag (st\<lparr>gc_job_queue := r\<rparr>) = queue_ok run_queue flag st"
  "queue_ok dbus_job_queue flag (st\<lparr>gc_job_queue := r\<rparr>) = queue_ok dbus_job_queue flag st"
  by (simp_all add: slots_ok_def installed_jobs_def running_jobs_def index_ok_def queue_ok_def count_ok_def)

lemma upd_job_queues [simp]:
  "upd_job p f (st\<lparr>run_queue := r\<rparr>) = (upd_job p f st)\<lparr>run_queue := r\<rparr>"
  "upd_job p f (st\<lparr>dbus_job_queue := r\<rparr>) = (upd_job p f st)\<lparr>dbus_job_queue := r\<rparr>"
  "upd_job p f (st\<lparr>gc_job_queue := r\<rparr>) = (upd_job p f st)\<lparr>gc_job_queue := r\<rparr>"
  by (simp_all add: upd_job_def)

lemma push_parts:
  assumes "wf_jobs P st" "heap st p = Some j" "j_unit (f j) = j_unit j" "j_type (f j) = j_type j"
    "j_installed (f j) = j_installed j" "j_state (f j) = j_state j" "j_id (f j) = j_id j"
  shows "slots_ok (upd_job p f st)" "count_ok (upd_job p f st)" "index_ok P (upd_job p f st)"
  using wf_jobsD [OF assms(1)] assms(2-)
  by (simp_all add: slots_ok_upd index_ok_upd count_ok_def installed_upd running_upd)

lemma same_core_upd:
  "heap st p = Some j \<Longrightarrow> core (f j) = core j \<Longrightarrow> same_core st (upd_job p f st)"
  by (simp add: same_core_def)

lemma same_core_queues [simp]:
  "same_core st (s\<lparr>run_queue := r\<rparr>) = same_core st s"
  "same_core st (s\<lparr>dbus_job_queue := r\<rparr>) = same_core st s"
  "same_core st (s\<lparr>gc_job_queue := r\<rparr>) = same_core st s"
  by (simp_all add: same_core_def)

lemma job_add_to_run_queue_wf:
  assumes "wf_jobs P st" "heap st p = Some j" "j_installed j"
  shows "\<exists>st'. job_add_to_run_queue p st = Some st' \<and> wf_jobs P st' \<and> same_core st st'"
proof (cases "j_in_run_queue j")
  case True
  then show ?thesis using assms by (simp add: job_add_to_run_queue_def same_core_refl)
next
  case False
  let ?f = "\<lambda>j. j\<lparr>j_in_run_queue := True\<rparr>" and ?s = "st\<lparr>run_queue := p # run_queue st\<rparr>"
  note w = wf_jobsD [OF assms(1)]
  have "queue_ok run_queue j_in_run_queue (upd_job p ?f ?s)"
    by (rule queue_push [OF w(2) assms(2,3) False, where j' = "?f j"]) (use assms in simp_all)
  then have "wf_jobs P (upd_job p ?f ?s)"
    using push_parts [OF assms(1,2), of ?f] w(3,4) assms(2) by (simp add: wf_jobs_def queue_ok_upd)
  moreover have "same_core st (upd_job p ?f ?s)" using assms(2) by (simp add: same_core_upd core_def)
  ultimately show ?thesis using assms False by (simp add: job_add_to_run_queue_def)
qed

lemma job_add_to_dbus_queue_wf:
  assumes "wf_jobs P st" "heap st p = Some j" "j_installed j"
  shows "\<exists>st'. job_add_to_dbus_queue p st = Some st' \<and> wf_jobs P st' \<and> same_core st st'"
proof (cases "j_in_dbus_queue j")
  case True
  then show ?thesis using assms by (simp add: job_add_to_dbus_queue_def same_core_refl)
next
  case False
  let ?f = "\<lambda>j. j\<lparr>j_in_dbus_queue := True\<rparr>" and ?s = "st\<lparr>dbus_job_queue := p # dbus_job_queue st\<rparr>"
  note w = wf_jobsD [OF assms(1)]
  have "queue_ok dbus_job_queue j_in_dbus_queue (upd_job p ?f ?s)"
    by (rule queue_push [OF w(3) assms(2,3) False, where j' = "?f j"]) (use assms in simp_all)
  then have "wf_jobs P (upd_job p ?f ?s)"
    using push_parts [OF assms(1,2), of ?f] w(2,4) assms(2) by (simp add: wf_jobs_def queue_ok_upd)
  moreover have "same_core st (upd_job p ?f ?s)" using assms(2) by (simp add: same_core_upd core_def)
  ultimately show ?thesis using assms False by (simp add: job_add_to_dbus_queue_def)
qed

lemma job_may_gc_state:
  assumes "wf_jobs P st" "heap st p = Some j"
  shows "wf_jobs P (snd (job_may_gc p st)) \<and> same_core st (snd (job_may_gc p st)) \<and>
    map_option j_in_gc_queue (heap (snd (job_may_gc p st)) p) = Some (j_in_gc_queue j)"
proof -
  let ?f = "\<lambda>j. j\<lparr>j_ref_by_private_bus := False\<rparr>"
  have "wf_jobs P (upd_job p ?f st)" "same_core st (upd_job p ?f st)"
    using assms by (auto intro!: wf_jobs_upd same_core_upd simp: harmless_def core_def)
  then have "\<exists>b. snd (job_may_gc p st) = (if b then upd_job p ?f st else st)"
    unfolding job_may_gc_def Let_def by (smt (verit) snd_conv)
  then show ?thesis
    using assms \<open>wf_jobs P (upd_job p ?f st)\<close> \<open>same_core st (upd_job p ?f st)\<close>
    by (auto simp: same_core_refl)
qed

lemma job_add_to_gc_queue_wf:
  assumes "wf_jobs P st" "heap st p = Some j" "j_installed j"
  shows "wf_jobs P (job_add_to_gc_queue p st) \<and> same_core st (job_add_to_gc_queue p st)"
proof -
  obtain may s where m: "job_may_gc p st = (may, s)" by (cases "job_may_gc p st")
  have s: "wf_jobs P s" "same_core st s" "map_option j_in_gc_queue (heap s p) = Some (j_in_gc_queue j)"
    using job_may_gc_state [OF assms(1,2)] m by simp_all
  obtain k where k: "heap s p = Some k" "j_installed k"
    using same_core_job [OF s(2) assms(2)] assms(3) by metis
  have f: "j_in_gc_queue k = j_in_gc_queue j" using k s(3) by simp
  show ?thesis
  proof (cases "j_in_gc_queue j \<or> \<not> may")
    case True
    then show ?thesis using assms m s by (auto simp: job_add_to_gc_queue_def same_core_refl)
  next
    case False
    let ?f = "\<lambda>j. j\<lparr>j_in_gc_queue := True\<rparr>" and ?s = "s\<lparr>gc_job_queue := p # gc_job_queue s\<rparr>"
    note w = wf_jobsD [OF s(1)]
    have "queue_ok gc_job_queue j_in_gc_queue (upd_job p ?f ?s)"
      by (rule queue_push [OF w(4) k, where j' = "?f k"]) (use k f False in simp_all)
    then have "wf_jobs P (upd_job p ?f ?s)"
      using push_parts [OF s(1) k(1), of ?f] w(2,3) k by (simp add: wf_jobs_def queue_ok_upd)
    moreover have "same_core s (upd_job p ?f ?s)" using k by (simp add: same_core_upd core_def)
    ultimately show ?thesis
      using assms m s False same_core_trans [OF s(2)] by (simp add: job_add_to_gc_queue_def)
  qed
qed

section \<open>A concrete engine\<close>

text \<open>
  Three units with a start job each; unit 21 needs unit 20 and comes after it, unit 22 needs
  unit 21.  The job of unit 20 is in the run queue.
\<close>

definition ex_jobs :: sys where
  "ex_jobs = idle_sys
     \<lparr>heap := [11 \<mapsto> (plain_job 20 JOB_START)\<lparr>j_id := 11, j_installed := True, j_in_run_queue := True\<rparr>,
               12 \<mapsto> (plain_job 21 JOB_START)\<lparr>j_id := 12, j_installed := True\<rparr>,
               13 \<mapsto> (plain_job 22 JOB_START)\<lparr>j_id := 13, j_installed := True\<rparr>],
      next_job := 14, current_job_id := 14, m_jobs := [(13, 13), (12, 12), (11, 11)], run_queue := [11],
      units := (\<lambda>_. plain_unit)
        (20 := plain_unit\<lparr>u_job := Some 11,
            u_dependencies := [(UNIT_REQUIRED_BY, [21]), (UNIT_BEFORE, [21])]\<rparr>,
         21 := plain_unit\<lparr>u_job := Some 12,
            u_dependencies := [(UNIT_REQUIRES, [20]), (UNIT_AFTER, [20]), (UNIT_REQUIRED_BY, [22])]\<rparr>,
         22 := plain_unit\<lparr>u_job := Some 13, u_dependencies := [(UNIT_REQUIRES, [21])]\<rparr>)\<rparr>"

lemma ex_jobs_views:
  "installed_jobs ex_jobs = {11, 12, 13}" "running_jobs ex_jobs = {}"
  by (auto simp: installed_jobs_def running_jobs_def ex_jobs_def plain_job_def split: if_splits)

lemma wf_ex_jobs: "wf_jobs {} ex_jobs"
proof -
  have "slots_ok ex_jobs"
    by (simp add: slots_ok_def ex_jobs_def plain_job_def plain_unit_def merging_types_def job_slot_def)
  moreover have "queue_ok run_queue j_in_run_queue ex_jobs" "queue_ok dbus_job_queue j_in_dbus_queue ex_jobs"
    "queue_ok gc_job_queue j_in_gc_queue ex_jobs"
    by (simp_all add: queue_ok_def ex_jobs_def plain_job_def idle_sys_def)
  moreover have "count_ok ex_jobs" by (simp add: count_ok_def ex_jobs_views) (simp add: ex_jobs_def idle_sys_def)
  moreover have "index_ok {} ex_jobs"
    by (simp add: index_ok_def ex_jobs_views) (simp add: ex_jobs_def plain_job_def)
  ultimately show ?thesis by (simp add: wf_jobs_def)
qed

end
