(* ===== verification/Job_Finish.thy ===== *)
theory Job_Finish
  imports Job_Invariant
begin

text \<open>
  Finishing a job: \<open>job_finish_and_invalidate\<close> keeps the invariant of the installed jobs, needs no
  more nested calls than there are installed jobs, and fails every job that transitively depends
  on the failed one.
\<close>

section \<open>The jobs that may run next\<close>

lemma same_core_installed: "same_core st st' \<Longrightarrow> installed_jobs st' = installed_jobs st"
proof -
  have "installed_jobs s \<subseteq> installed_jobs s'" if sc: "same_core s s'" for s s'
  proof
    fix p assume "p \<in> installed_jobs s"
    then obtain j where j: "heap s p = Some j" "j_installed j" by (auto simp: installed_jobs_def)
    from same_core_job [OF sc j(1)] obtain j' where "heap s' p = Some j'" "j_installed j' = j_installed j" .
    then show "p \<in> installed_jobs s'" using j(2) by (simp add: installed_jobs_def)
  qed
  then show "same_core st st' \<Longrightarrow> ?thesis" by (metis same_core_sym subset_antisym)
qed

lemma enqueue_jobs_wf:
  assumes "wf_jobs P st" "set ps \<subseteq> installed_jobs st"
  shows "\<exists>st'. enqueue_jobs ps st = Some st' \<and> wf_jobs P st' \<and> same_core st st'"
  using assms
proof (induction ps arbitrary: st)
  case (Cons p ps)
  obtain j where j: "heap st p = Some j" "j_installed j" using Cons.prems(2) by (auto simp: installed_jobs_def)
  obtain s1 where s1: "job_add_to_run_queue p st = Some s1" "wf_jobs P s1" "same_core st s1"
    using job_add_to_run_queue_wf [OF Cons.prems(1) j] by blast
  obtain k where k: "heap s1 p = Some k" "j_installed k" using same_core_job [OF s1(3) j(1)] j(2) by metis
  let ?s2 = "job_add_to_gc_queue p s1"
  have s2: "wf_jobs P ?s2" "same_core s1 ?s2" using job_add_to_gc_queue_wf [OF s1(2) k] by auto
  have sc: "same_core st ?s2" using same_core_trans [OF s1(3) s2(2)] .
  then have "set ps \<subseteq> installed_jobs ?s2" using Cons.prems(2) same_core_installed [OF sc] by simp
  then obtain s3 where "enqueue_jobs ps ?s2 = Some s3" "wf_jobs P s3" "same_core ?s2 s3"
    using Cons.IH [OF s2(1)] by blast
  then show ?case using s1(1) same_core_trans [OF sc] by auto
qed (simp add: same_core_refl)

lemma ordered_jobs_installed:
  assumes "slots_ok st"
  shows "set (ordered_jobs st u atom) \<subseteq> installed_jobs st"
  using slots_okD(1) [OF assms] by (fastforce simp: ordered_jobs_def map_filter_def installed_jobs_def)

lemma start_next_jobs_wf:
  assumes "wf_jobs P st"
  shows "\<exists>s. start_next_jobs hk u st = Some (h_finished hk u s) \<and> wf_jobs P s \<and> same_core st s"
proof -
  obtain s1 where s1: "enqueue_jobs (ordered_jobs st u UNIT_ATOM_AFTER) st = Some s1" "wf_jobs P s1" "same_core st s1"
    using enqueue_jobs_wf [OF assms] ordered_jobs_installed [OF wf_jobsD(1) [OF assms]] by blast
  obtain s2 where "enqueue_jobs (ordered_jobs s1 u UNIT_ATOM_BEFORE) s1 = Some s2" "wf_jobs P s2" "same_core s1 s2"
    using enqueue_jobs_wf [OF s1(2)] ordered_jobs_installed [OF wf_jobsD(1) [OF s1(2)]] by blast
  then show ?thesis using s1 same_core_trans [OF s1(3)] by (auto simp: start_next_jobs_def)
qed

lemma restart_becomes_start_wf:
  assumes "wf_jobs P st" "heap st p = Some j" "j_installed j" "j_type j = JOB_RESTART"
  shows "\<exists>s. restart_becomes_start p st = Some s \<and> wf_jobs P s \<and>
    same_core (upd_job p (\<lambda>j. j\<lparr>j_type := JOB_START, j_state := JOB_WAITING\<rparr>) st) s"
proof -
  let ?s1 = "upd_job p (\<lambda>j. j\<lparr>j_type := JOB_START\<rparr>) st"
  let ?w = "\<lambda>j. j\<lparr>j_state := JOB_WAITING\<rparr>"
  have s1: "wf_jobs P ?s1"
    using assms by (intro wf_jobs_upd) (auto simp: harmless_def merging_types_def)
  have h1: "heap ?s1 p = Some (j\<lparr>j_type := JOB_START\<rparr>)" using assms(2) by simp
  obtain n where n: "job_set_state p JOB_WAITING ?s1 = Some (upd_job p ?w (?s1\<lparr>n_running_jobs := n\<rparr>))"
      "wf_jobs P (upd_job p ?w (?s1\<lparr>n_running_jobs := n\<rparr>))"
    using job_set_state_wf [OF s1 h1] by blast
  define s2 where "s2 = upd_job p ?w (?s1\<lparr>n_running_jobs := n\<rparr>)"
  have h2: "heap s2 p = Some (j\<lparr>j_type := JOB_START, j_state := JOB_WAITING\<rparr>)" using assms(2) by (simp add: s2_def)
  have s2: "wf_jobs P s2" using n(2) by (simp add: s2_def)
  obtain s3 where s3: "job_add_to_dbus_queue p s2 = Some s3" "wf_jobs P s3" "same_core s2 s3"
    using job_add_to_dbus_queue_wf [OF s2 h2] assms(3) by auto
  obtain k3 where k3: "heap s3 p = Some k3" "j_installed k3" using same_core_job [OF s3(3) h2] assms(3) by auto
  obtain s4 where s4: "job_add_to_run_queue p s3 = Some s4" "wf_jobs P s4" "same_core s3 s4"
    using job_add_to_run_queue_wf [OF s3(2) k3] by blast
  obtain k4 where k4: "heap s4 p = Some k4" "j_installed k4" using same_core_job [OF s4(3) k3(1)] k3(2) by metis
  have s5: "wf_jobs P (job_add_to_gc_queue p s4)" "same_core s4 (job_add_to_gc_queue p s4)"
    using job_add_to_gc_queue_wf [OF s4(2) k4] by auto
  have "same_core (upd_job p (\<lambda>j. j\<lparr>j_type := JOB_START, j_state := JOB_WAITING\<rparr>) st) s2"
    using assms(2) by (simp add: same_core_def s2_def)
  then have "same_core (upd_job p (\<lambda>j. j\<lparr>j_type := JOB_START, j_state := JOB_WAITING\<rparr>) st) (job_add_to_gc_queue p s4)"
    using s3(3) s4(3) s5(2) by (blast intro: same_core_trans)
  then show ?thesis using n(1) s3(1) s4(1) s5(1) by (simp add: restart_becomes_start_def s2_def)
qed

section \<open>One call\<close>

text \<open>The dependencies over which the end of a job makes other jobs fail, if any.\<close>

definition failure_atom :: "job_type \<Rightarrow> job_result \<Rightarrow> bool \<Rightarrow> unit_active_state \<Rightarrow> u64 option" where
  "failure_atom t result recursive s =
     (if \<not> recursive then None
      else if result \<noteq> JOB_DONE then
        if t \<in> {JOB_START, JOB_VERIFY_ACTIVE} then Some UNIT_ATOM_PROPAGATE_START_FAILURE
        else if t = JOB_STOP then Some UNIT_ATOM_PROPAGATE_STOP_FAILURE
        else None
      else if t \<in> {JOB_START, JOB_RELOAD} \<and> \<not> UNIT_IS_ACTIVE_OR_RELOADING s
      then Some UNIT_ATOM_PROPAGATE_INACTIVE_START_AS_FAILURE else None)"

definition failing_units :: "unit_rec \<Rightarrow> u64 option \<Rightarrow> unitp list" where
  "failing_units u atom =
     (case atom of None \<Rightarrow> [] | Some a \<Rightarrow> UNIT_FOREACH_DEPENDENCY (u_dependencies u) a)"

definition finish_effects :: "hooks \<Rightarrow> unitp \<Rightarrow> job_result \<Rightarrow> sys \<Rightarrow> sys" where
  "finish_effects hk u result st =
     h_trigger_notify hk u (if result \<in> {JOB_TIMEOUT, JOB_DEPENDENCY} then h_start_on_failure hk u st else st)"

lemma n_failed_irrelevant [simp]:
  "wf_jobs P (st\<lparr>n_failed_jobs := n\<rparr>) = wf_jobs P st"
  "same_core (st\<lparr>n_failed_jobs := n\<rparr>) s = same_core st s"
  by (simp_all add: wf_jobs_def slots_ok_def installed_jobs_def running_jobs_def index_ok_def queue_ok_def
      count_ok_def same_core_def)

lemma retire_upd:
  assumes "heap st p = Some j"
  shows "retire p (upd_job p (\<lambda>j. j\<lparr>j_result := result\<rparr>) st) = retire p st"
proof -
  have "running_jobs (upd_job p (\<lambda>j. j\<lparr>j_result := result\<rparr>) st) = running_jobs st"
    using assms by (intro running_upd) auto
  then show ?thesis
    using assms by (intro sys.equality) (simp_all add: retire_def set_job_slot_def upd_unit_def)
qed

lemma retire_failed: "retire p (st\<lparr>n_failed_jobs := k\<rparr>) = (retire p st)\<lparr>n_failed_jobs := k\<rparr>"
  by (intro sys.equality) (simp_all add: retire_def set_job_slot_def upd_unit_def running_jobs_def)

lemma retire_fields [simp]:
  "u_dependencies (units (retire p st) v) = u_dependencies (units st v)"
  "u_active_state (units (retire p st) v) = u_active_state (units st v)"
  "heap (retire p st) = (heap st)(p := None)"
  by (simp_all add: retire_def)

lemma finish_call:
  assumes "wf_jobs P st" "heap st p = Some j" "j_installed j" "\<not> (result = JOB_DONE \<and> j_type j = JOB_RESTART)"
  obtains k where "job_finish_and_invalidate (Suc n) hk p result recursive st = do {
      s \<leftarrow> job_fail_dependencies n hk
             (failing_units (units st (j_unit j))
                (failure_atom (j_type j) result recursive (u_active_state (units st (j_unit j)))))
             ((retire p st)\<lparr>n_failed_jobs := k\<rparr>);
      start_next_jobs hk (j_unit j) (finish_effects hk (j_unit j) result s)
    }"
proof -
  let ?s = "upd_job p (\<lambda>j. j\<lparr>j_result := result\<rparr>) st"
  define s0 where "s0 = (if result \<in> {JOB_FAILED, JOB_INVALID}
     then ?s\<lparr>n_failed_jobs := n_failed_jobs ?s + 1\<rparr> else ?s)"
  define k where "k = n_failed_jobs s0"
  have s0: "s0 = ?s\<lparr>n_failed_jobs := k\<rparr>" unfolding k_def s0_def by simp
  have h0: "heap s0 p = Some (j\<lparr>j_result := result\<rparr>)" using assms(2) by (simp add: s0)
  have "wf_jobs P ?s"
    using assms(1,2) by (rule wf_jobs_upd) (simp add: harmless_def)
  then have w0: "wf_jobs P s0" by (simp add: s0)
  obtain s1 where s1: "job_uninstall p s0 = Some s1" "job_free p s1 = (retire p st)\<lparr>n_failed_jobs := k\<rparr>"
    using retire_eq [OF w0 h0] assms(3) retire_upd [OF assms(2), of result]
    by (auto simp: s0 retire_failed)
  have t: "\<not> JOB_TYPE_MAX_IN_TRANSACTION \<le> job_type_value (j_type j)"
    using type_in_transaction installed_type [OF wf_jobsD(1) [OF assms(1)] assms(2,3)] by blast
  show ?thesis
    apply (rule that [of k], cases "result = JOB_DONE"; cases recursive; cases "j_type j")
    using assms(2-4) t s1(1) [unfolded s0_def]
    apply (simp_all add: s1(2) Let_def failing_units_def failure_atom_def finish_effects_def
        cong: if_cong split del: if_split)
    by simp_all
qed

section \<open>The invariant is kept\<close>

text \<open>
  What units do on their own, when a job of theirs has ended, keeps the invariant: it goes
  through the same operations.
\<close>

definition hooks_ok :: "jobp set \<Rightarrow> hooks \<Rightarrow> bool" where
  "hooks_ok P hk \<longleftrightarrow>
     (\<forall>u st. wf_jobs P st \<longrightarrow> wf_jobs P (h_start_on_failure hk u st) \<and>
        wf_jobs P (h_trigger_notify hk u st) \<and> wf_jobs P (h_finished hk u st))"

lemma hooks_okD:
  assumes "hooks_ok P hk" "wf_jobs P st"
  shows "wf_jobs P (finish_effects hk u result st)"
    "start_next_jobs hk u st = Some st' \<Longrightarrow> wf_jobs P st'"
proof -
  show "wf_jobs P (finish_effects hk u result st)"
    using assms by (simp add: hooks_ok_def finish_effects_def)
  assume "start_next_jobs hk u st = Some st'"
  then show "wf_jobs P st'"
    using start_next_jobs_wf [OF assms(2), of hk u] assms(1) by (auto simp: hooks_ok_def)
qed

lemma wf_jobs_mono: "wf_jobs P st \<Longrightarrow> P \<subseteq> Q \<Longrightarrow> wf_jobs Q st"
  by (auto simp: wf_jobs_def index_ok_def)

lemma wf_jobs_retire': "wf_jobs P st \<Longrightarrow> heap st p = Some j \<Longrightarrow> j_installed j \<Longrightarrow> wf_jobs P (retire p st)"
  using wf_jobs_retire wf_jobs_mono by blast

lemma unit_job_installed:
  assumes "wf_jobs P st" "u_job (units st u) = Some q"
  obtains j where "heap st q = Some j" "j_installed j" "j_unit j = u" "j_type j \<in> merging_types"
  using slots_okD(1) [OF wf_jobsD(1) [OF assms(1)] assms(2)] by blast

lemma finish_restart_wf:
  assumes "wf_jobs P st" "heap st p = Some j" "j_installed j" "j_type j = JOB_RESTART"
  shows "\<exists>s. job_finish_and_invalidate (Suc n) hk p JOB_DONE recursive st = start_next_jobs hk (j_unit j) s \<and>
    wf_jobs P s \<and> same_core (upd_job p (\<lambda>j. j\<lparr>j_type := JOB_START, j_state := JOB_WAITING, j_result := JOB_DONE\<rparr>) st) s"
proof -
  let ?s = "upd_job p (\<lambda>j. j\<lparr>j_result := JOB_DONE\<rparr>) st"
  have h: "heap ?s p = Some (j\<lparr>j_result := JOB_DONE\<rparr>)" using assms(2) by simp
  have w: "wf_jobs P ?s" using assms(1,2) by (rule wf_jobs_upd) (simp add: harmless_def)
  obtain s where s: "restart_becomes_start p ?s = Some s" "wf_jobs P s"
      "same_core (upd_job p (\<lambda>j. j\<lparr>j_type := JOB_START, j_state := JOB_WAITING\<rparr>) ?s) s"
    using restart_becomes_start_wf [OF w h] assms(3,4) by auto
  have "same_core (upd_job p (\<lambda>j. j\<lparr>j_type := JOB_START, j_state := JOB_WAITING, j_result := JOB_DONE\<rparr>) st)
      (upd_job p (\<lambda>j. j\<lparr>j_type := JOB_START, j_state := JOB_WAITING\<rparr>) ?s)"
    using assms(2) by (simp add: same_core_def core_def)
  then show ?thesis
    using assms(2-4) s same_core_trans
    by (auto simp: Let_def JOB_TYPE_MAX_IN_TRANSACTION_def)
qed

lemma finish_wf_step:
  assumes hk: "hooks_ok P hk"
    and IH: "\<And>p j result recursive st st'. wf_jobs P st \<Longrightarrow> heap st p = Some j \<Longrightarrow> j_installed j \<Longrightarrow>
      job_finish_and_invalidate n hk p result recursive st = Some st' \<Longrightarrow> wf_jobs P st'"
  shows "wf_jobs P st \<Longrightarrow> job_fail_dependencies n hk vs st = Some st' \<Longrightarrow> wf_jobs P st'"
proof (induction vs arbitrary: st)
  case (Cons v vs)
  show ?case
  proof (cases "\<exists>q. u_job (units st v) = Some q \<and> j_type (job_at st q) \<in> {JOB_START, JOB_VERIFY_ACTIVE}")
    case True
    then obtain q where q: "u_job (units st v) = Some q" "j_type (job_at st q) \<in> {JOB_START, JOB_VERIFY_ACTIVE}" by blast
    obtain j where j: "heap st q = Some j" "j_installed j" using unit_job_installed [OF Cons.prems(1) q(1)] by metis
    obtain s1 where "job_finish_and_invalidate n hk q JOB_DEPENDENCY True st = Some s1"
        "job_fail_dependencies n hk vs s1 = Some st'"
      using Cons.prems(2) q by (auto split: bind_splits)
    then show ?thesis using IH [OF Cons.prems(1) j] Cons.IH by blast
  next
    case False
    then have "job_fail_dependencies n hk vs st = Some st'"
      using Cons.prems(2) by (cases "u_job (units st v)") auto
    then show ?thesis using Cons by blast
  qed
qed simp

lemma finish_wf:
  assumes "hooks_ok P hk"
  shows "wf_jobs P st \<Longrightarrow> heap st p = Some j \<Longrightarrow> j_installed j \<Longrightarrow>
    job_finish_and_invalidate n hk p result recursive st = Some st' \<Longrightarrow> wf_jobs P st'"
proof (induction n arbitrary: p j result recursive st st')
  case (Suc n)
  have loop: "wf_jobs P s'" if "wf_jobs P s" "job_fail_dependencies n hk vs s = Some s'" for vs s s'
    by (rule finish_wf_step [OF assms _ that]) (rule Suc.IH)
  show ?case
  proof (cases "result = JOB_DONE \<and> j_type j = JOB_RESTART")
    case True
    then obtain s where "job_finish_and_invalidate (Suc n) hk p result recursive st = start_next_jobs hk (j_unit j) s"
        "wf_jobs P s"
      using finish_restart_wf [OF Suc.prems(1-3)] by blast
    then show ?thesis using Suc.prems(4) hooks_okD(2) [OF assms] by simp
  next
    case False
    let ?vs = "failing_units (units st (j_unit j))
       (failure_atom (j_type j) result recursive (u_active_state (units st (j_unit j))))"
    obtain k where k: "job_finish_and_invalidate (Suc n) hk p result recursive st = do {
        s \<leftarrow> job_fail_dependencies n hk ?vs ((retire p st)\<lparr>n_failed_jobs := k\<rparr>);
        start_next_jobs hk (j_unit j) (finish_effects hk (j_unit j) result s)
      }"
      using finish_call [OF Suc.prems(1-3) False, of n hk recursive] .
    then obtain s1 where "job_fail_dependencies n hk ?vs ((retire p st)\<lparr>n_failed_jobs := k\<rparr>) = Some s1"
        "start_next_jobs hk (j_unit j) (finish_effects hk (j_unit j) result s1) = Some st'"
      using Suc.prems(4) unfolding k by (auto simp: bind_eq_Some_conv)
    moreover have "wf_jobs P ((retire p st)\<lparr>n_failed_jobs := k\<rparr>)"
      using wf_jobs_retire' [OF Suc.prems(1-3)] by simp
    ultimately show ?thesis using loop hooks_okD [OF assms] by blast
  qed
qed simp

lemma fail_dependencies_wf:
  assumes "hooks_ok P hk" "wf_jobs P st" "job_fail_dependencies n hk vs st = Some st'"
  shows "wf_jobs P st'"
  by (rule finish_wf_step [OF assms(1) _ assms(2,3)]) (rule finish_wf [OF assms(1)])

section \<open>Enough fuel, and who fails\<close>

text \<open>
  Hooks that leave the jobs alone: no unit has \<open>OnFailure=\<close> units, and no unit enqueues jobs when a
  unit it triggers changes.
\<close>

definition same_jobs :: "sys \<Rightarrow> sys \<Rightarrow> bool" where
  "same_jobs st st' \<longleftrightarrow>
     heap st' = heap st \<and> m_jobs st' = m_jobs st \<and> run_queue st' = run_queue st \<and>
     dbus_job_queue st' = dbus_job_queue st \<and> gc_job_queue st' = gc_job_queue st \<and>
     n_running_jobs st' = n_running_jobs st \<and> links st' = links st \<and> tr_jobs st' = tr_jobs st \<and>
     tr_anchor st' = tr_anchor st \<and> next_job st' = next_job st \<and>
     (\<forall>u. u_job (units st' u) = u_job (units st u) \<and> u_nop_job (units st' u) = u_nop_job (units st u) \<and>
          u_dependencies (units st' u) = u_dependencies (units st u))"

definition quiet :: "hooks \<Rightarrow> bool" where
  "quiet hk \<longleftrightarrow> (\<forall>u st. same_jobs st (h_start_on_failure hk u st) \<and> same_jobs st (h_trigger_notify hk u st) \<and>
     same_jobs st (h_finished hk u st))"

lemma same_jobs_wf: "same_jobs st st' \<Longrightarrow> wf_jobs P st' = wf_jobs P st"
  by (simp add: same_jobs_def wf_jobs_def slots_ok_def queue_ok_def count_ok_def index_ok_def
      installed_jobs_def running_jobs_def job_slot_def)

lemma quiet_ok: "quiet hk \<Longrightarrow> hooks_ok P hk"
  unfolding quiet_def hooks_ok_def using same_jobs_wf by blast

text \<open>From \<open>st\<close> to \<open>st'\<close> jobs have only gone away.\<close>

definition waits_to_start :: "sys \<Rightarrow> unitp \<Rightarrow> bool" where
  "waits_to_start st u \<longleftrightarrow>
     (\<exists>q. u_job (units st u) = Some q \<and> j_type (job_at st q) \<in> {JOB_START, JOB_VERIFY_ACTIVE})"

definition shrinks :: "sys \<Rightarrow> sys \<Rightarrow> bool" where
  "shrinks st st' \<longleftrightarrow>
     installed_jobs st' \<subseteq> installed_jobs st \<and> dom (heap st') \<subseteq> dom (heap st) \<and>
     (\<forall>u. u_dependencies (units st' u) = u_dependencies (units st u) \<and>
          (u_job (units st' u) = None \<or>
           u_job (units st' u) = u_job (units st u) \<and> waits_to_start st' u = waits_to_start st u))"

lemma shrinks_refl: "shrinks st st"
  by (simp add: shrinks_def)

lemma shrinksI:
  assumes "installed_jobs st' \<subseteq> installed_jobs st" "dom (heap st') \<subseteq> dom (heap st)"
    "\<And>u. u_dependencies (units st' u) = u_dependencies (units st u)"
    "\<And>u. u_job (units st' u) = None \<or>
       u_job (units st' u) = u_job (units st u) \<and> waits_to_start st' u = waits_to_start st u"
  shows "shrinks st st'"
  using assms by (simp add: shrinks_def)

lemma shrinksD:
  assumes "shrinks st st'"
  shows "u_dependencies (units st' u) = u_dependencies (units st u)"
    "installed_jobs st' \<subseteq> installed_jobs st"
    "u_job (units st' u) = None \<or>
       u_job (units st' u) = u_job (units st u) \<and> waits_to_start st' u = waits_to_start st u"
    "dom (heap st') \<subseteq> dom (heap st)"
  using assms by (simp_all add: shrinks_def)

lemma shrinks_trans:
  assumes "shrinks st s1" "shrinks s1 s2"
  shows "shrinks st s2"
proof (rule shrinksI)
  note a = shrinksD [OF assms(1)] and b = shrinksD [OF assms(2)]
  show "installed_jobs s2 \<subseteq> installed_jobs st" using a(2) b(2) by blast
  show "dom (heap s2) \<subseteq> dom (heap st)" using a(4) b(4) by blast
  fix u
  show "u_dependencies (units s2 u) = u_dependencies (units st u)" using a(1) b(1) by simp
  show "u_job (units s2 u) = None \<or>
      u_job (units s2 u) = u_job (units st u) \<and> waits_to_start s2 u = waits_to_start st u"
    using a(3) [of u] b(3) [of u] by auto
qed

lemma no_job_no_wait: "u_job (units st u) = None \<Longrightarrow> \<not> waits_to_start st u"
  by (simp add: waits_to_start_def)

lemma shrinks_jobD:
  assumes "shrinks st st'"
  shows "u_job (units st u) = None \<Longrightarrow> u_job (units st' u) = None"
    "waits_to_start st' u \<Longrightarrow> waits_to_start st u"
    "waits_to_start st u \<Longrightarrow> waits_to_start st' u \<or> u_job (units st' u) = None"
  using shrinksD(3) [OF assms, of u] no_job_no_wait [of st' u] by auto

lemma same_jobs_shrinks: "same_jobs st st' \<Longrightarrow> shrinks st st'"
  by (simp add: same_jobs_def shrinks_def installed_jobs_def waits_to_start_def)

lemma same_core_shrinks:
  assumes "same_core st st'" "wf_jobs P st"
  shows "shrinks st st'"
proof -
  have "waits_to_start st' u = waits_to_start st u" for u
  proof (cases "u_job (units st u)")
    case (Some q)
    then obtain j where "heap st q = Some j" using unit_job_installed [OF assms(2)] by metis
    then obtain j' where "heap st' q = Some j'" "j_type j' = j_type j" using same_core_job [OF assms(1)] by metis
    then show ?thesis using Some \<open>heap st q = Some j\<close> assms(1) by (simp add: waits_to_start_def same_core_def)
  qed (use assms(1) in \<open>simp add: waits_to_start_def same_core_def\<close>)
  moreover have "dom (heap st') \<subseteq> dom (heap st)"
  proof
    fix p assume "p \<in> dom (heap st')"
    moreover have "map_option core (heap st' p) = map_option core (heap st p)" using assms(1) by (simp add: same_core_def)
    ultimately show "p \<in> dom (heap st)" by (cases "heap st p") auto
  qed
  ultimately show ?thesis
    using same_core_installed [OF assms(1)] assms(1) by (simp add: shrinks_def same_core_def)
qed

lemma retire_unit_job:
  assumes "wf_jobs P st" "heap st p = Some j" "j_installed j"
  shows "u_job (units (retire p st) v) = (if u_job (units st v) = Some p then None else u_job (units st v))"
proof -
  have r: "u_job (units (retire p st) v) = (if j_type j \<noteq> JOB_NOP \<and> v = j_unit j then None else u_job (units st v))"
    using assms(2) by (simp add: retire_def)
  show ?thesis
  proof (cases "u_job (units st v) = Some p")
    case True
    then obtain x where "heap st p = Some x" "j_unit x = v" "j_type x \<in> merging_types"
      using unit_job_installed [OF assms(1) True] by blast
    then have "j_unit j = v" "j_type j \<noteq> JOB_NOP" using assms(2) nop_not_merging by auto
    then show ?thesis using r True by simp
  next
    case False
    then have "\<not> (j_type j \<noteq> JOB_NOP \<and> v = j_unit j)"
      using slots_okD(3) [OF wf_jobsD(1) [OF assms(1)] assms(2,3)] by (auto simp: job_slot_def)
    then show ?thesis using r False by auto
  qed
qed

lemma retire_shrinks:
  assumes "wf_jobs P st" "heap st p = Some j" "j_installed j"
  shows "shrinks st ((retire p st)\<lparr>n_failed_jobs := k\<rparr>)"
proof (rule shrinksI)
  fix u
  show "u_job (units ((retire p st)\<lparr>n_failed_jobs := k\<rparr>) u) = None \<or>
      u_job (units ((retire p st)\<lparr>n_failed_jobs := k\<rparr>) u) = u_job (units st u) \<and>
      waits_to_start ((retire p st)\<lparr>n_failed_jobs := k\<rparr>) u = waits_to_start st u"
    using retire_unit_job [OF assms, of u] by (cases "u_job (units st u) = Some p") (auto simp: waits_to_start_def)
qed (auto simp: installed_jobs_def)

text \<open>
  The units whose waiting job fails when the job of the other unit fails; and that a step from
  \<open>st\<close> to \<open>st'\<close> has failed all of them for each job it ended.
\<close>

definition fails_with :: "sys \<Rightarrow> (unitp \<times> unitp) set" where
  "fails_with st = {(u, v). waits_to_start st v \<and>
     v \<in> set (UNIT_FOREACH_DEPENDENCY (u_dependencies (units st u)) UNIT_ATOM_PROPAGATE_START_FAILURE)}"

definition failed_all :: "sys \<Rightarrow> sys \<Rightarrow> bool" where
  "failed_all st st' \<longleftrightarrow>
     (\<forall>u v. waits_to_start st u \<longrightarrow> u_job (units st' u) = None \<longrightarrow> (u, v) \<in> fails_with st \<longrightarrow>
        u_job (units st' v) = None)"

lemma failed_allD:
  "failed_all st st' \<Longrightarrow> waits_to_start st u \<Longrightarrow> u_job (units st' u) = None \<Longrightarrow> (u, v) \<in> fails_with st \<Longrightarrow>
    u_job (units st' v) = None"
  by (simp add: failed_all_def)

lemma failed_all_trans:
  assumes "shrinks st s1" "shrinks s1 s2" "failed_all st s1" "failed_all s1 s2"
  shows "failed_all st s2"
  unfolding failed_all_def
proof (intro allI impI)
  fix u v assume u: "waits_to_start st u" "u_job (units s2 u) = None" "(u, v) \<in> fails_with st"
  show "u_job (units s2 v) = None"
  proof (cases "u_job (units s1 v) = None")
    case True
    then show ?thesis by (rule shrinks_jobD(1) [OF assms(2)])
  next
    case v: False
    then have "u_job (units s1 u) \<noteq> None" using failed_allD [OF assms(3) u(1) _ u(3)] by metis
    then have 1: "waits_to_start s1 u" using shrinks_jobD(3) [OF assms(1) u(1)] by auto
    have "waits_to_start st v" using u(3) by (simp add: fails_with_def)
    then have "waits_to_start s1 v" using shrinks_jobD(3) [OF assms(1), of v] v by auto
    then have "(u, v) \<in> fails_with s1" using u(3) shrinksD(1) [OF assms(1)] by (simp add: fails_with_def)
    then show ?thesis using failed_allD [OF assms(4) 1 u(2)] by simp
  qed
qed

lemma failed_all_nothing: "(\<And>u. u_job (units st' u) = u_job (units st u)) \<Longrightarrow> failed_all st st'"
  by (auto simp: failed_all_def waits_to_start_def)

lemma finish_effects_shrinks:
  assumes "quiet hk" "wf_jobs P st"
  shows "\<exists>s. start_next_jobs hk u (finish_effects hk u result st) = Some s \<and> wf_jobs P s \<and>
    shrinks st s \<and> (\<forall>v. u_job (units s v) = u_job (units st v)) \<and> (\<forall>p. heap s p = None \<longleftrightarrow> heap st p = None)"
proof -
  note q = assms(1) [unfolded quiet_def]
  let ?s1 = "finish_effects hk u result st"
  have s1: "same_jobs st ?s1"
    using q unfolding finish_effects_def same_jobs_def by (cases "result \<in> {JOB_TIMEOUT, JOB_DEPENDENCY}") auto
  have w1: "wf_jobs P ?s1" using same_jobs_wf [OF s1] assms(2) by simp
  obtain s2 where s2: "start_next_jobs hk u ?s1 = Some (h_finished hk u s2)" "wf_jobs P s2" "same_core ?s1 s2"
    using start_next_jobs_wf [OF w1] by blast
  let ?s3 = "h_finished hk u s2"
  have s3: "same_jobs s2 ?s3" using q by blast
  have "shrinks st ?s3"
    using same_jobs_shrinks [OF s1] same_core_shrinks [OF s2(3) w1] same_jobs_shrinks [OF s3]
    by (blast intro: shrinks_trans)
  moreover have "u_job (units ?s3 v) = u_job (units st v)" for v
    using s1 s2(3) s3 by (simp add: same_jobs_def same_core_def)
  moreover have "heap ?s3 p = None \<longleftrightarrow> heap st p = None" for p
  proof -
    have "map_option core (heap s2 p) = map_option core (heap ?s1 p)" using s2(3) by (simp add: same_core_def)
    then have "heap s2 p = None \<longleftrightarrow> heap ?s1 p = None" by (metis map_option_is_None)
    then show ?thesis using s1 s3 by (simp add: same_jobs_def)
  qed
  moreover have "wf_jobs P ?s3" using same_jobs_wf [OF s3] s2(2) by simp
  ultimately show ?thesis using s2(1) by blast
qed

text \<open>
  What a call with enough fuel establishes.  A finished restart starts the unit again; any other
  job goes away.
\<close>

definition finished :: "jobp set \<Rightarrow> jobp \<Rightarrow> job_result \<Rightarrow> bool \<Rightarrow> sys \<Rightarrow> sys option \<Rightarrow> bool" where
  "finished P p result recursive st out \<longleftrightarrow>
     (\<exists>st'. out = Some st' \<and> wf_jobs P st' \<and> shrinks st st' \<and> heap st' p = None \<and>
        (result \<noteq> JOB_DONE \<and> recursive \<longrightarrow> failed_all st st'))"

lemma fail_dependencies_total:
  assumes "quiet hk"
    and IH: "\<And>q j st. wf_jobs P st \<Longrightarrow> heap st q = Some j \<Longrightarrow> j_installed j \<Longrightarrow> card (installed_jobs st) \<le> n \<Longrightarrow>
      j_type j \<in> {JOB_START, JOB_VERIFY_ACTIVE} \<Longrightarrow>
      finished P q JOB_DEPENDENCY True st (job_finish_and_invalidate n hk q JOB_DEPENDENCY True st)"
  shows "wf_jobs P st \<Longrightarrow> card (installed_jobs st) \<le> n \<Longrightarrow>
    \<exists>st'. job_fail_dependencies n hk vs st = Some st' \<and> wf_jobs P st' \<and> shrinks st st' \<and>
      failed_all st st' \<and> (\<forall>v\<in>set vs. \<not> waits_to_start st' v)"
proof (induction vs arbitrary: st)
  case Nil
  then show ?case by (auto simp: shrinks_refl intro: failed_all_nothing)
next
  case (Cons v vs)
  show ?case
  proof (cases "waits_to_start st v")
    case False
    then have e: "job_fail_dependencies n hk (v # vs) st = job_fail_dependencies n hk vs st"
      by (cases "u_job (units st v)") (auto simp: waits_to_start_def)
    obtain st' where st': "job_fail_dependencies n hk vs st = Some st'" "wf_jobs P st'" "shrinks st st'"
        "failed_all st st'" "\<forall>v\<in>set vs. \<not> waits_to_start st' v"
      using Cons.IH [OF Cons.prems] by blast
    have "\<not> waits_to_start st' v" using False shrinks_jobD(2) [OF st'(3)] by blast
    then show ?thesis using e st' by auto
  next
    case True
    then obtain q where q: "u_job (units st v) = Some q" "j_type (job_at st q) \<in> {JOB_START, JOB_VERIFY_ACTIVE}"
      by (auto simp: waits_to_start_def)
    obtain j where j: "heap st q = Some j" "j_installed j" using unit_job_installed [OF Cons.prems(1) q(1)] by blast
    have "j_type j \<in> {JOB_START, JOB_VERIFY_ACTIVE}" using q(2) j(1) by simp
    from IH [OF Cons.prems(1) j Cons.prems(2) this]
    obtain s1 where s1: "job_finish_and_invalidate n hk q JOB_DEPENDENCY True st = Some s1" "wf_jobs P s1"
        "shrinks st s1" "heap s1 q = None" "failed_all st s1"
      by (auto simp: finished_def)
    have "card (installed_jobs s1) \<le> n"
      using card_mono [OF _ shrinksD(2) [OF s1(3)]] wf_jobsD(5) [OF Cons.prems(1)] Cons.prems(2)
      by (auto simp: count_ok_def)
    from Cons.IH [OF s1(2) this]
    obtain st' where st': "job_fail_dependencies n hk vs s1 = Some st'" "wf_jobs P st'" "shrinks s1 st'"
        "failed_all s1 st'" "\<forall>v\<in>set vs. \<not> waits_to_start st' v" by blast
    have "u_job (units s1 v) = None"
    proof (rule ccontr)
      assume "u_job (units s1 v) \<noteq> None"
      then have "u_job (units s1 v) = Some q" using shrinksD(3) [OF s1(3), of v] q(1) by auto
      then show False using unit_job_installed [OF s1(2)] s1(4) by (metis option.distinct(1))
    qed
    then have "\<not> waits_to_start st' v"
      using shrinks_jobD(1) [OF st'(3)] no_job_no_wait by blast
    moreover have "job_fail_dependencies n hk (v # vs) st = Some st'"
      using q s1(1) st'(1) by auto
    moreover have "shrinks st st'" using shrinks_trans [OF s1(3) st'(3)] .
    moreover have "failed_all st st'" using failed_all_trans [OF s1(3) st'(3) s1(5) st'(4)] .
    ultimately show ?thesis using st'(2,5) by auto
  qed
qed

lemma failed_all_call:
  assumes "wf_jobs P st" "heap st p = Some j" "j_installed j"
    and s1: "shrinks ((retire p st)\<lparr>n_failed_jobs := k\<rparr>) s1" "failed_all ((retire p st)\<lparr>n_failed_jobs := k\<rparr>) s1"
    and u: "\<And>v. j_type j \<in> {JOB_START, JOB_VERIFY_ACTIVE} \<Longrightarrow>
      v \<in> set (UNIT_FOREACH_DEPENDENCY (u_dependencies (units st (j_unit j))) UNIT_ATOM_PROPAGATE_START_FAILURE) \<Longrightarrow>
      \<not> waits_to_start s1 v"
  shows "failed_all st s1"
  unfolding failed_all_def
proof (intro allI impI)
  let ?s0 = "(retire p st)\<lparr>n_failed_jobs := k\<rparr>"
  note s0 = retire_shrinks [OF assms(1-3), of k]
  fix x v assume x: "waits_to_start st x" "u_job (units s1 x) = None" "(x, v) \<in> fails_with st"
  have wv: "waits_to_start st v" using x(3) by (simp add: fails_with_def)
  show "u_job (units s1 v) = None"
  proof (cases "u_job (units st x) = Some p")
    case True
    then have "j_unit j = x" using unit_job_installed [OF assms(1) True] assms(2) by auto
    then have "\<not> waits_to_start s1 v"
      using x(1,3) True assms(2) by (intro u) (auto simp: waits_to_start_def fails_with_def)
    then show ?thesis using shrinks_jobD(3) [OF shrinks_trans [OF s0 s1(1)] wv] by blast
  next
    case False
    then have e: "u_job (units ?s0 x) = u_job (units st x)" using retire_unit_job [OF assms(1-3)] by simp
    moreover have "u_job (units st x) \<noteq> None" using x(1) no_job_no_wait by blast
    ultimately have 1: "waits_to_start ?s0 x" using shrinks_jobD(3) [OF s0 x(1)] by metis
    show ?thesis
    proof (cases "u_job (units ?s0 v) = None")
      case True
      then show ?thesis by (rule shrinks_jobD(1) [OF s1(1)])
    next
      case False
      then have "waits_to_start ?s0 v" using shrinks_jobD(3) [OF s0 wv] by auto
      then have "(x, v) \<in> fails_with ?s0" using x(3) by (simp add: fails_with_def)
      then show ?thesis using failed_allD [OF s1(2) 1 x(2)] by blast
    qed
  qed
qed

lemma finish_total:
  assumes "quiet hk"
  shows "wf_jobs P st \<Longrightarrow> heap st p = Some j \<Longrightarrow> j_installed j \<Longrightarrow> card (installed_jobs st) \<le> n \<Longrightarrow>
    \<not> (result = JOB_DONE \<and> j_type j = JOB_RESTART) \<Longrightarrow>
    finished P p result recursive st (job_finish_and_invalidate n hk p result recursive st)"
proof (induction n arbitrary: p j result recursive st)
  case 0
  have "p \<in> installed_jobs st" using 0 by (simp add: installed_jobs_def)
  then show ?case using 0(4) wf_jobsD(5) [OF 0(1)] by (auto simp: count_ok_def)
next
  case (Suc n)
  let ?atom = "failure_atom (j_type j) result recursive (u_active_state (units st (j_unit j)))"
  let ?vs = "failing_units (units st (j_unit j)) ?atom"
  obtain k where k: "job_finish_and_invalidate (Suc n) hk p result recursive st = do {
      s \<leftarrow> job_fail_dependencies n hk ?vs ((retire p st)\<lparr>n_failed_jobs := k\<rparr>);
      start_next_jobs hk (j_unit j) (finish_effects hk (j_unit j) result s)
    }"
    using finish_call [OF Suc.prems(1-3,5), of n hk recursive] .
  let ?s0 = "(retire p st)\<lparr>n_failed_jobs := k\<rparr>"
  have p: "p \<in> installed_jobs st" using Suc.prems(2,3) by (simp add: installed_jobs_def)
  have i0: "installed_jobs ?s0 = installed_jobs st - {p}" using installed_retire by (simp add: installed_jobs_def)
  have "card (installed_jobs ?s0) \<le> n"
    using p Suc.prems(4) wf_jobsD(5) [OF Suc.prems(1)] unfolding i0 by (simp add: count_ok_def)
  moreover have w0: "wf_jobs P ?s0" using wf_jobs_retire' [OF Suc.prems(1-3)] by simp
  ultimately obtain s1 where s1: "job_fail_dependencies n hk ?vs ?s0 = Some s1" "wf_jobs P s1" "shrinks ?s0 s1"
      "failed_all ?s0 s1" "\<forall>v\<in>set ?vs. \<not> waits_to_start s1 v"
    using fail_dependencies_total [OF assms, of P n ?s0 ?vs] Suc.IH by blast
  obtain s2 where s2: "start_next_jobs hk (j_unit j) (finish_effects hk (j_unit j) result s1) = Some s2"
      "wf_jobs P s2" "shrinks s1 s2" "\<forall>v. u_job (units s2 v) = u_job (units s1 v)"
      "\<forall>p. heap s2 p = None \<longleftrightarrow> heap s1 p = None"
    using finish_effects_shrinks [OF assms s1(2)] by blast
  have sh: "shrinks st s1" using shrinks_trans [OF retire_shrinks [OF Suc.prems(1-3)] s1(3)] .
  have "failed_all st s2" if "result \<noteq> JOB_DONE \<and> recursive"
  proof -
    have "failed_all st s1"
      by (rule failed_all_call [OF Suc.prems(1-3) s1(3,4)])
        (use s1(5) that in \<open>auto simp: failure_atom_def failing_units_def\<close>)
    then show ?thesis using s2(4) by (simp add: failed_all_def)
  qed
  moreover have "heap s2 p = None" using s2(5) shrinksD(4) [OF s1(3)] by (auto simp: domIff subset_iff)
  ultimately show ?case
    using k s1(1) s2(1,2) shrinks_trans [OF sh s2(3)] by (simp add: finished_def)
qed


definition idle_hooks :: hooks where
  "idle_hooks = \<lparr>h_start_on_failure = (\<lambda>u st. st), h_trigger_notify = (\<lambda>u st. st), h_finished = (\<lambda>u st. st),
     h_perform = (\<lambda>t u st. (Inr (), st))\<rparr>"

lemma quiet_idle: "quiet idle_hooks"
  by (simp add: quiet_def idle_hooks_def same_jobs_def)

lemma foreach_start_failure:
  "UNIT_FOREACH_DEPENDENCY deps UNIT_ATOM_PROPAGATE_START_FAILURE =
     concat (map snd (filter (\<lambda>(dt, us). unit_dependency_to_atom dt AND UNIT_ATOM_PROPAGATE_START_FAILURE \<noteq> 0) deps))"
  by (simp add: UNIT_FOREACH_DEPENDENCY_def unit_dependency_from_unique_atom_def atom_defs)

lemma ex_failing:
  "UNIT_FOREACH_DEPENDENCY (u_dependencies (units ex_jobs 20)) UNIT_ATOM_PROPAGATE_START_FAILURE = [21]"
  "UNIT_FOREACH_DEPENDENCY (u_dependencies (units ex_jobs 21)) UNIT_ATOM_PROPAGATE_START_FAILURE = [22]"
  by (simp_all add: foreach_start_failure ex_jobs_def plain_unit_def) (simp_all add: atom_defs)

lemma fails_with_ex: "(20, 21) \<in> fails_with ex_jobs" "(21, 22) \<in> fails_with ex_jobs"
  by (simp_all add: fails_with_def ex_failing waits_to_start_def)
    (simp_all add: ex_jobs_def plain_job_def plain_unit_def)

lemma ex_job: "heap ex_jobs 11 = Some ((plain_job 20 JOB_START)\<lparr>j_id := 11, j_installed := True, j_in_run_queue := True\<rparr>)"
  by (simp add: ex_jobs_def)


end
