(* ===== verification/Job_Wait.thy ===== *)
theory Job_Wait
  imports Job_Finish
begin

text \<open>
  Which installed jobs wait for which: \<open>job_is_runnable\<close>, \<open>job_get_before\<close> and \<open>job_get_after\<close> of
  \<open>src/core/job.c\<close> describe one relation, some job can always run unless there is an ordering
  cycle, and the end of a job wakes up every job that waited for it.
\<close>

section \<open>Sorted lists without repetitions\<close>

lemma set_drop_repeated: "set (drop_repeated o' ps) \<subseteq> set ps" "set ps \<subseteq> set (drop_repeated o' ps) \<union> set_option o'"
  by (induction o' ps rule: drop_repeated.induct) auto

lemma sorted_drop_repeated:
  fixes f :: "jobp \<Rightarrow> u32"
  shows "sorted (map f ps) \<Longrightarrow> sorted (map f (drop_repeated o' ps))"
proof (induction o' ps rule: drop_repeated.induct)
  case (2 previous p ps)
  then show ?case using set_drop_repeated(1) [of "Some p" ps] by auto
qed simp

lemma distinct_drop_repeated:
  fixes f :: "jobp \<Rightarrow> u32"
  assumes "sorted (map f ps)" "inj_on f (set_option o' \<union> set ps)" "\<forall>a\<in>set_option o'. \<forall>b\<in>set ps. f a \<le> f b"
  shows "distinct (drop_repeated o' ps) \<and> set_option o' \<inter> set (drop_repeated o' ps) = {}"
  using assms
proof (induction o' ps rule: drop_repeated.induct)
  case (2 previous p ps)
  show ?case
  proof (cases "previous = Some p")
    case True
    then show ?thesis using 2(1,3-) by auto
  next
    case False
    have "inj_on f (set_option (Some p) \<union> set ps)" using 2(4) by (auto intro: inj_on_subset)
    then have IH: "distinct (drop_repeated (Some p) ps) \<and> p \<notin> set (drop_repeated (Some p) ps)"
      using 2(2) [OF False] 2(3) by auto
    have "a \<notin> set ps" if a: "previous = Some a" for a
    proof
      assume "a \<in> set ps"
      then have "f p \<le> f a" "f a \<le> f p" using 2(3,5) a by auto
      then have "f a = f p" by simp
      then have "a = p" by (rule inj_onD [OF 2(4)]) (use a in auto)
      then show False using False a by simp
    qed
    then show ?thesis using False IH set_drop_repeated(1) [of "Some p" ps] by (cases previous) auto
  qed
qed simp

lemma set_sort_job_list [simp]: "set (sort_job_list st ps) = set ps"
  using set_drop_repeated [where o' = None and ps = "sort_key (\<lambda>p. j_id (job_at st p)) ps"] by (auto simp: sort_job_list_def)

lemma sort_job_list_empty: "sort_job_list st ps = [] \<longleftrightarrow> ps = []"
  using set_sort_job_list [of st ps] by (metis set_empty)

lemma sort_job_list_sorted:
  assumes "inj_on (\<lambda>p. j_id (job_at st p)) (set ps)"
  shows "sorted (map (\<lambda>p. j_id (job_at st p)) (sort_job_list st ps))" "distinct (sort_job_list st ps)"
  using sorted_drop_repeated [of "\<lambda>p. j_id (job_at st p)" "sort_key (\<lambda>p. j_id (job_at st p)) ps" None]
    distinct_drop_repeated [of "\<lambda>p. j_id (job_at st p)" "sort_key (\<lambda>p. j_id (job_at st p)) ps" None] assms
  by (auto simp: sort_job_list_def)

lemma inj_installed: "wf_jobs P st \<Longrightarrow> inj_on (\<lambda>p. j_id (job_at st p)) (installed_jobs st)"
proof (rule inj_onI)
  fix p q assume w: "wf_jobs P st" and pq: "p \<in> installed_jobs st" "q \<in> installed_jobs st"
    and e: "j_id (job_at st p) = j_id (job_at st q)"
  have i: "distinct (map fst (m_jobs st))" "\<And>p j. heap st p = Some j \<Longrightarrow> j_installed j \<Longrightarrow> (j_id j, p) \<in> set (m_jobs st)"
    using wf_jobsD(6) [OF w] by (auto simp: index_ok_def)
  obtain j k where jk: "heap st p = Some j" "j_installed j" "heap st q = Some k" "j_installed k"
    using pq by (auto simp: installed_jobs_def)
  then have "(j_id j, p) \<in> set (m_jobs st)" "(j_id j, q) \<in> set (m_jobs st)"
    using e i(2) [OF jk(1,2)] i(2) [OF jk(3,4)] by simp_all
  then show "p = q" using i(1) by (metis map_of_is_SomeI option.inject)
qed

section \<open>The relation\<close>

lemma job_compare_after: "job_compare a b UNIT_ATOM_AFTER = - job_compare b a UNIT_ATOM_BEFORE"
  by (simp add: job_compare_eq)

lemma job_compare_nop: "j_type a = JOB_NOP \<or> j_type b = JOB_NOP \<Longrightarrow> job_compare a b d = 0"
  by (subst job_compare.simps) simp

lemma before_conv:
  "q \<in> set (job_get_before p st) \<longleftrightarrow>
     \<not> j_ignore_order (job_at st p) \<and>
     (q \<in> set (ordered_jobs st (j_unit (job_at st p)) UNIT_ATOM_AFTER) \<and>
        job_compare (job_at st p) (job_at st q) UNIT_ATOM_AFTER > 0 \<or>
      q \<in> set (ordered_jobs st (j_unit (job_at st p)) UNIT_ATOM_BEFORE) \<and>
        job_compare (job_at st p) (job_at st q) UNIT_ATOM_BEFORE > 0)"
  by (auto simp: job_get_before_def Let_def)

lemma after_conv:
  "q \<in> set (job_get_after p st) \<longleftrightarrow>
     \<not> j_ignore_order (job_at st q) \<and>
     (q \<in> set (ordered_jobs st (j_unit (job_at st p)) UNIT_ATOM_BEFORE) \<and>
        job_compare (job_at st p) (job_at st q) UNIT_ATOM_BEFORE < 0 \<or>
      q \<in> set (ordered_jobs st (j_unit (job_at st p)) UNIT_ATOM_AFTER) \<and>
        job_compare (job_at st p) (job_at st q) UNIT_ATOM_AFTER < 0)"
  by (auto simp: job_get_after_def Let_def)

lemma ordered_conv:
  "q \<in> set (ordered_jobs st u atom) \<longleftrightarrow>
     (\<exists>v \<in> set (UNIT_FOREACH_DEPENDENCY (u_dependencies (units st u)) atom). u_job (units st v) = Some q)"
  by (auto simp: ordered_jobs_def List.map_filter_def) force

lemma runnable_iff: "job_is_runnable p st \<longleftrightarrow> job_get_before p st = []"
proof -
  have "job_is_runnable p st \<longleftrightarrow> (\<forall>q. q \<notin> set (job_get_before p st))"
    unfolding before_conv by (auto simp: job_is_runnable_def Let_def list_ex_iff job_compare_nop)
  then show ?thesis by (metis all_not_in_conv set_empty)
qed

text \<open>Ordering dependencies are recorded at both units.\<close>

definition symmetric_order :: "sys \<Rightarrow> bool" where
  "symmetric_order st \<longleftrightarrow>
     (\<forall>u v. v \<in> set (UNIT_FOREACH_DEPENDENCY (u_dependencies (units st u)) UNIT_ATOM_BEFORE) \<longleftrightarrow>
            u \<in> set (UNIT_FOREACH_DEPENDENCY (u_dependencies (units st v)) UNIT_ATOM_AFTER))"

lemma ordered_swap:
  assumes "wf_jobs P st" "symmetric_order st" "u_job (units st (j_unit (job_at st p))) = Some p"
    "u_job (units st (j_unit (job_at st q))) = Some q"
  shows "q \<in> set (ordered_jobs st (j_unit (job_at st p)) UNIT_ATOM_BEFORE) \<longleftrightarrow>
    p \<in> set (ordered_jobs st (j_unit (job_at st q)) UNIT_ATOM_AFTER)"
proof -
  have *: "u_job (units st v) = Some r \<longleftrightarrow> v = j_unit (job_at st r)"
    if "u_job (units st (j_unit (job_at st r))) = Some r" for v r
    using that slots_okD(1) [OF wf_jobsD(1) [OF assms(1)], of v r] by auto
  show ?thesis
    unfolding ordered_conv using * [OF assms(3)] * [OF assms(4)] assms(2) by (auto simp: symmetric_order_def)
qed


section \<open>Progress\<close>

text \<open>\<open>(q, p)\<close>: job \<open>p\<close> waits for job \<open>q\<close>.\<close>

definition waits :: "sys \<Rightarrow> (jobp \<times> jobp) set" where
  "waits st = {(q, p). p \<in> installed_jobs st \<and> q \<in> set (job_get_before p st)}"

text \<open>
  C16.  The installed jobs never block each other unless they are ordered in a cycle: if there is
  a job at all and no cycle among the jobs that wait for each other, some job is runnable; and
  below every job there is one that is runnable.
\<close>

theorem some_job_is_runnable:
  assumes "wf_jobs P st" "acyclic (waits st)" "p \<in> installed_jobs st"
  shows "\<exists>q \<in> installed_jobs st. job_is_runnable q st \<and> (q, p) \<in> (waits st)\<^sup>*"
proof -
  have fin: "finite (installed_jobs st)" using wf_jobsD(5) [OF assms(1)] by (simp add: count_ok_def)
  have sub: "waits st \<subseteq> installed_jobs st \<times> installed_jobs st"
    using ordered_jobs_installed [OF wf_jobsD(1) [OF assms(1)]] by (auto simp: waits_def before_conv)
  then have "finite (waits st)" using fin by (meson finite_SigmaI finite_subset)
  then have "wf (waits st)" using assms(2) by (rule finite_acyclic_wf)
  then show ?thesis using assms(3)
  proof (induction p rule: wf_induct_rule)
    case (less p)
    show ?case
    proof (cases "job_get_before p st")
      case Nil
      then show ?thesis using less.prems runnable_iff [of p st] by blast
    next
      case (Cons r rs)
      then have r: "(r, p) \<in> waits st" using less.prems by (simp add: waits_def)
      then obtain q where "q \<in> installed_jobs st" "job_is_runnable q st" "(q, r) \<in> (waits st)\<^sup>*"
        using less.IH [OF r] sub by blast
      then show ?thesis using r by (meson rtrancl.rtrancl_into_rtrancl)
    qed
  qed
qed

section \<open>Waking up\<close>

lemma may_gc_queue: "run_queue (snd (job_may_gc p st)) = run_queue st"
  by (simp add: job_may_gc_def Let_def)

lemma gc_queue_run_queue: "run_queue (job_add_to_gc_queue p st) = run_queue st"
  using may_gc_queue [of p st] by (cases "job_may_gc p st") (auto simp: job_add_to_gc_queue_def)

lemma run_queue_added:
  assumes "wf_jobs P st" "heap st p = Some j" "job_add_to_run_queue p st = Some st'"
  shows "insert p (set (run_queue st)) \<subseteq> set (run_queue st')"
  using assms wf_jobsD(2) [OF assms(1)]
  by (auto simp: job_add_to_run_queue_def queue_ok_def split: if_splits)

lemma enqueue_jobs_queue:
  assumes "wf_jobs P st" "set ps \<subseteq> installed_jobs st" "enqueue_jobs ps st = Some st'"
  shows "set ps \<union> set (run_queue st) \<subseteq> set (run_queue st')"
  using assms
proof (induction ps arbitrary: st)
  case (Cons p ps)
  obtain j where j: "heap st p = Some j" "j_installed j" using Cons.prems(2) by (auto simp: installed_jobs_def)
  obtain s1 where s1: "job_add_to_run_queue p st = Some s1" "wf_jobs P s1" "same_core st s1"
    using job_add_to_run_queue_wf [OF Cons.prems(1) j] by blast
  obtain k where k: "heap s1 p = Some k" "j_installed k" using same_core_job [OF s1(3) j(1)] j(2) by metis
  have s2: "wf_jobs P (job_add_to_gc_queue p s1)" "same_core s1 (job_add_to_gc_queue p s1)"
    using job_add_to_gc_queue_wf [OF s1(2) k] by auto
  have "set ps \<subseteq> installed_jobs (job_add_to_gc_queue p s1)"
    using Cons.prems(2) same_core_installed [OF same_core_trans [OF s1(3) s2(2)]] by simp
  moreover have "enqueue_jobs ps (job_add_to_gc_queue p s1) = Some st'" using Cons.prems(3) s1(1) by simp
  ultimately have "set ps \<union> set (run_queue s1) \<subseteq> set (run_queue st')"
    using Cons.IH [OF s2(1)] gc_queue_run_queue by metis
  then show ?case using run_queue_added [OF Cons.prems(1) j(1) s1(1)] by auto
qed simp

lemma start_next_jobs_queue:
  assumes "wf_jobs P st" "start_next_jobs hk u st = Some st'" "\<And>s. same_jobs s (h_finished hk u s)"
  shows "set (ordered_jobs st u UNIT_ATOM_AFTER) \<union> set (ordered_jobs st u UNIT_ATOM_BEFORE) \<subseteq> set (run_queue st')"
proof -
  note o = ordered_jobs_installed [OF wf_jobsD(1)]
  obtain s1 where s1: "enqueue_jobs (ordered_jobs st u UNIT_ATOM_AFTER) st = Some s1" "wf_jobs P s1" "same_core st s1"
    using enqueue_jobs_wf [OF assms(1) o [OF assms(1)]] by blast
  obtain s2 where s2: "enqueue_jobs (ordered_jobs s1 u UNIT_ATOM_BEFORE) s1 = Some s2"
    using enqueue_jobs_wf [OF s1(2) o [OF s1(2)]] by blast
  have st': "st' = h_finished hk u s2" using assms(2) s1(1) s2 by (simp add: start_next_jobs_def)
  have "ordered_jobs s1 u UNIT_ATOM_BEFORE = ordered_jobs st u UNIT_ATOM_BEFORE"
    using s1(3) by (simp add: ordered_jobs_def same_core_def)
  then have "set (ordered_jobs st u UNIT_ATOM_AFTER) \<union> set (ordered_jobs st u UNIT_ATOM_BEFORE) \<subseteq> set (run_queue s2)"
    using enqueue_jobs_queue [OF assms(1) o [OF assms(1)] s1(1)] enqueue_jobs_queue [OF s1(2) o [OF s1(2)] s2] by auto
  then show ?thesis using assms(3) [of s2] st' by (simp add: same_jobs_def)
qed

text \<open>
  C17.  The end of a job wakes up the jobs that waited for it: every unit that still has a job
  afterwards, and whose job had to wait for the finished one, finds its job in the run queue.
\<close>

theorem job_finish_wakes_waiters:
  assumes "quiet hk" "wf_jobs P st" "symmetric_order st" "heap st p = Some j" "j_installed j"
    "\<not> (result = JOB_DONE \<and> j_type j = JOB_RESTART)"
  shows "\<exists>st'. job_finish_and_invalidate (card (installed_jobs st)) hk p result recursive st = Some st' \<and>
    (\<forall>v q. u_job (units st' v) = Some q \<and> p \<in> set (job_get_before q st) \<longrightarrow> q \<in> set (run_queue st'))"
proof -
  have fin: "finished P p result recursive st
      (job_finish_and_invalidate (card (installed_jobs st)) hk p result recursive st)"
    using finish_total [OF assms(1,2,4,5) order_refl assms(6)] .
  then obtain st' where st': "job_finish_and_invalidate (card (installed_jobs st)) hk p result recursive st = Some st'"
      "shrinks st st'" by (auto simp: finished_def)
  then obtain n where n: "card (installed_jobs st) = Suc n" by (cases "card (installed_jobs st)") auto
  let ?vs = "failing_units (units st (j_unit j))
     (failure_atom (j_type j) result recursive (u_active_state (units st (j_unit j))))"
  obtain k where k: "job_finish_and_invalidate (Suc n) hk p result recursive st = do {
      s \<leftarrow> job_fail_dependencies n hk ?vs ((retire p st)\<lparr>n_failed_jobs := k\<rparr>);
      start_next_jobs hk (j_unit j) (finish_effects hk (j_unit j) result s)
    }"
    using finish_call [OF assms(2,4,5,6), of n hk recursive] .
  obtain s1 where s1: "job_fail_dependencies n hk ?vs ((retire p st)\<lparr>n_failed_jobs := k\<rparr>) = Some s1"
      "start_next_jobs hk (j_unit j) (finish_effects hk (j_unit j) result s1) = Some st'"
    using st'(1) unfolding n k by (auto simp: bind_eq_Some_conv)
  let ?s2 = "finish_effects hk (j_unit j) result s1"
  note ok = quiet_ok [OF assms(1), of P]
  have w1: "wf_jobs P s1"
    using fail_dependencies_wf [OF ok _ s1(1)] wf_jobs_retire' [OF assms(2,4,5)] by simp
  have w2: "wf_jobs P ?s2" using hooks_okD(1) [OF ok w1] .
  obtain s where s: "st' = h_finished hk (j_unit j) s" "same_core ?s2 s"
    using start_next_jobs_wf [OF w2, of hk "j_unit j"] s1(2) by auto
  have same: "u_job (units st' v) = u_job (units ?s2 v)" "u_dependencies (units st' v) = u_dependencies (units ?s2 v)" for v
    using s assms(1) by (auto simp: quiet_def same_jobs_def same_core_def)
  have woken: "set (ordered_jobs ?s2 (j_unit j) UNIT_ATOM_AFTER) \<union> set (ordered_jobs ?s2 (j_unit j) UNIT_ATOM_BEFORE)
      \<subseteq> set (run_queue st')"
    using start_next_jobs_queue [OF w2 s1(2)] assms(1) by (simp add: quiet_def)
  have "q \<in> set (run_queue st')" if q: "u_job (units st' v) = Some q" "p \<in> set (job_get_before q st)" for v q
  proof -
    have "u_job (units st v) = Some q" using shrinksD(3) [OF st'(2), of v] q(1) by auto
    then obtain x where x: "heap st q = Some x" "j_unit x = v" using unit_job_installed [OF assms(2)] by blast
    from q(2) x obtain atom w where w: "atom = UNIT_ATOM_AFTER \<or> atom = UNIT_ATOM_BEFORE"
        "w \<in> set (UNIT_FOREACH_DEPENDENCY (u_dependencies (units st v)) atom)" "u_job (units st w) = Some p"
      unfolding before_conv ordered_conv by auto
    have "w = j_unit j" using unit_job_installed [OF assms(2) w(3)] assms(4) by auto
    then have "v \<in> set (UNIT_FOREACH_DEPENDENCY (u_dependencies (units ?s2 (j_unit j))) UNIT_ATOM_AFTER) \<union>
        set (UNIT_FOREACH_DEPENDENCY (u_dependencies (units ?s2 (j_unit j))) UNIT_ATOM_BEFORE)"
      using w(1,2) assms(3) shrinksD(1) [OF st'(2), of "j_unit j"] same(2) [of "j_unit j"]
      unfolding symmetric_order_def Un_iff by metis
    then show ?thesis using woken q(1) same(1) [of v] unfolding subset_iff Un_iff ordered_conv by metis
  qed
  then show ?thesis using st'(1) by blast
qed

section \<open>Examples\<close>

lemma ex_jobs_order:
  "UNIT_FOREACH_DEPENDENCY (u_dependencies (units ex_jobs u)) UNIT_ATOM_BEFORE = (if u = 20 then [21] else [])"
  "UNIT_FOREACH_DEPENDENCY (u_dependencies (units ex_jobs u)) UNIT_ATOM_AFTER = (if u = 21 then [20] else [])"
  by (simp_all add: foreach_order ex_jobs_def plain_unit_def)

lemma symmetric_ex: "symmetric_order ex_jobs"
  by (auto simp: symmetric_order_def ex_jobs_order)

lemma ex_jobs_at:
  "u_job (units ex_jobs 20) = Some 11" "u_job (units ex_jobs 21) = Some 12"
  "j_unit (job_at ex_jobs 11) = 20" "j_unit (job_at ex_jobs 12) = 21" "j_unit (job_at ex_jobs 13) = 22"
  "j_type (job_at ex_jobs 11) = JOB_START" "j_type (job_at ex_jobs 12) = JOB_START"
  "j_ignore_order (job_at ex_jobs 11) = False" "j_ignore_order (job_at ex_jobs 12) = False"
  by (simp_all add: ex_jobs_def plain_job_def)

lemma ex_jobs_before:
  "job_get_before 11 ex_jobs = []" "job_get_before 12 ex_jobs = [11]" "job_get_before 13 ex_jobs = []"
  by (simp_all add: job_get_before_def Let_def ordered_jobs_def ex_jobs_order ex_jobs_at List.map_filter_def
      sort_job_list_def job_compare_eq)


lemma waits_ex: "waits ex_jobs = {(11, 12)}"
  by (auto simp: waits_def ex_jobs_views ex_jobs_before)

theorem some_job_is_runnable_witness:
  "\<exists>q \<in> {11, 12, 13}. job_is_runnable q ex_jobs \<and> (q, 12) \<in> {(11, 12)}\<^sup>*"
proof -
  have "acyclic (waits ex_jobs)" by (simp add: waits_ex acyclic_def trancl_insert)
  then show ?thesis
    using some_job_is_runnable [OF wf_ex_jobs, of 12] by (simp add: waits_ex ex_jobs_views)
qed

theorem job_finish_wakes_waiters_witness:
  "\<exists>st'. job_finish_and_invalidate 3 idle_hooks 11 JOB_DONE True ex_jobs = Some st' \<and>
    (u_job (units st' 21) = Some 12 \<longrightarrow> 12 \<in> set (run_queue st'))"
proof -
  have "\<not> (JOB_DONE = JOB_DONE \<and> j_type ((plain_job 20 JOB_START)
      \<lparr>j_id := 11, j_installed := True, j_in_run_queue := True\<rparr>) = JOB_RESTART)" by (simp add: plain_job_def)
  from job_finish_wakes_waiters [OF quiet_idle wf_ex_jobs symmetric_ex ex_job _ this, of True]
  obtain st' where "job_finish_and_invalidate (card (installed_jobs ex_jobs)) idle_hooks 11 JOB_DONE True ex_jobs = Some st'"
    "u_job (units st' 21) = Some 12 \<and> 11 \<in> set (job_get_before 12 ex_jobs) \<longrightarrow> 12 \<in> set (run_queue st')"
    by auto
  moreover have "card (installed_jobs ex_jobs) = 3" by (simp add: ex_jobs_views)
  ultimately show ?thesis unfolding ex_jobs_before(2) by (metis list.set_intros(1))
qed

end
