(* ===== verification/Job_Install.thy ===== *)
theory Job_Install
  imports Job_Finish
begin

text \<open>
  Installing a job: \<open>job_install\<close> of \<open>src/core/job.c\<close> puts the job into its unit, in place of a
  conflicting one, or merges it into the job that is there.  It keeps the invariant of the
  installed jobs and leaves every job alone that is not installed.
\<close>

section \<open>Jobs that are not installed\<close>

definition frame :: "sys \<Rightarrow> sys \<Rightarrow> bool" where
  "frame st st' \<longleftrightarrow>
     (\<forall>q. q \<notin> installed_jobs st \<longrightarrow> heap st' q = heap st q) \<and> installed_jobs st' \<subseteq> installed_jobs st \<and>
     (\<forall>e \<in> set (m_jobs st). snd e \<notin> installed_jobs st \<longrightarrow> e \<in> set (m_jobs st')) \<and>
     links st' = links st \<and> tr_jobs st' = tr_jobs st \<and> tr_anchor st' = tr_anchor st \<and> next_job st' = next_job st"

lemma frame_refl: "frame st st"
  by (simp add: frame_def)

lemma frameD:
  assumes "frame st st'"
  shows "q \<notin> installed_jobs st \<Longrightarrow> heap st' q = heap st q" "installed_jobs st' \<subseteq> installed_jobs st"
    "e \<in> set (m_jobs st) \<Longrightarrow> snd e \<notin> installed_jobs st \<Longrightarrow> e \<in> set (m_jobs st')"
    "links st' = links st" "tr_jobs st' = tr_jobs st" "tr_anchor st' = tr_anchor st" "next_job st' = next_job st"
  using assms by (simp_all add: frame_def)

lemma frame_trans:
  assumes "frame st s1" "frame s1 s2"
  shows "frame st s2"
proof -
  note a = frameD [OF assms(1)] and b = frameD [OF assms(2)]
  have "heap s2 q = heap st q" if q: "q \<notin> installed_jobs st" for q
    using a(1) [OF q] b(1) [of q] a(2) q by auto
  moreover have "e \<in> set (m_jobs s2)" if e: "e \<in> set (m_jobs st)" "snd e \<notin> installed_jobs st" for e
    using a(3) [OF e] b(3) [of e] a(2) e(2) by auto
  ultimately show ?thesis using a b by (auto simp: frame_def)
qed

lemma frame_upd:
  assumes "heap st p = Some j" "j_installed j" "j_installed (f j)"
  shows "frame st (upd_job p f st)"
  using assms installed_upd [of st p j f] by (auto simp: frame_def installed_jobs_def)

lemma frame_queues [simp]:
  "frame st (s\<lparr>run_queue := r\<rparr>) = frame st s" "frame st (s\<lparr>dbus_job_queue := r\<rparr>) = frame st s"
  "frame st (s\<lparr>gc_job_queue := r\<rparr>) = frame st s"
  by (simp_all add: frame_def)

lemma frame_run_queue:
  "heap st p = Some j \<Longrightarrow> j_installed j \<Longrightarrow> job_add_to_run_queue p st = Some st' \<Longrightarrow> frame st st'"
  using frame_upd [of st p j "\<lambda>j. j\<lparr>j_in_run_queue := True\<rparr>"]
  by (auto simp: job_add_to_run_queue_def frame_refl split: if_splits)

lemma frame_dbus_queue:
  "heap st p = Some j \<Longrightarrow> j_installed j \<Longrightarrow> job_add_to_dbus_queue p st = Some st' \<Longrightarrow> frame st st'"
  using frame_upd [of st p j "\<lambda>j. j\<lparr>j_in_dbus_queue := True\<rparr>"]
  by (auto simp: job_add_to_dbus_queue_def frame_refl split: if_splits)

lemma may_gc_cases:
  "snd (job_may_gc p st) = st \<or> snd (job_may_gc p st) = upd_job p (\<lambda>j. j\<lparr>j_ref_by_private_bus := False\<rparr>) st"
  by (simp add: job_may_gc_def Let_def)

lemma frame_gc_queue:
  assumes "heap st p = Some j" "j_installed j"
  shows "frame st (job_add_to_gc_queue p st)"
proof -
  obtain may s where m: "job_may_gc p st = (may, s)" by (cases "job_may_gc p st")
  have s: "frame st s" "\<exists>k. heap s p = Some k \<and> j_installed k"
    using may_gc_cases [of p st] m assms frame_upd [OF assms, of "\<lambda>j. j\<lparr>j_ref_by_private_bus := False\<rparr>"]
    by (auto simp: frame_refl)
  then obtain k where k: "heap s p = Some k" "j_installed k" by blast
  have "frame s (upd_job p (\<lambda>j. j\<lparr>j_in_gc_queue := True\<rparr>) s)" using frame_upd [OF k] k(2) by simp
  then show ?thesis using m s(1) frame_trans [OF s(1)] by (auto simp: job_add_to_gc_queue_def frame_refl)
qed

lemma installed_at: "p \<in> installed_jobs st \<Longrightarrow> \<exists>j. heap st p = Some j \<and> j_installed j"
  by (simp add: installed_jobs_def)

lemma frame_enqueue:
  assumes "wf_jobs P st" "set ps \<subseteq> installed_jobs st" "enqueue_jobs ps st = Some st'"
  shows "frame st st'"
  using assms
proof (induction ps arbitrary: st)
  case (Cons p ps)
  obtain j where j: "heap st p = Some j" "j_installed j" using Cons.prems(2) installed_at by force
  obtain s1 where s1: "job_add_to_run_queue p st = Some s1" "wf_jobs P s1" "same_core st s1"
    using job_add_to_run_queue_wf [OF Cons.prems(1) j] by blast
  obtain k where k: "heap s1 p = Some k" "j_installed k" using same_core_job [OF s1(3) j(1)] j(2) by metis
  have s2: "wf_jobs P (job_add_to_gc_queue p s1)" "same_core s1 (job_add_to_gc_queue p s1)"
    using job_add_to_gc_queue_wf [OF s1(2) k] by auto
  have "set ps \<subseteq> installed_jobs (job_add_to_gc_queue p s1)"
    using Cons.prems(2) same_core_installed [OF same_core_trans [OF s1(3) s2(2)]] by simp
  moreover have "enqueue_jobs ps (job_add_to_gc_queue p s1) = Some st'" using Cons.prems(3) s1(1) by simp
  ultimately have "frame (job_add_to_gc_queue p s1) st'" using Cons.IH [OF s2(1)] by blast
  then show ?case
    using frame_trans [OF frame_trans [OF frame_run_queue [OF j s1(1)] frame_gc_queue [OF k]]] by blast
qed (simp add: frame_refl)

lemma same_jobs_frame: "same_jobs st st' \<Longrightarrow> frame st st'"
  by (simp add: same_jobs_def frame_def installed_jobs_def)

lemma frame_start_next:
  assumes "quiet hk" "wf_jobs P st" "start_next_jobs hk u st = Some st'"
  shows "frame st st'"
proof -
  note o = ordered_jobs_installed [OF wf_jobsD(1)]
  obtain s1 where s1: "enqueue_jobs (ordered_jobs st u UNIT_ATOM_AFTER) st = Some s1" "wf_jobs P s1"
    using enqueue_jobs_wf [OF assms(2) o [OF assms(2)]] by blast
  obtain s2 where s2: "enqueue_jobs (ordered_jobs s1 u UNIT_ATOM_BEFORE) s1 = Some s2"
    using enqueue_jobs_wf [OF s1(2) o [OF s1(2)]] by blast
  have "st' = h_finished hk u s2" using assms(3) s1(1) s2 by (simp add: start_next_jobs_def)
  moreover have "frame s2 (h_finished hk u s2)" using assms(1) by (auto simp: quiet_def intro: same_jobs_frame)
  ultimately show "frame st st'"
    using frame_trans [OF frame_trans [OF frame_enqueue [OF assms(2) o [OF assms(2)] s1(1)]
        frame_enqueue [OF s1(2) o [OF s1(2)] s2]]] by simp
qed

text \<open>Nothing leaves the run queue on the way.\<close>

lemma run_queue_grows:
  "job_add_to_run_queue p st = Some st' \<Longrightarrow> set (run_queue st) \<subseteq> set (run_queue st')"
  "job_add_to_run_queue p st = Some st' \<Longrightarrow> queue_ok run_queue j_in_run_queue st \<Longrightarrow> heap st p = Some j \<Longrightarrow> p \<in> set (run_queue st')"
  "job_add_to_dbus_queue p st = Some st' \<Longrightarrow> run_queue st' = run_queue st"
  "run_queue (job_add_to_gc_queue p st) = run_queue st"
  using may_gc_cases [of p st]
  by (auto simp: job_add_to_run_queue_def job_add_to_dbus_queue_def job_add_to_gc_queue_def queue_ok_def
      split: if_splits prod.splits)

lemma enqueue_grows: "enqueue_jobs ps st = Some st' \<Longrightarrow> set (run_queue st) \<subseteq> set (run_queue st')"
proof (induction ps arbitrary: st)
  case (Cons p ps)
  then obtain s1 where s1: "job_add_to_run_queue p st = Some s1" "enqueue_jobs ps (job_add_to_gc_queue p s1) = Some st'"
    by (auto split: Option.bind_splits)
  then show ?case using Cons.IH [OF s1(2)] run_queue_grows(1) [OF s1(1)] by (auto simp: run_queue_grows(4))
qed simp

lemma start_next_grows:
  assumes "quiet hk" "start_next_jobs hk u st = Some st'"
  shows "set (run_queue st) \<subseteq> set (run_queue st')"
proof -
  obtain s1 s2 where s: "enqueue_jobs (ordered_jobs st u UNIT_ATOM_AFTER) st = Some s1"
      "enqueue_jobs (ordered_jobs s1 u UNIT_ATOM_BEFORE) s1 = Some s2" "st' = h_finished hk u s2"
    using assms(2) by (auto simp: start_next_jobs_def split: Option.bind_splits)
  have "run_queue st' = run_queue s2" using assms(1) s(3) by (simp add: quiet_def same_jobs_def)
  then show ?thesis using enqueue_grows [OF s(1)] enqueue_grows [OF s(2)] by simp
qed

section \<open>Cancelling the job of a unit\<close>

lemma retire_slots:
  assumes "wf_jobs P st" "heap st p = Some j" "j_installed j"
  shows "job_slot t (units (retire p st) v) =
    (if job_slot t (units st v) = Some p then None else job_slot t (units st v))"
proof (cases "t = JOB_NOP")
  case False
  then show ?thesis using retire_unit_job [OF assms] by (simp add: job_slot_def)
next
  case True
  have r: "u_nop_job (units (retire p st) v) = (if j_type j = JOB_NOP \<and> v = j_unit j then None else u_nop_job (units st v))"
    using assms(2) by (simp add: retire_def)
  have "u_nop_job (units st v) = Some p \<longleftrightarrow> j_type j = JOB_NOP \<and> v = j_unit j"
    if "u_nop_job (units st v) = Some p \<or> j_type j = JOB_NOP \<and> v = j_unit j"
    using that slots_okD(2) [OF wf_jobsD(1) [OF assms(1)], of v p] assms(2)
      slots_okD(3) [OF wf_jobsD(1) [OF assms(1)] assms(2,3)] by (auto simp: job_slot_def)
  then show ?thesis using r True by (auto simp: job_slot_def)
qed

lemma retire_frame:
  assumes "heap st p = Some j" "j_installed j"
  shows "frame st ((retire p st)\<lparr>n_failed_jobs := k\<rparr>)"
proof -
  have "tr_anchor (retire p st) = tr_anchor st" "next_job (retire p st) = next_job st" "links (retire p st) = links st"
    "tr_jobs (retire p st) = tr_jobs st" "set (m_jobs (retire p st)) = set (m_jobs st) - {(j_id (job_at st p), p)}"
    by (auto simp: retire_def set_job_slot_def upd_unit_def)
  moreover have "p \<in> installed_jobs st" using assms by (simp add: installed_jobs_def)
  ultimately show ?thesis by (auto simp: frame_def installed_jobs_def)
qed

lemma finish_alone:
  assumes "quiet hk" "wf_jobs P st" "heap st p = Some j" "j_installed j" "result \<noteq> JOB_DONE"
  obtains st' where "job_finish_and_invalidate (Suc n) hk p result False st = Some st'" "wf_jobs P st'"
    "frame st st'" "heap st' p = None"
    "\<And>t v. job_slot t (units st' v) = (if job_slot t (units st v) = Some p then None else job_slot t (units st v))"
    "\<And>r. r \<noteq> p \<Longrightarrow> map_option core (heap st' r) = map_option core (heap st r)"
    "set (run_queue st) - {p} \<subseteq> set (run_queue st')"
proof -
  obtain k where "job_finish_and_invalidate (Suc n) hk p result False st = do {
      s \<leftarrow> job_fail_dependencies n hk
             (failing_units (units st (j_unit j))
                (failure_atom (j_type j) result False (u_active_state (units st (j_unit j)))))
             ((retire p st)\<lparr>n_failed_jobs := k\<rparr>);
      start_next_jobs hk (j_unit j) (finish_effects hk (j_unit j) result s)
    }"
    using finish_call [OF assms(2-4), of result n hk False] assms(5) by blast
  then have f: "job_finish_and_invalidate (Suc n) hk p result False st =
      start_next_jobs hk (j_unit j) (finish_effects hk (j_unit j) result ((retire p st)\<lparr>n_failed_jobs := k\<rparr>))"
    by (simp add: failure_atom_def failing_units_def)
  let ?s0 = "(retire p st)\<lparr>n_failed_jobs := k\<rparr>"
  let ?s1 = "finish_effects hk (j_unit j) result ?s0"
  have w0: "wf_jobs P ?s0" using wf_jobs_retire' [OF assms(2-4)] by simp
  have s1: "same_jobs ?s0 ?s1"
    using assms(1) unfolding finish_effects_def quiet_def same_jobs_def
    by (cases "result \<in> {JOB_TIMEOUT, JOB_DEPENDENCY}") auto
  then have w1: "wf_jobs P ?s1" using same_jobs_wf w0 by blast
  obtain s2 where s2: "start_next_jobs hk (j_unit j) ?s1 = Some (h_finished hk (j_unit j) s2)" "wf_jobs P s2" "same_core ?s1 s2"
    using start_next_jobs_wf [OF w1] by blast
  let ?st' = "h_finished hk (j_unit j) s2"
  have s3: "same_jobs s2 ?st'" using assms(1) by (simp add: quiet_def)
  have fr: "frame st ?st'"
    using frame_trans [OF frame_trans [OF retire_frame [OF assms(3,4)] same_jobs_frame [OF s1]]
        frame_start_next [OF assms(1) w1 s2(1)]] .
  have "heap ?st' p = None"
  proof -
    have "heap ?s1 p = None" using s1 by (simp add: same_jobs_def)
    then have "p \<notin> installed_jobs ?s1" by (simp add: installed_jobs_def)
    then have "heap ?st' p = heap ?s1 p" using frame_start_next [OF assms(1) w1 s2(1)] by (simp add: frame_def)
    then show ?thesis using \<open>heap ?s1 p = None\<close> by simp
  qed
  moreover have "job_slot t (units ?st' v) = (if job_slot t (units st v) = Some p then None else job_slot t (units st v))" for t v
  proof -
    have "job_slot t (units ?st' v) = job_slot t (units s2 v)" using s3 by (simp add: same_jobs_def job_slot_def)
    moreover have "job_slot t (units s2 v) = job_slot t (units ?s1 v)" using s2(3) by (simp add: same_core_def)
    moreover have "job_slot t (units ?s1 v) = job_slot t (units ?s0 v)" using s1 by (simp add: same_jobs_def job_slot_def)
    ultimately show ?thesis using retire_slots [OF assms(2-4), of t v] by simp
  qed
  moreover have "map_option core (heap ?st' r) = map_option core (heap st r)" if "r \<noteq> p" for r
  proof -
    have "heap ?s0 r = heap st r" using that by (simp add: retire_def)
    then show ?thesis using s1 s2(3) s3 by (simp add: same_jobs_def same_core_def)
  qed
  moreover have "set (run_queue st) - {p} \<subseteq> set (run_queue ?st')"
    using start_next_grows [OF assms(1) s2(1)] s1 by (auto simp: same_jobs_def retire_def)
  moreover have "wf_jobs P ?st'" using same_jobs_wf [OF s3] s2(2) by simp
  ultimately show ?thesis using that f s2(1) fr by auto
qed

section \<open>Installing\<close>

text \<open>A job about to be installed: it is in the table of jobs, waits, and is in no queue.\<close>

definition ready :: "sys \<Rightarrow> jobp \<Rightarrow> job \<Rightarrow> bool" where
  "ready st p j \<longleftrightarrow>
     heap st p = Some j \<and> \<not> j_installed j \<and> j_state j = JOB_WAITING \<and>
     (j_type j = JOB_NOP \<or> j_type j \<in> merging_types) \<and>
     \<not> j_in_run_queue j \<and> \<not> j_in_dbus_queue j \<and> \<not> j_in_gc_queue j \<and> (j_id j, p) \<in> set (m_jobs st)"

definition occupied :: "jobp \<Rightarrow> sys \<Rightarrow> sys" where
  "occupied p st =
     (upd_job p (\<lambda>j. j\<lparr>j_installed := True\<rparr>)
        (set_job_slot (j_type (job_at st p)) (j_unit (job_at st p)) (Some p) st))
       \<lparr>n_installed_jobs := n_installed_jobs st + 1\<rparr>"

lemma set_job_slot_views:
  "job_slot t' (units (set_job_slot t u v st) w) =
    (if w = u \<and> (t' = JOB_NOP \<longleftrightarrow> t = JOB_NOP) then v else job_slot t' (units st w))"
  "tr_anchor (set_job_slot t u v st) = tr_anchor st" "next_job (set_job_slot t u v st) = next_job st"
  "n_installed_jobs (set_job_slot t u v st) = n_installed_jobs st"
  by (auto simp: set_job_slot_def upd_unit_def job_slot_def)

lemma occupied_fields:
  "heap (occupied p st) = (heap st)(p := map_option (\<lambda>j. j\<lparr>j_installed := True\<rparr>) (heap st p))"
  "m_jobs (occupied p st) = m_jobs st" "run_queue (occupied p st) = run_queue st"
  "dbus_job_queue (occupied p st) = dbus_job_queue st" "gc_job_queue (occupied p st) = gc_job_queue st"
  "n_running_jobs (occupied p st) = n_running_jobs st" "links (occupied p st) = links st"
  "tr_jobs (occupied p st) = tr_jobs st" "tr_anchor (occupied p st) = tr_anchor st"
  "next_job (occupied p st) = next_job st"
  "units (occupied p st) = units (set_job_slot (j_type (job_at st p)) (j_unit (job_at st p)) (Some p) st)"
  by (simp_all add: occupied_def set_job_slot_views)

lemma slots_ok_conv:
  "slots_ok st \<longleftrightarrow>
     (\<forall>t u p. job_slot t (units st u) = Some p \<longrightarrow>
        (\<exists>j. heap st p = Some j \<and> j_installed j \<and> j_unit j = u \<and>
           (if t = JOB_NOP then j_type j = JOB_NOP else j_type j \<in> merging_types))) \<and>
     (\<forall>p j. heap st p = Some j \<longrightarrow> j_installed j \<longrightarrow> job_slot (j_type j) (units st (j_unit j)) = Some p)"
proof -
  have split: "(\<forall>t. R (t = JOB_NOP)) \<longleftrightarrow> R True \<and> R False" for R
    by (metis (full_types) job_type.distinct(9) job_type.distinct(1))
  let ?R = "\<lambda>b. \<forall>u p. (if b then u_nop_job (units st u) else u_job (units st u)) = Some p \<longrightarrow>
    (\<exists>j. heap st p = Some j \<and> j_installed j \<and> j_unit j = u \<and> (if b then j_type j = JOB_NOP else j_type j \<in> merging_types))"
  have "(\<forall>t u p. job_slot t (units st u) = Some p \<longrightarrow>
        (\<exists>j. heap st p = Some j \<and> j_installed j \<and> j_unit j = u \<and>
           (if t = JOB_NOP then j_type j = JOB_NOP else j_type j \<in> merging_types))) \<longleftrightarrow> ?R True \<and> ?R False"
    unfolding job_slot_def using split [of ?R] by simp
  then show ?thesis unfolding slots_ok_def by (simp add: conj_ac)
qed

lemma occupied_wf:
  assumes "wf_jobs P st" "ready st p j" "job_slot (j_type j) (units st (j_unit j)) = None"
  shows "wf_jobs (P - {p}) (occupied p st)"
proof -
  note w = wf_jobsD [OF assms(1)] and r = assms(2) [unfolded ready_def]
  let ?s = "occupied p st"
  have h: "heap ?s = (heap st)(p \<mapsto> j\<lparr>j_installed := True\<rparr>)" using r by (simp add: occupied_fields)
  have sl: "job_slot t (units ?s u) = (if u = j_unit j \<and> (t = JOB_NOP \<longleftrightarrow> j_type j = JOB_NOP) then Some p
      else job_slot t (units st u))" for t u
    using r by (simp add: occupied_fields set_job_slot_views)
  have sc: "\<And>t u q. job_slot t (units st u) = Some q \<Longrightarrow>
        (\<exists>j. heap st q = Some j \<and> j_installed j \<and> j_unit j = u \<and>
           (if t = JOB_NOP then j_type j = JOB_NOP else j_type j \<in> merging_types))"
      "\<And>q k. heap st q = Some k \<Longrightarrow> j_installed k \<Longrightarrow> job_slot (j_type k) (units st (j_unit k)) = Some q"
    using w(1) unfolding slots_ok_conv by blast+
  have "slots_ok ?s"
    unfolding slots_ok_conv
  proof (intro conjI allI impI)
    fix t u q assume q: "job_slot t (units ?s u) = Some q"
    show "\<exists>k. heap ?s q = Some k \<and> j_installed k \<and> j_unit k = u \<and>
        (if t = JOB_NOP then j_type k = JOB_NOP else j_type k \<in> merging_types)"
    proof (cases "u = j_unit j \<and> (t = JOB_NOP \<longleftrightarrow> j_type j = JOB_NOP)")
      case True
      then have "q = p" using q sl by simp
      then show ?thesis using True r h by auto
    next
      case False
      then have old: "job_slot t (units st u) = Some q" using q sl [of t u] by (auto split: if_splits)
      obtain k where k: "heap st q = Some k" "j_installed k" "j_unit k = u"
          "if t = JOB_NOP then j_type k = JOB_NOP else j_type k \<in> merging_types"
        using sc(1) [OF old] by blast
      then have "q \<noteq> p" using r by auto
      then show ?thesis using k h by simp
    qed
  next
    fix q k assume k: "heap ?s q = Some k" "j_installed k"
    show "job_slot (j_type k) (units ?s (j_unit k)) = Some q"
    proof (cases "q = p")
      case True
      then have "k = j\<lparr>j_installed := True\<rparr>" using k(1) h by simp
      then show ?thesis using True by (simp add: sl)
    next
      case False
      then have "heap st q = Some k" using k(1) h by simp
      then have o: "job_slot (j_type k) (units st (j_unit k)) = Some q" using sc(2) k(2) by blast
      have "\<not> (j_unit k = j_unit j \<and> (j_type k = JOB_NOP \<longleftrightarrow> j_type j = JOB_NOP))"
        using o assms(3) by (auto simp: job_slot_def split: if_splits)
      then show ?thesis using o by (auto simp: sl)
    qed
  qed
  moreover have "queue_ok qu flag ?s" if "queue_ok qu flag st" "qu ?s = qu st" "\<not> flag j" "\<not> flag (j\<lparr>j_installed := True\<rparr>)"
    for qu and flag :: "job \<Rightarrow> bool"
    using that r unfolding queue_ok_def that(2) h by (auto split: if_splits)
  moreover have "installed_jobs ?s = insert p (installed_jobs st)" "running_jobs ?s = running_jobs st"
    using r by (auto simp: installed_jobs_def running_jobs_def h split: if_splits)
  moreover have "j_id j = i" if "(i, p) \<in> set (m_jobs st)" for i
    using w(6) that r by (force simp: index_ok_def)
  moreover have "index_ok (P - {p}) ?s"
    using w(6) r calculation(3,5) unfolding index_ok_def occupied_fields(2) h by (auto split: if_splits)
  ultimately show ?thesis
    using w r by (simp add: wf_jobs_def count_ok_def occupied_fields)
qed

section \<open>The outcome of installing\<close>

text \<open>
  Installing job \<open>p\<close>, which is \<open>j\<close>, makes \<open>q\<close> the job of the unit in the slot of that type; every
  other slot, every job that is not installed and its place in the table of jobs stay.
\<close>

definition installs :: "sys \<Rightarrow> jobp \<Rightarrow> job \<Rightarrow> jobp \<Rightarrow> sys \<Rightarrow> bool" where
  "installs st p j q st' \<longleftrightarrow>
     (\<exists>k. heap st' q = Some k \<and> j_installed k \<and> job_type_is_conflicting (j_type k) (j_type j) = Some False) \<and>
     (q \<noteq> p \<longrightarrow> heap st' p = Some j \<and> q \<in> installed_jobs st) \<and>
     (\<forall>r. r \<notin> installed_jobs st \<longrightarrow> r \<noteq> p \<longrightarrow> heap st' r = heap st r) \<and>
     installed_jobs st' \<subseteq> insert p (installed_jobs st) \<and>
     (\<forall>e \<in> set (m_jobs st). snd e \<notin> installed_jobs st \<longrightarrow> e \<in> set (m_jobs st')) \<and>
     links st' = links st \<and> tr_jobs st' = tr_jobs st \<and> tr_anchor st' = tr_anchor st \<and> next_job st' = next_job st \<and>
     (\<forall>t v. job_slot t (units st' v) =
        (if v = j_unit j \<and> (t = JOB_NOP \<longleftrightarrow> j_type j = JOB_NOP) then Some q else job_slot t (units st v))) \<and>
     (\<forall>r. job_slot (j_type j) (units st (j_unit j)) = Some r \<longrightarrow> r = q \<or> heap st' r = None) \<and>
     (\<forall>k. heap st q = Some k \<longrightarrow> q \<noteq> p \<longrightarrow> map_option j_unit (heap st' q) = Some (j_unit k)) \<and>
     (\<forall>r k. job_slot (j_type j) (units st (j_unit j)) = Some r \<longrightarrow> heap st r = Some k \<longrightarrow> r \<noteq> q \<longrightarrow>
        job_type_is_conflicting (j_type k) (j_type j) = Some True) \<and>
     (\<forall>r k. heap st r = Some k \<longrightarrow> j_installed k \<longrightarrow> job_slot (j_type j) (units st (j_unit j)) \<noteq> Some r \<longrightarrow>
        map_option core (heap st' r) = Some (core k) \<and> (r \<in> set (run_queue st) \<longrightarrow> r \<in> set (run_queue st')))"

lemma not_conflicting_self:
  "t = JOB_NOP \<or> t \<in> merging_types \<Longrightarrow> job_type_is_conflicting t t = Some False"
  by (auto simp: job_type_is_conflicting_def job_type_is_mergeable_eq)

lemma ready_not_installed: "ready st p j \<Longrightarrow> p \<notin> installed_jobs st"
  by (auto simp: ready_def installed_jobs_def)

lemma install_new_outcome:
  assumes "wf_jobs P st" "ready st p j" "job_slot (j_type j) (units st (j_unit j)) = None"
  shows "\<exists>st'. install_new p st = Some (p, st') \<and> wf_jobs (P - {p}) st' \<and> installs st p j p st'"
proof -
  let ?s0 = "occupied p st"
  note w0 = occupied_wf [OF assms] and r = assms(2) [unfolded ready_def]
  have h0: "heap ?s0 p = Some (j\<lparr>j_installed := True\<rparr>)" using r by (simp add: occupied_fields)
  let ?s1 = "job_add_to_gc_queue p ?s0"
  have s1: "wf_jobs (P - {p}) ?s1" "same_core ?s0 ?s1" "frame ?s0 ?s1"
    using job_add_to_gc_queue_wf [OF w0 h0] frame_gc_queue [OF h0] by simp_all
  obtain k where k: "heap ?s1 p = Some k" "j_installed k" "j_type k = j_type j"
    using same_core_job [OF s1(2) h0] by auto
  obtain st' where st': "job_add_to_dbus_queue p ?s1 = Some st'" "wf_jobs (P - {p}) st'" "same_core ?s1 st'"
    using job_add_to_dbus_queue_wf [OF s1(1) k(1,2)] by blast
  have fr: "frame ?s0 st'" using frame_trans [OF s1(3) frame_dbus_queue [OF k(1,2) st'(1)]] .
  obtain k' where k': "heap st' p = Some k'" "j_installed k'" "j_type k' = j_type j"
    using same_core_job [OF st'(3) k(1)] k(2,3) by metis
  have i0: "installed_jobs ?s0 = insert p (installed_jobs st)"
    using r by (auto simp: installed_jobs_def occupied_fields split: if_splits)
  have u: "units st' = units ?s0" using s1(2) st'(3) by (simp add: same_core_def)
  have "install_new p st = Some (p, st')"
    using st'(1) by (simp add: install_new_def occupied_def Let_def set_job_slot_views)
  moreover have "job_type_is_conflicting (j_type k') (j_type j) = Some False"
    using k'(3) not_conflicting_self r by simp
  moreover have "heap st' r = heap st r" if "r \<notin> installed_jobs st" "r \<noteq> p" for r
    using frameD(1) [OF fr, of r] that i0 by (simp add: occupied_fields)
  moreover have "e \<in> set (m_jobs st')" if "e \<in> set (m_jobs st)" for e
    using st'(3) s1(2) that by (simp add: same_core_def occupied_fields)
  moreover have "installed_jobs st' \<subseteq> insert p (installed_jobs st)" using frameD(2) [OF fr] i0 by simp
  moreover have "job_slot t (units st' v) =
      (if v = j_unit j \<and> (t = JOB_NOP \<longleftrightarrow> j_type j = JOB_NOP) then Some p else job_slot t (units st v))" for t v
    using r by (simp add: u occupied_fields set_job_slot_views)
  moreover have "map_option core (heap st' r) = Some (core x) \<and> (r \<in> set (run_queue st) \<longrightarrow> r \<in> set (run_queue st'))"
    if x: "heap st r = Some x" "j_installed x" for r x
  proof -
    have "r \<noteq> p" using x r by auto
    then have "heap ?s0 r = Some x" using x(1) by (simp add: occupied_fields)
    then show ?thesis
      using s1(2) st'(3) run_queue_grows(3) [OF st'(1)] by (simp add: same_core_def run_queue_grows(4) occupied_fields)
  qed
  ultimately show ?thesis
    using st'(2) k' frameD(4-7) [OF fr] assms(3) by (simp add: installs_def occupied_fields)
qed

lemma merge_total:
  assumes "a = JOB_NOP \<or> a \<in> merging_types" "b = JOB_NOP \<or> b \<in> merging_types" "a = JOB_NOP \<longleftrightarrow> b = JOB_NOP"
    and "job_type_is_conflicting a b = Some False"
  shows "\<exists>t. (if a \<noteq> JOB_NOP then
                (case job_type_merge_and_collapse a b s of Some (Inr t) \<Rightarrow> Some t | _ \<Rightarrow> None)
              else if b = JOB_NOP then Some JOB_NOP else None) = Some t \<and>
    (t = a \<or> a \<in> merging_types \<and> t \<in> merging_types) \<and> job_type_is_conflicting t b = Some False"
proof (cases "a = JOB_NOP")
  case True
  then show ?thesis using assms(3) by (simp add: job_type_is_conflicting_def)
next
  case False
  then have m: "a \<in> merging_types" "b \<in> merging_types" "b \<noteq> JOB_NOP" using assms(1-3) by auto
  then have e: "(a = JOB_STOP) = (b = JOB_STOP)"
    using assms(4) False by (simp add: job_type_is_conflicting_def job_type_is_mergeable_eq)
  obtain x where x: "job_type_merge_and_collapse a b s = Some x"
    using merge_and_collapse_outcome [OF m(1,2), of s] by (cases "job_type_merge_and_collapse a b s") simp_all
  show ?thesis
  proof (cases x)
    case (Inl y)
    then show ?thesis using merge_and_collapse_outcome [OF m(1,2), of s] x e by simp
  next
    case (Inr t)
    then have "t \<in> merging_types" "(t = JOB_STOP) = (b = JOB_STOP)"
      using merge_and_collapse_outcome [OF m(1,2), of s] x by simp_all
    then show ?thesis
      using x Inr False m by (simp add: job_type_is_conflicting_def job_type_is_mergeable_eq)
  qed
qed

lemma superset_total:
  assumes "a = JOB_NOP \<or> a \<in> merging_types" "b = JOB_NOP \<or> b \<in> merging_types"
  shows "job_type_is_superset a b \<noteq> None"
  using assms by (cases a; cases b) (simp_all add: merging_types_def job_type_is_superset_def merge_eval)

lemma installs_upd:
  assumes "wf_jobs P st" "ready st p j" "job_slot (j_type j) (units st (j_unit j)) = Some q"
    and "heap st' = (heap st)(q \<mapsto> k)" "j_installed k" "j_unit k = j_unit (job_at st q)" "job_type_is_conflicting (j_type k) (j_type j) = Some False"
    and "m_jobs st' = m_jobs st" "links st' = links st" "tr_jobs st' = tr_jobs st" "tr_anchor st' = tr_anchor st"
      "next_job st' = next_job st" "units st' = units st" "run_queue st' = run_queue st"
  shows "installs st p j q st'"
proof -
  obtain k0 where k0: "heap st q = Some k0" "j_installed k0" using slot_job [OF wf_jobsD(1) [OF assms(1)] assms(3)] by blast
  then have q: "q \<in> installed_jobs st" by (simp add: installed_jobs_def)
  moreover have "p \<notin> installed_jobs st" using ready_not_installed [OF assms(2)] .
  moreover have "installed_jobs st' \<subseteq> installed_jobs st"
    using q by (auto simp: installed_jobs_def assms(4) split: if_splits)
  moreover have "job_slot t (units st v) = Some q" if "v = j_unit j" "t = JOB_NOP \<longleftrightarrow> j_type j = JOB_NOP" for t v
    using that assms(3) by (auto simp: job_slot_def split: if_splits)
  ultimately show ?thesis
    using assms(2-) k0 by (auto simp: installs_def ready_def)
qed

lemma install_merge_outcome:
  assumes "wf_jobs P st" "ready st p j" "job_slot (j_type j) (units st (j_unit j)) = Some q" "heap st q = Some k"
    and "job_type_is_conflicting (j_type k) (j_type j) = Some False"
  shows "\<exists>st1. job_merge_into_installed q p st = Some st1 \<and> wf_jobs P st1 \<and> installs st p j q st1 \<and>
    (\<exists>st2. job_set_state q JOB_WAITING st1 = Some st2 \<and> wf_jobs P st2 \<and> installs st p j q st2)"
proof -
  note r = assms(2) [unfolded ready_def]
  have k: "j_installed k" "j_unit k = j_unit j" "j_type k = JOB_NOP \<longleftrightarrow> j_type j = JOB_NOP"
      "j_type k = JOB_NOP \<or> j_type k \<in> merging_types"
    using slot_job [OF wf_jobsD(1) [OF assms(1)] assms(3)] assms(4) by auto
  obtain t where t: "(if j_type k \<noteq> JOB_NOP then
        (case job_type_merge_and_collapse (j_type k) (j_type j) (u_active_state (units st (j_unit j))) of
           Some (Inr t) \<Rightarrow> Some t | _ \<Rightarrow> None)
      else if j_type j = JOB_NOP then Some JOB_NOP else None) = Some t"
      "t = j_type k \<or> j_type k \<in> merging_types \<and> t \<in> merging_types" "job_type_is_conflicting t (j_type j) = Some False"
    using merge_total [OF k(4) _ k(3) assms(5)] r by blast
  let ?f = "\<lambda>x. x\<lparr>j_type := t, j_irreversible := j_irreversible x \<or> j_irreversible j,
      j_ignore_order := j_ignore_order x \<or> j_ignore_order j\<rparr>"
  let ?s1 = "upd_job q ?f st"
  have m: "job_merge_into_installed q p st = Some ?s1"
  proof (cases "j_type k = JOB_NOP")
    case True
    then have "t = JOB_NOP" "j_type j = JOB_NOP" using t(1) k(3) by simp_all
    then show ?thesis using assms(4) r k(1,2) True by (simp add: job_merge_into_installed_def)
  next
    case False
    then have "job_type_merge_and_collapse (j_type k) (j_type j) (u_active_state (units st (j_unit j))) = Some (Inr t)"
      using t(1) by (simp split: option.splits sum.splits)
    then show ?thesis using assms(4) r k(1,2) False by (simp add: job_merge_into_installed_def)
  qed
  have w1: "wf_jobs P ?s1" using wf_jobs_upd [OF assms(1,4), of ?f] t(2) by (simp add: harmless_def)
  have h1: "heap ?s1 q = Some (?f k)" using assms(4) by simp
  obtain n where n: "job_set_state q JOB_WAITING ?s1 = Some (upd_job q (\<lambda>j. j\<lparr>j_state := JOB_WAITING\<rparr>) (?s1\<lparr>n_running_jobs := n\<rparr>))"
      "wf_jobs P (upd_job q (\<lambda>j. j\<lparr>j_state := JOB_WAITING\<rparr>) (?s1\<lparr>n_running_jobs := n\<rparr>))"
    using job_set_state_wf [OF w1 h1] by blast
  have "installs st p j q ?s1"
    by (rule installs_upd [OF assms(1-3), where k = "?f k"]) (use assms(4) k t(3) in simp_all)
  moreover have "installs st p j q (upd_job q (\<lambda>j. j\<lparr>j_state := JOB_WAITING\<rparr>) (?s1\<lparr>n_running_jobs := n\<rparr>))"
    by (rule installs_upd [OF assms(1-3), where k = "(?f k)\<lparr>j_state := JOB_WAITING\<rparr>"]) (use assms(4) k t(3) in simp_all)
  ultimately show ?thesis using m w1 n by blast
qed

lemma installs_after:
  assumes "wf_jobs P st" "ready st p j" "job_slot (j_type j) (units st (j_unit j)) = Some q" "frame st s1"
    and slots: "\<And>t v. job_slot t (units s1 v) = (if job_slot t (units st v) = Some q then None else job_slot t (units st v))"
    and conflict: "\<And>k. heap st q = Some k \<Longrightarrow> job_type_is_conflicting (j_type k) (j_type j) = Some True"
    and cores: "\<And>r. r \<noteq> q \<Longrightarrow> map_option core (heap s1 r) = map_option core (heap st r)"
      "set (run_queue st) - {q} \<subseteq> set (run_queue s1)" "heap s1 q = None"
    and "installs s1 p j p st'"
  shows "installs st p j p st'"
proof -
  note f = frameD [OF assms(4)] and i = assms(10) [unfolded installs_def]
  have "job_slot t (units st v) \<noteq> Some q" if "\<not> (v = j_unit j \<and> (t = JOB_NOP \<longleftrightarrow> j_type j = JOB_NOP))" for t v
    using slot_job [OF wf_jobsD(1) [OF assms(1)], of t v q] slot_job [OF wf_jobsD(1) [OF assms(1)] assms(3)] that by auto
  then have "job_slot t (units st' v) =
      (if v = j_unit j \<and> (t = JOB_NOP \<longleftrightarrow> j_type j = JOB_NOP) then Some p else job_slot t (units st v))" for t v
    using i slots by simp
  moreover have "heap st' r = heap st r" if "r \<notin> installed_jobs st" "r \<noteq> p" for r
    using that f(1) [OF that(1)] f(2) i by auto
  moreover have "e \<in> set (m_jobs st')" if "e \<in> set (m_jobs st)" "snd e \<notin> installed_jobs st" for e
    using f(3) [OF that] f(2) i that(2) by auto
  moreover have "map_option core (heap st' r) = Some (core k) \<and> (r \<in> set (run_queue st) \<longrightarrow> r \<in> set (run_queue st'))"
    if k: "heap st r = Some k" "j_installed k" "r \<noteq> q" for r k
  proof -
    obtain k1 where k1: "heap s1 r = Some k1" "core k1 = core k" using cores(1) [of r] k(1,3) by auto
    then have "j_installed k1" using k(2) by (metis core_fields(3))
    moreover have "job_slot (j_type j) (units s1 (j_unit j)) \<noteq> Some r" using slots assms(3) by simp
    ultimately have "map_option core (heap st' r) = Some (core k1) \<and> (r \<in> set (run_queue s1) \<longrightarrow> r \<in> set (run_queue st'))"
      using i k1(1) by blast
    then show ?thesis using k1(2) cores(2) k(3) by auto
  qed
  moreover have "heap st' q = None"
  proof -
    have "q \<notin> installed_jobs s1" using cores(3) by (simp add: installed_jobs_def)
    moreover have "q \<noteq> p"
      using slot_job [OF wf_jobsD(1) [OF assms(1)] assms(3)] assms(2) by (auto simp: ready_def)
    ultimately show ?thesis using i cores(3) by auto
  qed
  ultimately show ?thesis using i f(2,4-) assms(3) conflict by (auto simp: installs_def)
qed

lemma job_install_outcome:
  assumes "quiet hk" "wf_jobs P st" "ready st p j"
  shows "\<exists>q st'. job_install (Suc n) hk p st = Some (q, st') \<and> installs st p j q st' \<and>
    wf_jobs (if q = p then P - {p} else P) st'"
proof -
  note r = assms(3) [unfolded ready_def]
  have pn: "p \<notin> installed_jobs st" using ready_not_installed [OF assms(3)] .
  have t: "\<not> JOB_TYPE_MAX_IN_TRANSACTION \<le> job_type_value (j_type j)" using type_in_transaction r by blast
  show ?thesis
  proof (cases "job_slot (j_type j) (units st (j_unit j))")
    case None
    then show ?thesis
      using install_new_outcome [OF assms(2,3) None] r t by (auto simp: job_install_def Let_def)
  next
    case (Some q)
    obtain k where k: "heap st q = Some k" "j_installed k" "j_type k = JOB_NOP \<longleftrightarrow> j_type j = JOB_NOP"
        "j_type k = JOB_NOP \<or> j_type k \<in> merging_types"
      using slot_job [OF wf_jobsD(1) [OF assms(2)] Some] by blast
    have qp: "q \<noteq> p" using k(1,2) r by auto
    obtain c where c: "job_type_is_conflicting (j_type k) (j_type j) = Some c"
      using k(3,4) r by (auto simp: job_type_is_conflicting_def job_type_is_mergeable_eq)
    show ?thesis
    proof (cases c)
      case True
      obtain s1 where s1: "job_finish_and_invalidate (Suc n) hk q JOB_CANCELED False st = Some s1" "wf_jobs P s1" "frame st s1"
          "\<And>t v. job_slot t (units s1 v) = (if job_slot t (units st v) = Some q then None else job_slot t (units st v))"
          "\<And>r. r \<noteq> q \<Longrightarrow> map_option core (heap s1 r) = map_option core (heap st r)"
          "set (run_queue st) - {q} \<subseteq> set (run_queue s1)" "heap s1 q = None"
        by (rule finish_alone [OF assms(1,2) k(1,2), of JOB_CANCELED n]) (simp, blast)
      have "ready s1 p j"
        using r frameD(1) [OF s1(3) pn] frameD(3) [OF s1(3), of "(j_id j, p)"] pn by (simp add: ready_def)
      moreover have "job_slot (j_type j) (units s1 (j_unit j)) = None" using s1(4) Some by simp
      ultimately obtain st' where st': "install_new p s1 = Some (p, st')" "wf_jobs (P - {p}) st'" "installs s1 p j p st'"
        using install_new_outcome [OF s1(2)] by blast
      have "installs st p j p st'" by (rule installs_after [OF assms(2,3) Some s1(3,4) _ s1(5-7) st'(3)]) (use c True k(1) in simp)
      then show ?thesis using st' s1(1) Some k(1) c True r t by (simp add: job_install_def Let_def)
    next
      case False
      obtain st1 st2 where m: "job_merge_into_installed q p st = Some st1" "wf_jobs P st1" "installs st p j q st1"
          "job_set_state q JOB_WAITING st1 = Some st2" "wf_jobs P st2" "installs st p j q st2"
        using install_merge_outcome [OF assms(2,3) Some k(1)] c False by auto
      obtain sup where sup: "job_type_is_superset (j_type k) (j_type j) = Some sup"
        using superset_total [OF k(4)] r by blast
      show ?thesis
        using m sup Some k(1) c False r t qp by (simp add: job_install_def Let_def)
    qed
  qed
qed

end
