(* ===== verification/Transaction_Apply.thy ===== *)
theory Transaction_Apply
  imports Transaction_Order Transaction_Build Job_Install
begin

text \<open>
  Activating a transaction (\<open>src/core/transaction.c\<close>, \<open>transaction_is_destructive\<close>,
  \<open>transaction_apply\<close>, \<open>transaction_activate\<close>) and the requests that build and activate one
  (\<open>src/core/manager.c\<close>, \<open>manager_add_job\<close>, \<open>manager_propagate_reload\<close>).

  The loops of \<open>transaction_activate\<close> restart after a job was deleted; their fuel is one more than
  the number of jobs of the transaction.  \<open>job_shutdown_magic\<close> tells the kernel to flush its caches
  and touches no job.
\<close>

section \<open>Operations\<close>

text \<open>A transaction is merged when it is applied: every unit has one job.\<close>

fun destructive_jobs :: "job_mode \<Rightarrow> sys \<Rightarrow> (unitp \<times> jobp list) list \<Rightarrow> (err + unit) option" where
  "destructive_jobs mode st [] = Some (Inr ())"
| "destructive_jobs mode st ((u, [p]) # es) =
     (let j = job_at st p in
      case u_job (units st (j_unit j)) of
        None \<Rightarrow> destructive_jobs mode st es
      | Some q \<Rightarrow>
          if mode = JOB_FAIL \<or> j_irreversible (job_at st q) then do {
            conflicting \<leftarrow> job_type_is_conflicting (j_type (job_at st q)) (j_type j);
            if conflicting then Some (Inl EDEADLK) else destructive_jobs mode st es
          } else destructive_jobs mode st es)"
| "destructive_jobs mode st (_ # es) = None"

definition transaction_is_destructive :: "job_mode \<Rightarrow> sys \<Rightarrow> (err + unit) option" where
  "transaction_is_destructive mode st = destructive_jobs mode st (tr_jobs st)"

text \<open>
  The installed jobs that are not part of the transaction.  The loop goes over the jobs of the
  manager and skips those that are gone by the time it comes to them.
\<close>

fun cancel_jobs :: "hooks \<Rightarrow> jobp list \<Rightarrow> sys \<Rightarrow> sys option" where
  "cancel_jobs hk [] st = Some st"
| "cancel_jobs hk (p # ps) st =
     (if p \<notin> snd ` set (m_jobs st) then cancel_jobs hk ps st
      else
        let j = job_at st p in
        if \<not> j_installed j then None
        else if u_ignore_on_isolate (units st (j_unit j)) then cancel_jobs hk ps st
        else if tr_get st (j_unit j) \<noteq> [] then cancel_jobs hk ps st
        else do {
          st \<leftarrow> job_finish_and_invalidate 1 hk p JOB_CANCELED False st;
          cancel_jobs hk ps st
        })"

definition hashmap_put :: "u32 \<Rightarrow> jobp \<Rightarrow> (u32 \<times> jobp) list \<Rightarrow> err + (u32 \<times> jobp) list" where
  "hashmap_put k v m =
     (case map_of m k of
        None \<Rightarrow> Inr ((k, v) # m)
      | Some w \<Rightarrow> if w = v then Inr m else Inl EEXIST)"

fun index_jobs :: "(unitp \<times> jobp list) list \<Rightarrow> sys \<Rightarrow> ((err + unit) \<times> sys) option" where
  "index_jobs [] st = Some (Inr (), st)"
| "index_jobs ((u, [p]) # es) st =
     (case hashmap_put (j_id (job_at st p)) p (m_jobs st) of
        Inl e \<Rightarrow> Some (Inl e, st)
      | Inr m \<Rightarrow> index_jobs es (st\<lparr>m_jobs := m\<rparr>))"
| "index_jobs (_ # es) st = None"

definition remove_value :: "jobp \<Rightarrow> sys \<Rightarrow> sys" where
  "remove_value p st = st\<lparr>m_jobs := filter (\<lambda>e. e \<noteq> (j_id (job_at st p), p)) (m_jobs st)\<rparr>"

definition rollback :: "sys \<Rightarrow> sys" where
  "rollback st = fold (\<lambda>(u, js). remove_value (hd js)) (tr_jobs st) st"

text \<open>One job of the transaction, taken out of the table of jobs, is installed and queued.\<close>

definition install_one :: "hooks \<Rightarrow> jobp \<Rightarrow> sys \<Rightarrow> (jobp \<times> sys) option" where
  "install_one hk p st = do {
     let st = transaction_unlink_job False p st;
     (q, st) \<leftarrow> job_install 1 hk p st;
     let st = (if q \<noteq> p
               then let st = (if tr_anchor st = Some p then st\<lparr>tr_anchor := Some q\<rparr> else st)
                    in job_free p (remove_value p st)
               else st);
     st \<leftarrow> job_add_to_run_queue q st;
     st \<leftarrow> job_add_to_dbus_queue q st;
     Some (q, job_start_timer q False st)
   }"

fun install_jobs :: "nat \<Rightarrow> hooks \<Rightarrow> jobp list \<Rightarrow> sys \<Rightarrow> (jobp list \<times> sys) option" where
  "install_jobs n hk affected st =
     (case tr_jobs st of
        [] \<Rightarrow> Some (affected, st)
      | (u, js) # es \<Rightarrow>
          (case n of
             0 \<Rightarrow> None
           | Suc m \<Rightarrow> do {
               (q, st) \<leftarrow> install_one hk (hd js) (st\<lparr>tr_jobs := es\<rparr>);
               install_jobs m hk (List.insert q affected) st
             }))"

declare install_jobs.simps [simp del]

definition transaction_apply :: "hooks \<Rightarrow> job_mode \<Rightarrow> sys \<Rightarrow> ((err + jobp list) \<times> sys) option" where
  "transaction_apply hk mode st = do {
     st \<leftarrow> (if mode \<in> {JOB_ISOLATE, JOB_FLUSH} then cancel_jobs hk (map snd (m_jobs st)) st else Some st);
     (r, st) \<leftarrow> index_jobs (tr_jobs st) st;
     case r of
       Inl e \<Rightarrow> Some (Inl e, rollback st)
     | Inr _ \<Rightarrow> do {
         (affected, st) \<leftarrow> install_jobs (length (tr_jobs st)) hk [] st;
         Some (Inr affected, st)
       }
   }"

definition reset_generations :: "sys \<Rightarrow> sys" where
  "reset_generations st = fold (\<lambda>p. upd_job p (\<lambda>j. j\<lparr>j_generation := 0\<rparr>)) (map snd (m_jobs st)) st"

definition maybe_collect_garbage :: "job_mode \<Rightarrow> sys \<Rightarrow> sys" where
  "maybe_collect_garbage mode st = (if mode \<noteq> JOB_ISOLATE then transaction_collect_garbage st else st)"

fun verify_loop :: "nat \<Rightarrow> job_mode \<Rightarrow> nat \<Rightarrow> sys \<Rightarrow> ((err + unit) \<times> sys) option" where
  "verify_loop 0 mode generation st = None"
| "verify_loop (Suc n) mode generation st = do {
     (r, st) \<leftarrow> transaction_verify_order generation (maybe_collect_garbage mode st);
     case r of
       Inr _ \<Rightarrow> Some (Inr (), st)
     | Inl e \<Rightarrow> if e \<noteq> EAGAIN then Some (Inl e, st) else verify_loop n mode (Suc generation) st
   }"

fun merge_loop :: "nat \<Rightarrow> job_mode \<Rightarrow> sys \<Rightarrow> ((err + unit) \<times> sys) option" where
  "merge_loop 0 mode st = None"
| "merge_loop (Suc n) mode st = do {
     (r, st) \<leftarrow> transaction_merge_jobs st;
     case r of
       Inr _ \<Rightarrow> Some (Inr (), st)
     | Inl e \<Rightarrow> if e \<noteq> EAGAIN then Some (Inl e, st) else merge_loop n mode (maybe_collect_garbage mode st)
   }"

definition transaction_activate :: "hooks \<Rightarrow> job_mode \<Rightarrow> sys \<Rightarrow> ((err + jobp list) \<times> sys) option" where
  "transaction_activate hk mode st = do {
     anchor \<leftarrow> tr_anchor st;
     let st = reset_generations st;
     let st = transaction_find_jobs_that_matter_to_anchor anchor 1 st;
     let st = (if mode = JOB_FAIL then transaction_minimize_impact st else st);
     let st = transaction_drop_redundant st;
     (r, st) \<leftarrow> verify_loop (Suc (job_count st)) mode 2 st;
     case r of
       Inl e \<Rightarrow> Some (Inl e, st)
     | Inr _ \<Rightarrow> do {
         (r, st) \<leftarrow> merge_loop (Suc (job_count st)) mode st;
         case r of
           Inl e \<Rightarrow> Some (Inl e, st)
         | Inr _ \<Rightarrow> do {
             let st = transaction_drop_redundant st;
             r \<leftarrow> transaction_is_destructive mode st;
             case r of
               Inl e \<Rightarrow> Some (Inl e, st)
             | Inr _ \<Rightarrow> do {
                 (r, st) \<leftarrow> transaction_apply hk mode st;
                 if r \<in> range Inr \<and> tr_jobs st \<noteq> [] then None else Some (r, st)
               }
           }
       }
   }"

section \<open>Requests\<close>

text \<open>The label \<open>tr_abort\<close>; \<open>transaction_free\<close> asserts that the transaction is empty.\<close>

definition tr_abort :: "sys \<Rightarrow> sys" where
  "tr_abort st = (transaction_abort st)\<lparr>tr_anchor := None\<rparr>"

definition activate_or_abort :: "hooks \<Rightarrow> job_mode \<Rightarrow> sys \<Rightarrow> ((err + jobp \<times> jobp list) \<times> sys) option" where
  "activate_or_abort hk mode st = do {
     (r, st) \<leftarrow> transaction_activate hk mode st;
     case r of
       Inl e \<Rightarrow> Some (Inl e, tr_abort st)
     | Inr affected \<Rightarrow> do {
         anchor \<leftarrow> tr_anchor st;
         Some (Inr (anchor, affected), st\<lparr>tr_anchor := None\<rparr>)
       }
   }"

definition manager_add_job ::
    "nat \<Rightarrow> loader \<Rightarrow> hooks \<Rightarrow> job_type \<Rightarrow> unitp \<Rightarrow> job_mode \<Rightarrow> sys \<Rightarrow>
     ((err + jobp \<times> jobp list) \<times> sys) option" where
  "manager_add_job n ld hk t u mode st =
     (if mode = JOB_ISOLATE \<and> t \<noteq> JOB_START then Some (Inl EINVAL, st)
      else if mode = JOB_ISOLATE \<and> \<not> u_allow_isolate (units st u) then Some (Inl EPERM, st)
      else if mode = JOB_TRIGGERING \<and> t \<noteq> JOB_STOP then Some (Inl EINVAL, st)
      else do {
        let t = job_type_collapse t (u_active_state (units st u));
        let st = transaction_new (mode = JOB_REPLACE_IRREVERSIBLY) st;
        (r, st) \<leftarrow> transaction_add_job_and_dependencies n ld t u None True False
                     (mode \<in> {JOB_IGNORE_DEPENDENCIES, JOB_IGNORE_REQUIREMENTS})
                     (mode = JOB_IGNORE_DEPENDENCIES) st;
        case r of
          Inl e \<Rightarrow> Some (Inl e, tr_abort st)
        | Inr _ \<Rightarrow> do {
            st \<leftarrow> (if mode = JOB_ISOLATE then transaction_add_isolate_jobs n ld st else Some st);
            st \<leftarrow> (if mode = JOB_TRIGGERING then transaction_add_triggering_jobs n ld u st else Some st);
            activate_or_abort hk mode st
          }
      })"

definition manager_propagate_reload ::
    "nat \<Rightarrow> loader \<Rightarrow> hooks \<Rightarrow> unitp \<Rightarrow> job_mode \<Rightarrow> sys \<Rightarrow> ((err + jobp \<times> jobp list) \<times> sys) option" where
  "manager_propagate_reload n ld hk u mode st =
     (if mode = JOB_ISOLATE then None
      else do {
        let st = transaction_new (mode = JOB_REPLACE_IRREVERSIBLY) st;
        (r, st) \<leftarrow> transaction_add_job_and_dependencies n ld JOB_NOP u None False False True True st;
        case r of
          Inl e \<Rightarrow> Some (Inl e, tr_abort st)
        | Inr _ \<Rightarrow> do {
            anchor \<leftarrow> tr_anchor st;
            (_, st) \<leftarrow> transaction_add_propagate_reload_jobs n ld u anchor (mode = JOB_IGNORE_DEPENDENCIES) st;
            activate_or_abort hk mode st
          }
      })"

section \<open>What cleaning a transaction changes\<close>

definition clean :: "sys \<Rightarrow> bool" where
  "clean st \<longleftrightarrow>
     wf_trans {} st \<and> wf_units st \<and> mergeable_types st \<and> (\<forall>p. heap st p \<noteq> None \<longrightarrow> p < next_job st)"

definition unmarked :: "job \<Rightarrow> job" where
  "unmarked j = j\<lparr>j_marker := None, j_generation := 0\<rparr>"

definition same_request :: "job \<Rightarrow> job \<Rightarrow> bool" where
  "same_request j j' \<longleftrightarrow>
     j_unit j' = j_unit j \<and> j_id j' = j_id j \<and> (j_state j = JOB_WAITING \<longrightarrow> j_state j' = JOB_WAITING) \<and>
     (j_type j' = j_type j \<or> j_type j \<in> merging_types \<and> j_type j' \<in> merging_types \<and>
        (j_type j' = JOB_STOP \<longleftrightarrow> j_type j = JOB_STOP))"

text \<open>
  The passes over a transaction only touch its own jobs, of which some are freed; of the other jobs
  only the marks of the walks may change.
\<close>

definition reduced :: "sys \<Rightarrow> sys \<Rightarrow> bool" where
  "reduced st st' \<longleftrightarrow>
     others st' = others st \<and> tr_set st' \<subseteq> tr_set st \<and>
     (\<forall>p. p \<notin> tr_set st \<longrightarrow> map_option unmarked (heap st' p) = map_option unmarked (heap st p)) \<and>
     (\<forall>p \<in> tr_set st - tr_set st'. heap st' p = None) \<and>
     (\<forall>p \<in> tr_set st'. \<exists>j j'. heap st p = Some j \<and> heap st' p = Some j' \<and> same_request j j')"

lemma othersD:
  assumes "others st' = others st"
  shows "units st' = units st" "next_job st' = next_job st" "m_jobs st' = m_jobs st" "tr_anchor st' = tr_anchor st"
    "run_queue st' = run_queue st" "dbus_job_queue st' = dbus_job_queue st" "gc_job_queue st' = gc_job_queue st"
    "n_running_jobs st' = n_running_jobs st" "n_installed_jobs st' = n_installed_jobs st"
    "unit_list st' = unit_list st" "current_job_id st' = current_job_id st"
  using arg_cong [OF assms, of units] arg_cong [OF assms, of next_job] arg_cong [OF assms, of m_jobs]
    arg_cong [OF assms, of tr_anchor] arg_cong [OF assms, of run_queue] arg_cong [OF assms, of dbus_job_queue]
    arg_cong [OF assms, of gc_job_queue] arg_cong [OF assms, of n_running_jobs]
    arg_cong [OF assms, of n_installed_jobs] arg_cong [OF assms, of unit_list]
    arg_cong [OF assms, of current_job_id]
  by (simp_all add: others_def)

lemma same_request_refl: "same_request j j"
  by (simp add: same_request_def)

lemma same_request_trans: "same_request j k \<Longrightarrow> same_request k l \<Longrightarrow> same_request j l"
  by (auto simp: same_request_def)

lemma reduced_refl:
  assumes "wf_trans {} st"
  shows "reduced st st"
proof -
  have "\<exists>j j'. heap st p = Some j \<and> heap st p = Some j' \<and> same_request j j'" if p: "p \<in> tr_set st" for p
    using tr_set_entry [OF assms p] same_request_refl by metis
  then show ?thesis by (simp add: reduced_def)
qed

lemma reducedD:
  assumes "reduced st st'"
  shows "others st' = others st" "tr_set st' \<subseteq> tr_set st"
    "p \<notin> tr_set st \<Longrightarrow> map_option unmarked (heap st' p) = map_option unmarked (heap st p)"
    "p \<in> tr_set st \<Longrightarrow> p \<notin> tr_set st' \<Longrightarrow> heap st' p = None"
    "p \<in> tr_set st' \<Longrightarrow> \<exists>j j'. heap st p = Some j \<and> heap st' p = Some j' \<and> same_request j j'"
  using assms by (auto simp: reduced_def)

lemma reduced_trans:
  assumes "reduced st s1" "reduced s1 s2"
  shows "reduced st s2"
proof -
  note a = reducedD [OF assms(1)] and b = reducedD [OF assms(2)]
  have "heap s2 p = None" if p: "p \<in> tr_set st" "p \<notin> tr_set s2" for p
  proof (cases "p \<in> tr_set s1")
    case True
    then show ?thesis using b(4) p(2) by blast
  next
    case False
    then have "heap s1 p = None" using a(4) p(1) by blast
    then show ?thesis using b(3) [OF False] by simp
  qed
  moreover have "\<exists>j j'. heap st p = Some j \<and> heap s2 p = Some j' \<and> same_request j j'" if p: "p \<in> tr_set s2" for p
  proof -
    obtain k k' where k: "heap s1 p = Some k" "heap s2 p = Some k'" "same_request k k'" using b(5) [OF p] by blast
    have "p \<in> tr_set s1" using p b(2) by blast
    then obtain j j' where "heap st p = Some j" "heap s1 p = Some j'" "same_request j j'" using a(5) by blast
    with k show ?thesis using same_request_trans by auto
  qed
  moreover have "map_option unmarked (heap s2 p) = map_option unmarked (heap st p)" if p: "p \<notin> tr_set st" for p
  proof -
    have "p \<notin> tr_set s1" using p a(2) by blast
    then show ?thesis using a(3) [OF p] b(3) by simp
  qed
  moreover have "others s2 = others st" "tr_set s2 \<subseteq> tr_set st" using a(1,2) b(1,2) by auto
  ultimately show ?thesis unfolding reduced_def by simp
qed

lemma cleanD:
  assumes "clean st"
  shows "wf_trans {} st" "wf_units st" "mergeable_types st" "heap st p \<noteq> None \<Longrightarrow> p < next_job st"
  using assms by (auto simp: clean_def)

lemma map_unmarked:
  assumes "map_option unmarked x = map_option unmarked (Some j)"
  obtains j' where "x = Some j'" "unmarked j' = unmarked j"
  using assms by (cases x) auto

lemma unmarked_fields:
  assumes "unmarked j' = unmarked j"
  shows "j_unit j' = j_unit j" "j_type j' = j_type j" "j_state j' = j_state j" "j_installed j' = j_installed j"
    "j_id j' = j_id j" "j_in_run_queue j' = j_in_run_queue j" "j_in_dbus_queue j' = j_in_dbus_queue j"
    "j_in_gc_queue j' = j_in_gc_queue j" "j_irreversible j' = j_irreversible j"
    "j_ignore_order j' = j_ignore_order j"
  using arg_cong [OF assms, of j_unit] arg_cong [OF assms, of j_type] arg_cong [OF assms, of j_state]
    arg_cong [OF assms, of j_installed] arg_cong [OF assms, of j_id] arg_cong [OF assms, of j_in_run_queue]
    arg_cong [OF assms, of j_in_dbus_queue] arg_cong [OF assms, of j_in_gc_queue]
    arg_cong [OF assms, of j_irreversible] arg_cong [OF assms, of j_ignore_order]
  by (simp_all add: unmarked_def)

lemma reduced_heap_None:
  assumes "reduced st st'" "heap st p = None"
  shows "heap st' p = None"
  using assms(2) reducedD(3,4,5) [OF assms(1), of p] by (cases "p \<in> tr_set st'"; cases "p \<in> tr_set st") auto

lemma clean_reduced:
  assumes "clean st" "reduced st st'" "wf_trans {} st'" "mergeable_types st'"
  shows "clean st'"
proof -
  note r = reducedD [OF assms(2)] and o = othersD [OF reducedD(1) [OF assms(2)]] and c = cleanD [OF assms(1)]
  have "wf_units st'"
    unfolding wf_units_def o(1)
  proof (intro allI impI)
    fix u q assume u: "u_job (units st u) = Some q"
    obtain j where j: "heap st q = Some j" "j_installed j" "j_unit j = u" "j_type j \<noteq> JOB_NOP"
      using c(2) u by (auto simp: wf_units_def)
    have "q \<notin> tr_set st" using installed_not_in_transaction [OF c(1,2) u] .
    then obtain j' where "heap st' q = Some j'" "unmarked j' = unmarked j"
      using r(3) j(1) map_unmarked by metis
    then show "\<exists>j. heap st' q = Some j \<and> j_installed j \<and> j_unit j = u \<and> j_type j \<noteq> JOB_NOP"
      using j unmarked_fields by metis
  qed
  moreover have "p < next_job st" if "heap st' p \<noteq> None" for p
    using that c(4) [of p] reduced_heap_None [OF assms(2), of p] by (cases "heap st p = None") simp_all
  ultimately show ?thesis using assms(3,4) by (simp add: clean_def o(2))
qed

lemma delete_reduced:
  assumes "clean st" "D \<subseteq> tr_set st"
  shows "reduced st (delete_jobs D st)" "clean (delete_jobs D st)"
proof -
  note c = cleanD [OF assms(1)]
  let ?s = "delete_jobs D st"
  have h: "heap ?s p = (if p \<in> D then None else heap st p)" for p by (simp add: delete_jobs_def restrict_map_def)
  have "\<exists>j j'. heap st p = Some j \<and> heap ?s p = Some j' \<and> same_request j j'" if p: "p \<in> tr_set ?s" for p
  proof -
    have "p \<in> tr_set st" "p \<notin> D" using p by (auto simp: tr_set_delete_jobs)
    then show ?thesis using tr_set_entry [OF c(1)] same_request_refl h by metis
  qed
  then show r: "reduced st ?s"
    using assms(2) h unfolding reduced_def by (auto simp: tr_set_delete_jobs)
  have "mergeable_types ?s"
    unfolding mergeable_types_def
  proof (intro ballI, clarify)
    fix u js p assume e: "(u, js) \<in> set (tr_jobs ?s)" "1 < length js" "p \<in> set js"
    then obtain js' where js': "(u, js') \<in> set (tr_jobs st)" "js = filter (\<lambda>p. p \<notin> D) js'"
      by (auto simp: delete_jobs_def set_drop_jobs)
    have "1 < length js'" using js'(2) e(2) length_filter_le order_less_le_trans by metis
    moreover have "p \<in> set js'" using js'(2) e(3) by simp
    ultimately have "j_type (job_at st p) \<in> merging_types"
      using c(3) js'(1) unfolding mergeable_types_def by blast
    then show "j_type (job_at ?s p) \<in> merging_types" using h e(3) js'(2) by simp
  qed
  then show "clean ?s" using clean_reduced [OF assms(1) r] wf_trans_delete_jobs [OF c(1)] by blast
qed

lemma passes_reduced:
  assumes "clean st"
  shows "\<exists>D \<subseteq> tr_set st. transaction_minimize_impact st = delete_jobs D st"
    "\<exists>D \<subseteq> tr_set st. transaction_drop_redundant st = delete_jobs D st"
    "\<exists>D \<subseteq> tr_set st. maybe_collect_garbage mode st = delete_jobs D st"
    "\<exists>D \<subseteq> tr_set st. transaction_delete_unit u st = delete_jobs D st"
  using impact.delete_while_deletes [OF cleanD(1) [OF assms]] redundant.delete_while_deletes [OF cleanD(1) [OF assms]]
    garbage.delete_while_deletes [OF cleanD(1) [OF assms]] of_unit.delete_while_deletes [OF cleanD(1) [OF assms]]
    delete_jobs_empty [OF cleanD(1) [OF assms]]
  unfolding transaction_minimize_impact_def transaction_drop_redundant_def transaction_collect_garbage_def
    maybe_collect_garbage_def transaction_delete_unit_def
  by (cases "mode = JOB_ISOLATE"; force)+

lemma mark_reduced:
  assumes "clean st" "V \<subseteq> tr_set st"
  shows "reduced st (mark_set g V st)" "clean (mark_set g V st)"
proof -
  note c = cleanD [OF assms(1)]
  let ?s = "mark_set g V st"
  have t: "tr_set ?s = tr_set st" using mark_set_invariant [OF c(1)] by simp
  have h: "heap ?s p = (if p \<in> V then map_option (\<lambda>j. j\<lparr>j_matters_to_anchor := True, j_generation := g\<rparr>) (heap st p)
      else heap st p)" for p by (simp add: mark_set_def)
  have "\<exists>j j'. heap st p = Some j \<and> heap ?s p = Some j' \<and> same_request j j'" if p: "p \<in> tr_set st" for p
  proof -
    obtain j where "heap st p = Some j" using tr_set_entry [OF c(1) p] .
    then show ?thesis using h [of p] by (auto simp: same_request_def)
  qed
  then show r: "reduced st ?s"
    using assms(2) h unfolding reduced_def t by (auto simp: others_def mark_set_def)
  have "j_type (job_at ?s p) = j_type (job_at st p)" if p: "p \<in> tr_set st" for p
  proof -
    obtain j where "heap st p = Some j" using tr_set_entry [OF c(1) p] .
    then show ?thesis using h [of p] by simp
  qed
  then have "mergeable_types ?s"
    using c(3) unfolding mergeable_types_def mark_set_views tr_set_def by fastforce
  then show "clean ?s" using clean_reduced [OF assms(1) r] mark_set_invariant [OF c(1)] by blast
qed

lemma erase_reduced:
  assumes "clean st" "erase st' = erase st"
  shows "reduced st st'" "clean st'"
proof -
  note c = cleanD [OF assms(1)] and e = same_eraseD [OF assms(2)]
  have h: "map_option unmarked (heap st' p) = map_option unmarked (heap st p)" for p
    using arg_cong [OF assms(2), of heap] by (simp add: erase_def unmarked_def [abs_def] fun_eq_iff)
  have o: "others st' = others st"
    using arg_cong [OF assms(2), of others] by (simp add: others_def erase_def)
  have t: "tr_set st' = tr_set st" by (simp add: tr_set_def e(1))
  have j: "\<exists>j j'. heap st p = Some j \<and> heap st' p = Some j' \<and> unmarked j' = unmarked j" if p: "p \<in> tr_set st" for p
  proof -
    obtain j where "heap st p = Some j" using tr_set_entry [OF c(1) p] .
    then show ?thesis using h [of p] map_unmarked by metis
  qed
  have "\<exists>j j'. heap st p = Some j \<and> heap st' p = Some j' \<and> same_request j j'" if p: "p \<in> tr_set st" for p
    using j [OF p] unmarked_fields unfolding same_request_def by metis
  then show r: "reduced st st'" unfolding reduced_def t using h o by simp
  have "j_type (job_at st' p) = j_type (job_at st p)" if p: "p \<in> tr_set st" for p
    using j [OF p] unmarked_fields by (metis option.sel)
  then have "mergeable_types st'"
    using c(3) unfolding mergeable_types_def e(1) tr_set_def by fastforce
  moreover have "wf_trans {} st'" using c(1) wf_trans_erase assms(2) by metis
  ultimately show "clean st'" using clean_reduced [OF assms(1) r] by blast
qed

section \<open>Verifying the order\<close>

definition gens_below :: "nat \<Rightarrow> sys \<Rightarrow> bool" where
  "gens_below g st \<longleftrightarrow> (\<forall>p j. heap st p = Some j \<longrightarrow> j_generation j < g)"

lemma gens_delete: "gens_below g st \<Longrightarrow> gens_below g (delete_jobs D st)"
  by (auto simp: gens_below_def delete_jobs_def restrict_map_def)

lemma gens_upd:
  "gens_below g st \<Longrightarrow> (\<And>j. heap st p = Some j \<Longrightarrow> j_generation (f j) < g) \<Longrightarrow> gens_below g (upd_job p f st)"
  by (auto simp: gens_below_def)

lemma walk_gens:
  "verify_order_one n p from g st = Some (r, st') \<Longrightarrow> clean st \<Longrightarrow> gens_below (Suc g) st \<Longrightarrow>
     gens_below (Suc g) st' \<and> (r = Inr () \<longrightarrow> erase st' = erase st)"
  "verify_successors n qs p g st = Some (r, st') \<Longrightarrow> clean st \<Longrightarrow> gens_below (Suc g) st \<Longrightarrow>
     gens_below (Suc g) st' \<and> (r = Inr () \<longrightarrow> erase st' = erase st)"
proof (induction n p "from" g st and n qs p g st arbitrary: r st' and r st' rule: verify_order_one_verify_successors.induct)
  case (2 n p "from" g st)
  show ?case
  proof (cases "j_generation (job_at st p) = g")
    case True
    then show ?thesis
      using "2.prems" passes_reduced(4) [OF "2.prems"(2)] gens_delete
      by (auto simp: break_cycle_def split: if_splits option.splits) metis
  next
    case False
    let ?s = "enter_job p from g st"
    have e: "erase ?s = erase st" unfolding enter_job_def by (rule erase_upd) simp
    have s: "clean ?s" "gens_below (Suc g) ?s"
      using erase_reduced(2) [OF "2.prems"(2) e] gens_upd [OF "2.prems"(3)] by (simp_all add: enter_job_def)
    obtain r' s' where v: "verify_successors n (order_successors ?s p) p g ?s = Some (r', s')"
      using "2.prems"(1) False by (auto simp: Let_def split: option.splits)
    note ih = "2.IH" [OF False refl v s]
    show ?thesis
    proof (cases r')
      case (Inr x)
      have "gens_below (Suc g) (leave_job p s')" "erase (leave_job p s') = erase s'"
        using ih unfolding leave_job_def by (auto intro!: gens_upd erase_upd simp: gens_below_def)
      then show ?thesis using "2.prems"(1) False v Inr ih e by (simp add: Let_def)
    next
      case (Inl x)
      then show ?thesis using "2.prems"(1) False v ih by (auto simp: Let_def)
    qed
  qed
next
  case (4 n q qs p g st)
  obtain r1 s1 where v: "verify_order_one n q (Some p) g st = Some (r1, s1)"
    using "4.prems"(1) by (auto split: option.splits)
  note ih = "4.IH"(1) [OF v "4.prems"(2,3)]
  show ?case
  proof (cases r1)
    case (Inr x)
    have "clean s1" using erase_reduced(2) [OF "4.prems"(2)] ih Inr by simp
    then show ?thesis using "4.IH"(2) [OF v] "4.prems"(1) v Inr ih by simp
  next
    case (Inl x)
    then show ?thesis using "4.prems"(1) v ih by simp
  qed
qed simp_all

lemma heads_gens:
  "verify_heads n ps g st = Some (r, st') \<Longrightarrow> clean st \<Longrightarrow> gens_below (Suc g) st \<Longrightarrow> gens_below (Suc g) st'"
proof (induction ps arbitrary: st)
  case (Cons p ps)
  obtain r1 s1 where v: "verify_order_one n p None g st = Some (r1, s1)"
    using Cons.prems(1) by (auto split: option.splits)
  note w = walk_gens(1) [OF v Cons.prems(2,3)]
  show ?case
  proof (cases r1)
    case (Inr x)
    have "clean s1" using erase_reduced(2) [OF Cons.prems(2)] w Inr by simp
    then show ?thesis using Cons.IH [of s1] Cons.prems(1) v Inr w by simp
  qed (use Cons.prems(1) v w in simp)
qed simp

lemma gens_mono: "gens_below g st \<Longrightarrow> gens_below (Suc g) st"
  by (auto simp: gens_below_def less_Suc_eq)

lemma unit_emptied:
  assumes "wf_trans {} st" "D \<subseteq> tr_set st" "st' = delete_jobs D st" "tr_get st u \<noteq> []" "tr_get st' u = []"
  shows "tr_set st' \<noteq> tr_set st"
proof
  assume t: "tr_set st' = tr_set st"
  obtain p where p: "p \<in> set (tr_get st u)" using assms(4) by (cases "tr_get st u") auto
  then obtain js where js: "(u, js) \<in> set (tr_jobs st)" "p \<in> set js" using tr_get_conv [OF assms(1)] by blast
  obtain j where j: "heap st p = Some j" "j_unit j = u" "p \<in> tr_set st" using same_unit [OF assms(1) js] by blast
  have "wf_trans {} st'" using wf_trans_delete_jobs [OF assms(1)] assms(3) by simp
  moreover have "p \<in> tr_set st'" using j(3) t by simp
  ultimately obtain k where "heap st' p = Some k" "p \<in> set (tr_get st' (j_unit k))" by (rule tr_set_job)
  moreover have "heap st' p = heap st p"
  proof -
    have "p \<notin> D" using j(3) t unfolding assms(3) tr_set_delete_jobs by blast
    then show ?thesis by (simp add: assms(3) delete_jobs_def)
  qed
  ultimately show False using j assms(5) by simp
qed

section \<open>The anchor stays\<close>

definition needed :: "sys \<Rightarrow> jobp set" where
  "needed st = {p. \<exists>a. tr_anchor st = Some a \<and> (a, p) \<in> (needs st)\<^sup>*}"

text \<open>The anchor is in the transaction, and it and all it needs carry the mark.\<close>

definition has_anchor :: "sys \<Rightarrow> bool" where
  "has_anchor st \<longleftrightarrow> (\<exists>a \<in> tr_set st. tr_anchor st = Some a)"

definition anchored :: "sys \<Rightarrow> bool" where
  "anchored st \<longleftrightarrow> has_anchor st \<and> (\<forall>p \<in> needed st. j_matters_to_anchor (job_at st p))"

lemma needed_closed: "needs st `` needed st \<subseteq> needed st"
  by (auto simp: needed_def intro: rtrancl_into_rtrancl)

lemma anchor_needed: "tr_anchor st = Some a \<Longrightarrow> a \<in> needed st"
  by (simp add: needed_def)

lemma anchored_delete:
  assumes "anchored st" "tr_anchor st \<notin> Some ` D"
  shows "anchored (delete_jobs D st)"
proof -
  obtain a where a: "a \<in> tr_set st" "tr_anchor st = Some a" using assms(1) by (auto simp: anchored_def has_anchor_def)
  have aD: "a \<notin> D" using assms(2) a(2) by auto
  have n: "p \<notin> D \<and> (a, p) \<in> (needs st)\<^sup>*" if "(a, p) \<in> (needs (delete_jobs D st))\<^sup>*" for p
    using that
  proof (induction rule: rtrancl_induct)
    case (step y z)
    then show ?case by (auto simp: needs_delete_jobs intro: rtrancl_into_rtrancl)
  qed (simp add: aD)
  have "j_matters_to_anchor (job_at (delete_jobs D st) p)" if "p \<in> needed (delete_jobs D st)" for p
  proof -
    have "p \<notin> D" "p \<in> needed st" using n that a(2) by (auto simp: needed_def)
    then show ?thesis using assms(1) by (simp add: anchored_def delete_jobs_def)
  qed
  then show ?thesis using a aD by (auto simp: anchored_def has_anchor_def tr_set_delete_jobs)
qed

lemma anchored_spared:
  assumes "anchored st" "D \<inter> needed st = {}"
  shows "anchored (delete_jobs D st)"
proof (rule anchored_delete [OF assms(1)])
  show "tr_anchor st \<notin> Some ` D" using assms(2) anchor_needed [of st] by auto
qed

lemma anchored_erase:
  assumes "anchored st" "erase st' = erase st"
  shows "anchored st'"
proof -
  have v: "tr_anchor st' = tr_anchor st" "tr_set st' = tr_set st" "needs st' = needs st"
    using assms(2) by (metis erase_fields(4), metis tr_set_erase, metis needs_erase)
  have "j_matters_to_anchor (job_at st' p) = j_matters_to_anchor (job_at st p)" if "p \<in> needed st" for p
  proof -
    have "map_option (\<lambda>j. j\<lparr>j_marker := None, j_generation := 0\<rparr>) (heap st' p) =
        map_option (\<lambda>j. j\<lparr>j_marker := None, j_generation := 0\<rparr>) (heap st p)"
      using fun_cong [OF arg_cong [OF assms(2), of heap], of p] by (simp add: erase_def)
    from arg_cong [OF this, of "map_option j_matters_to_anchor"] show ?thesis
      by (cases "heap st p"; cases "heap st' p") auto
  qed
  then show ?thesis using assms(1) v by (simp add: anchored_def has_anchor_def needed_def)
qed

lemma minimize_impact_anchored:
  assumes "clean st" "anchored st"
  shows "anchored (transaction_minimize_impact st)"
proof -
  have "p \<notin> needed st" if "D \<inter> needed st = {}" "pick_impact (delete_jobs D st) = Some p" for D p
  proof
    assume p: "p \<in> needed st"
    then have "p \<notin> D" using that(1) by blast
    then have "job_at (delete_jobs D st) p = job_at st p" by (simp add: delete_jobs_def)
    moreover have "\<not> j_matters_to_anchor (job_at (delete_jobs D st) p)"
      using that(2) unfolding pick_impact_def by (blast dest: find_SomeD)
    ultimately show False using p assms(2) by (simp add: anchored_def)
  qed
  then obtain D where "transaction_minimize_impact st = delete_jobs D st" "D \<inter> needed st = {}"
    unfolding transaction_minimize_impact_def
    using impact.delete_while_spares [OF cleanD(1) [OF assms(1)] needed_closed] by blast
  then show ?thesis using anchored_spared [OF assms(2)] by simp
qed

lemma drop_redundant_keeps_anchor:
  assumes "clean st" "a \<in> tr_set st" "tr_anchor st = Some a"
  shows "\<exists>D \<subseteq> tr_set st. transaction_drop_redundant st = delete_jobs D st \<and> a \<notin> D"
proof -
  let ?I = "\<lambda>s. \<exists>D \<subseteq> tr_set st. s = delete_jobs D st \<and> a \<notin> D"
  note w = cleanD(1) [OF assms(1)]
  have "wf_trans {} (transaction_drop_redundant st) \<and> ?I (transaction_drop_redundant st)"
    unfolding transaction_drop_redundant_def
  proof (rule redundant.delete_while_induct [OF w])
    show "?I st" using delete_jobs_empty [OF w] by force
  next
    fix s p assume s: "wf_trans {} s" "?I s" "pick_redundant s = Some p"
    then obtain D where D: "D \<subseteq> tr_set st" "s = delete_jobs D st" "a \<notin> D" by blast
    have "keep_job s a" using assms(3) D(2) by (simp add: keep_job_def Let_def)
    moreover obtain u ps where "(u, p # ps) \<in> set (tr_jobs s)" "\<not> list_ex (keep_job s) (p # ps)"
      using s(3) by (auto simp: pick_redundant_def split: option.splits list.splits dest!: find_SomeD)
    ultimately have "p \<noteq> a" by auto
    moreover have "p \<in> tr_set st" using redundant.pick_in [OF s(1,3)] D(2) by (simp add: tr_set_delete_jobs)
    ultimately show "?I (delete_jobs (deleted_by False p s) s)"
      using D by (intro exI [of _ "insert p D"]) (simp add: deleted_by_def delete_jobs_delete_jobs)
  qed
  then show ?thesis by blast
qed

lemma drop_redundant_has_anchor:
  assumes "clean st" "has_anchor st"
  shows "has_anchor (transaction_drop_redundant st)"
proof -
  obtain a where a: "a \<in> tr_set st" "tr_anchor st = Some a" using assms(2) by (auto simp: has_anchor_def)
  obtain D where "transaction_drop_redundant st = delete_jobs D st" "a \<notin> D"
    using drop_redundant_keeps_anchor [OF assms(1) a] by blast
  then show ?thesis using a by (simp add: has_anchor_def tr_set_delete_jobs)
qed

lemma drop_redundant_anchored:
  assumes "clean st" "anchored st"
  shows "anchored (transaction_drop_redundant st)"
proof -
  obtain a where a: "a \<in> tr_set st" "tr_anchor st = Some a" using assms(2) by (auto simp: anchored_def has_anchor_def)
  obtain D where "transaction_drop_redundant st = delete_jobs D st" "a \<notin> D"
    using drop_redundant_keeps_anchor [OF assms(1) a] by blast
  then show ?thesis using anchored_delete [OF assms(2), of D] a(2) by auto
qed

lemma collect_garbage_anchored:
  assumes "clean st" "anchored st"
  shows "anchored (maybe_collect_garbage mode st)"
  using collect_garbage_deletes [OF cleanD(1) [OF assms(1)]] anchored_delete [OF assms(2)] assms(2)
  by (auto simp: maybe_collect_garbage_def)

lemma delete_unit_anchored:
  assumes "clean st" "anchored st" "\<And>p. p \<in> set (tr_get st u) \<Longrightarrow> \<not> j_matters_to_anchor (job_at st p)"
  shows "anchored (transaction_delete_unit u st)"
proof -
  have "set (tr_get st u) \<inter> needed st = {}" using assms(2,3) by (auto simp: anchored_def has_anchor_def)
  then obtain D where "transaction_delete_unit u st = delete_jobs D st" "D \<inter> needed st = {}"
    using delete_unit_spares [OF cleanD(1) [OF assms(1)] needed_closed] by blast
  then show ?thesis using anchored_spared [OF assms(2)] by simp
qed

lemma delete_needers_anchored:
  assumes "anchored st" "\<not> j_matters_to_anchor (job_at st d)"
  shows "anchored (delete_jobs (needers st d) st)"
proof (rule anchored_delete [OF assms(1)])
  show "tr_anchor st \<notin> Some ` needers st d"
    using assms by (auto simp: needers_def anchored_def has_anchor_def needed_def)
qed

text \<open>
  The reasons to refuse a transaction: jobs that cannot be dropped wait for themselves, two jobs of
  a unit that cannot be dropped exclude each other, or a job that may not be replaced is in the way.
\<close>

definition needed_cycle :: "sys \<Rightarrow> bool" where
  "needed_cycle st \<longleftrightarrow>
     (\<exists>ks. ks \<noteq> [] \<and> (\<forall>k \<in> set ks. (k, k) \<in> (job_order st)\<^sup>+ \<and>
        (tr_get st (j_unit (job_at st k)) = [] \<or> unit_matters_to_anchor st k)))"

definition needed_conflict :: "sys \<Rightarrow> bool" where
  "needed_conflict st \<longleftrightarrow>
     (\<exists>(u, js) \<in> set (tr_jobs st). \<exists>p \<in> set js. \<exists>k \<in> set js.
        j_matters_to_anchor (job_at st p) \<and> j_matters_to_anchor (job_at st k) \<and>
        job_type_is_mergeable (j_type (job_at st p)) (j_type (job_at st k)) = Some False)"

definition destroys :: "job_mode \<Rightarrow> sys \<Rightarrow> bool" where
  "destroys mode st \<longleftrightarrow>
     (\<exists>p \<in> tr_set st. \<exists>q. u_job (units st (j_unit (job_at st p))) = Some q \<and>
        (mode = JOB_FAIL \<or> j_irreversible (job_at st q)) \<and>
        job_type_is_conflicting (j_type (job_at st q)) (j_type (job_at st p)) = Some True)"

definition obstacle :: "job_mode \<Rightarrow> sys \<Rightarrow> bool" where
  "obstacle mode st \<longleftrightarrow> needed_cycle st \<or> needed_conflict st \<or> destroys mode st"

lemma verify_order_outcome:
  assumes "clean st" "gens_below g st"
  shows "\<exists>r st'. transaction_verify_order g st = Some (r, st') \<and> clean st' \<and> reduced st st' \<and>
    gens_below (Suc g) st' \<and> (r = Inl EAGAIN \<longrightarrow> tr_set st' \<subset> tr_set st) \<and> (anchored st \<longrightarrow> anchored st') \<and>
    (\<forall>e. r = Inl e \<longrightarrow> e \<noteq> EAGAIN \<longrightarrow> e = EDEADLK \<and> needed_cycle st')"
proof -
  note c = cleanD [OF assms(1)]
  have "fresh_walk g st"
    using c assms(2) by (force simp: fresh_walk_def gens_below_def)
  note res = verify_order_result [OF this, unfolded walk_result_def]
  then obtain r st' where v: "transaction_verify_order g st = Some (r, st')" by blast
  have g: "gens_below (Suc g) st'"
    using heads_gens [OF v [unfolded transaction_verify_order_def] assms(1) gens_mono [OF assms(2)]] .
  have "clean st' \<and> reduced st st' \<and> (r = Inl EAGAIN \<longrightarrow> tr_set st' \<subset> tr_set st) \<and> (anchored st \<longrightarrow> anchored st') \<and>
    (\<forall>e. r = Inl e \<longrightarrow> e \<noteq> EAGAIN \<longrightarrow> e = EDEADLK \<and> needed_cycle st')"
  proof (cases r)
    case (Inr x)
    then have "erase st' = erase st" using res v by (auto simp: walk_post_def)
    then show ?thesis using erase_reduced [OF assms(1)] anchored_erase Inr by simp
  next
    case (Inl e)
    then obtain st1 ks where f: "erase st1 = erase st" "\<forall>k \<in> set ks. (k, k) \<in> (job_order st)\<^sup>+"
      "e = EAGAIN \<and> (\<exists>d \<in> set ks. tr_get st (j_unit (job_at st d)) \<noteq> [] \<and>
             \<not> unit_matters_to_anchor st d \<and> st' = transaction_delete_unit (j_unit (job_at st d)) st1) \<or>
         e = EDEADLK \<and> st' = st1 \<and> (\<forall>d \<in> set ks. tr_get st (j_unit (job_at st d)) = [] \<or> unit_matters_to_anchor st d)"
      "ks \<noteq> []"
      using res v by (auto simp: walk_fail_def)
    note c1 = erase_reduced [OF assms(1) f(1)]
    show ?thesis
    proof (cases "e = EAGAIN")
      case True
      then obtain d where d: "d \<in> set ks" "tr_get st (j_unit (job_at st d)) \<noteq> []" "\<not> unit_matters_to_anchor st d"
          "st' = transaction_delete_unit (j_unit (job_at st d)) st1"
        using f(3) by auto
      define u where "u = j_unit (job_at st1 d)"
      have u: "tr_get st u \<noteq> []" "st' = transaction_delete_unit u st1"
        using d(2,4) same_eraseD(9) [OF f(1)] by (simp_all add: u_def)
      have "\<not> j_matters_to_anchor (job_at st1 p)" if "p \<in> set (tr_get st1 u)" for p
        using unit_not_mattering [OF cleanD(1,2) [OF c1(2)], of d p] f(2) d(1,3) that
        unfolding u_def same_eraseD(7,8) [OF f(1)] by blast
      then have an: "anchored st \<Longrightarrow> anchored st'"
        using delete_unit_anchored [OF c1(2) anchored_erase [OF _ f(1)]] u(2) by blast
      obtain D where D: "D \<subseteq> tr_set st1" "st' = delete_jobs D st1"
        using passes_reduced(4) [OF c1(2), of u] u(2) by auto
      have "tr_get st' u = []" using delete_unit_empties [OF cleanD(1) [OF c1(2)]] u(2) by simp
      moreover have "tr_get st1 u \<noteq> []" using u(1) same_eraseD(5) [OF f(1)] by simp
      ultimately have "tr_set st' \<noteq> tr_set st1"
        using unit_emptied [OF cleanD(1) [OF c1(2)] D] by blast
      moreover have "tr_set st1 = tr_set st" using same_eraseD(1) [OF f(1)] by (simp add: tr_set_def)
      ultimately show ?thesis
        using delete_reduced [OF c1(2) D(1)] D(2) reduced_trans [OF c1(1)] an True Inl by (auto simp: tr_set_delete_jobs)
    next
      case False
      then have f': "e = EDEADLK" "st' = st1" "\<forall>d \<in> set ks. tr_get st (j_unit (job_at st d)) = [] \<or> unit_matters_to_anchor st d"
        using f(3) by auto
      have "needed_cycle st1"
        unfolding needed_cycle_def same_eraseD(5,7,8,9) [OF f(1)] using f(2,4) f'(3) by blast
      then show ?thesis using f' c1 Inl anchored_erase [OF _ f(1)] by auto
    qed
  qed
  then show ?thesis using v g by blast
qed

lemma maybe_collect_garbage_clean:
  assumes "clean st"
  shows "clean (maybe_collect_garbage mode st)" "reduced st (maybe_collect_garbage mode st)"
    "gens_below g st \<Longrightarrow> gens_below g (maybe_collect_garbage mode st)"
    "tr_set (maybe_collect_garbage mode st) \<subseteq> tr_set st"
proof -
  obtain D where D: "D \<subseteq> tr_set st" "maybe_collect_garbage mode st = delete_jobs D st"
    using passes_reduced(3) [OF assms] by blast
  then show "clean (maybe_collect_garbage mode st)" "reduced st (maybe_collect_garbage mode st)"
    "gens_below g st \<Longrightarrow> gens_below g (maybe_collect_garbage mode st)"
    "tr_set (maybe_collect_garbage mode st) \<subseteq> tr_set st"
    using delete_reduced [OF assms D(1)] gens_delete by (auto simp: tr_set_delete_jobs)
qed

lemma verify_loop_outcome:
  assumes "clean st" "gens_below g st" "card (tr_set st) < n"
  shows "\<exists>r st'. verify_loop n mode g st = Some (r, st') \<and> clean st' \<and> reduced st st' \<and> (anchored st \<longrightarrow> anchored st') \<and>
    (\<forall>e. r = Inl e \<longrightarrow> e = EDEADLK \<and> needed_cycle st')"
  using assms
proof (induction n arbitrary: g st)
  case (Suc n)
  let ?s = "maybe_collect_garbage mode st"
  note m = maybe_collect_garbage_clean [OF Suc.prems(1), where mode = mode]
  obtain r s' where v: "transaction_verify_order g ?s = Some (r, s')" "clean s'" "reduced ?s s'"
      "gens_below (Suc g) s'" "r = Inl EAGAIN \<longrightarrow> tr_set s' \<subset> tr_set ?s" "anchored ?s \<longrightarrow> anchored s'"
      "\<forall>e. r = Inl e \<longrightarrow> e \<noteq> EAGAIN \<longrightarrow> e = EDEADLK \<and> needed_cycle s'"
    using verify_order_outcome [OF m(1) m(3) [OF Suc.prems(2)]] by blast
  have an: "anchored st \<Longrightarrow> anchored s'" using v(6) collect_garbage_anchored [OF Suc.prems(1)] by blast
  have red: "reduced st s'" using reduced_trans [OF m(2) v(3)] .
  show ?case
  proof (cases "r = Inl EAGAIN")
    case True
    have "tr_set s' \<subset> tr_set st" using v(5) True m(4) by blast
    then have "card (tr_set s') < card (tr_set st)" by (simp add: finite_tr_set psubset_card_mono)
    then have "card (tr_set s') < n" using Suc.prems(3) by simp
    from Suc.IH [OF v(2,4) this] obtain r2 s2 where
      "verify_loop n mode (Suc g) s' = Some (r2, s2)" "clean s2" "reduced s' s2" "anchored s' \<longrightarrow> anchored s2"
      "\<forall>e. r2 = Inl e \<longrightarrow> e = EDEADLK \<and> needed_cycle s2"
      by blast
    then show ?thesis using v(1) True reduced_trans [OF red] an by auto
  next
    case False
    then show ?thesis using v(1,2,7) red an by (cases r) auto
  qed
qed simp

section \<open>Merging\<close>

lemma merge_types_merging:
  "t \<in> merging_types \<Longrightarrow> set ks \<subseteq> merging_types \<Longrightarrow> merge_types s t ks = Some (Inr r) \<Longrightarrow>
    r \<in> merging_types \<and> (r = JOB_STOP \<longleftrightarrow> t = JOB_STOP) \<and> (\<forall>k \<in> set ks. k = JOB_STOP \<longleftrightarrow> t = JOB_STOP)"
proof (induction ks arbitrary: t)
  case (Cons k ks)
  have k: "k \<in> merging_types" using Cons.prems(2) by simp
  obtain t' where t': "job_type_merge_and_collapse t k s = Some (Inr t')" "merge_types s t' ks = Some (Inr r)"
    using Cons.prems(3) by (auto split: option.splits sum.splits)
  then have "t' \<in> merging_types" "(t' = JOB_STOP) = (t = JOB_STOP)" "(k = JOB_STOP) = (t = JOB_STOP)"
    using merge_and_collapse_outcome [OF Cons.prems(1) k, of s] by simp_all
  then show ?case using Cons.IH [OF _ _ t'(2)] Cons.prems(2) by simp
qed simp

lemma unit_merge_merging:
  assumes "\<forall>q \<in> set js. j_type (job_at st q) \<in> merging_types" "unit_merge st js = Some (Inr t)" "js \<noteq> []"
  shows "t \<in> merging_types \<and> (\<forall>q \<in> set js. t = JOB_STOP \<longleftrightarrow> j_type (job_at st q) = JOB_STOP)"
  using assms merge_types_merging [of "j_type (job_at st (hd js))" "map (\<lambda>k. j_type (job_at st k)) (tl js)"]
  by (cases js) (auto simp: unit_merge_def)

lemma merge_reduced:
  assumes "clean st" "transaction_merge_jobs st = Some (Inr r, st')"
  shows "reduced st st'" "clean st'" "\<And>u js. (u, js) \<in> set (tr_jobs st') \<Longrightarrow> length js = 1"
    "has_anchor st \<Longrightarrow> has_anchor st'"
proof -
  note c = cleanD [OF assms(1)]
  have f: "first_conflict st (tr_jobs st) = Some None"
    using assms(2) by (auto simp: transaction_merge_jobs_def split: option.splits sum.splits prod.splits)
  then have "\<exists>t. unit_merge st (snd e) = Some (Inr t)" if "e \<in> set (tr_jobs st)" for e
    using that by (simp add: first_conflict_None_iff)
  then obtain s where s: "merge_units (map fst (tr_jobs st)) st = Some s" "merged_units [] (tr_jobs st) st s"
    using merge_units_merged [OF c(1), of "[]" "tr_jobs st"] by auto
  then have "s = st'" using assms(2) f by (simp add: transaction_merge_jobs_def)
  note m = s(2) [unfolded merged_units_def \<open>s = st'\<close>]
  let ?sv = "\<lambda>js. survivor (tr_anchor st) js"
  have entry: "js \<noteq> []" "\<And>p. p \<in> set js \<Longrightarrow> p \<in> tr_set st" if "(u, js) \<in> set (tr_jobs st)" for u js
    using wf_transD(2) [OF c(1) that] that by (auto simp: tr_entry_ok_def tr_set_def)
  have ts: "tr_set st' = {?sv js | u js. (u, js) \<in> set (tr_jobs st)}"
    using m by (auto simp: tr_set_def) force+
  have me: "merged_entry st st' (u, js)" if "(u, js) \<in> set (tr_jobs st)" for u js using m that by blast
  have sub: "tr_set st' \<subseteq> tr_set st" using ts entry survivor_in by fastforce
  have out: "heap st' p = heap st p" if "p \<notin> tr_set st" for p
    using m that by (force simp: tr_set_def)
  have gone: "heap st' p = None" if p: "p \<in> tr_set st" "p \<notin> tr_set st'" for p
  proof -
    obtain u js where e: "(u, js) \<in> set (tr_jobs st)" "p \<in> set js" using p(1) by (auto simp: tr_set_def)
    have "p \<noteq> ?sv js" using p(2) ts e(1) by blast
    then show ?thesis using me [OF e(1)] e(2) by (auto simp: merged_entry_def)
  qed
  have kept: "\<exists>j j'. heap st p = Some j \<and> heap st' p = Some j' \<and> same_request j j'" if p: "p \<in> tr_set st'" for p
  proof -
    obtain u js where e: "(u, js) \<in> set (tr_jobs st)" "p = ?sv js" using p ts by blast
    obtain j where j: "heap st p = Some j" "j_unit j = u"
      using same_unit [OF c(1) e(1)] survivor_in [OF entry(1) [OF e(1)]] e(2) by metis
    obtain t j' where j': "unit_merge st js = Some (Inr t)" "heap st' p = Some j'" "j_type j' = t" "j_unit j' = u"
      "j_state j = JOB_WAITING \<longrightarrow> j_state j' = JOB_WAITING" "j_id j' = j_id j"
      using me [OF e(1)] e(2) j(1) by (auto simp: merged_entry_def)
    have "t = j_type j \<or> j_type j \<in> merging_types \<and> t \<in> merging_types \<and> (t = JOB_STOP \<longleftrightarrow> j_type j = JOB_STOP)"
    proof (cases "length js > 1")
      case True
      then have "\<forall>q \<in> set js. j_type (job_at st q) \<in> merging_types"
        using c(3) e(1) unfolding mergeable_types_def by blast
      moreover have "p \<in> set js" using survivor_in [OF entry(1) [OF e(1)]] e(2) by simp
      ultimately show ?thesis using unit_merge_merging [OF _ j'(1) entry(1) [OF e(1)]] j(1) by auto
    next
      case False
      then obtain q where "js = [q]" using entry(1) [OF e(1)] by (cases js) auto
      then have "p = q" using e(2) survivor_in [of js] by simp
      then show ?thesis using j'(1) j(1) \<open>js = [q]\<close> by (simp add: unit_merge_singleton)
    qed
    then show ?thesis using j j' by (auto simp: same_request_def)
  qed
  show r: "reduced st st'"
    unfolding reduced_def using sub out gone kept m by simp
  show one: "length js = 1" if "(u, js) \<in> set (tr_jobs st')" for u js
    using m that by auto
  then have "mergeable_types st'" by (force simp: mergeable_types_def)
  then show "clean st'" using clean_reduced [OF assms(1) r] m by blast
  show "has_anchor st'" if h: "has_anchor st"
  proof -
    obtain a where a: "a \<in> tr_set st" "tr_anchor st = Some a" using h by (auto simp: has_anchor_def)
    then obtain u js where "(u, js) \<in> set (tr_jobs st)" "a \<in> set js" by (auto simp: tr_set_def)
    then have "a \<in> tr_set st'" unfolding ts using a(2) by (force simp: survivor_def)
    then show ?thesis using a(2) othersD(4) [OF reducedD(1) [OF r]] by (auto simp: has_anchor_def)
  qed
qed

lemma needers_in_transaction:
  assumes "wf_trans {} st" "d \<in> tr_set st"
  shows "needers st d \<subseteq> tr_set st"
proof
  fix k assume "k \<in> needers st d"
  then have "(k, d) \<in> (needs st)\<^sup>*" by (simp add: needers_def)
  then show "k \<in> tr_set st"
    using assms(2) wf_transD(4) [OF assms(1)]
    by (induction rule: converse_rtrancl_induct) (force simp: needs_def wf_links_def)+
qed

lemma merge_loop_outcome:
  assumes "clean st" "card (tr_set st) < n"
  shows "\<exists>r st'. merge_loop n mode st = Some (r, st') \<and> clean st' \<and> reduced st st' \<and>
    (r = Inr () \<longrightarrow> (\<forall>(u, js) \<in> set (tr_jobs st'). length js = 1) \<and> (anchored st \<longrightarrow> has_anchor st')) \<and>
    (\<forall>e. r = Inl e \<longrightarrow> e = EDEADLK \<and> needed_conflict st')"
  using assms
proof (induction n arbitrary: st)
  case (Suc n)
  note c = cleanD [OF Suc.prems(1)]
  obtain r s where m: "transaction_merge_jobs st = Some (r, s)"
      "\<And>e. r = Inl e \<Longrightarrow> e = EAGAIN \<and> (\<exists>d \<in> tr_set st. \<not> j_matters_to_anchor (job_at st d) \<and> s = delete_jobs (needers st d) st) \<or>
        e = EDEADLK \<and> s = st \<and> needed_conflict st"
    using merge_jobs_outcome [OF c(1,3)] unfolding needed_conflict_def by blast
  show ?case
  proof (cases r)
    case (Inr x)
    then show ?thesis using merge_reduced [OF Suc.prems(1)] m(1) by (auto simp: anchored_def)
  next
    case (Inl e)
    show ?thesis
    proof (cases "e = EAGAIN")
      case False
      then show ?thesis using m(2) [OF Inl] m(1) Inl Suc.prems(1) reduced_refl [OF c(1)] by auto
    next
      case True
      then obtain d where d: "d \<in> tr_set st" "s = delete_jobs (needers st d) st" "\<not> j_matters_to_anchor (job_at st d)"
        using m(2) [OF Inl] by auto
      have an: "anchored (maybe_collect_garbage mode s)" if "anchored st"
        using collect_garbage_anchored [OF delete_reduced(2) [OF Suc.prems(1) needers_in_transaction [OF c(1) d(1)]]
            delete_needers_anchored [OF that d(3)]] d(2) by simp
      note D = delete_reduced [OF Suc.prems(1) needers_in_transaction [OF c(1) d(1)], folded d(2)]
      note g = maybe_collect_garbage_clean [OF D(2), where mode = mode]
      have "tr_set s \<subset> tr_set st"
        using d needers_refl [of d st] by (auto simp: tr_set_delete_jobs)
      then have "tr_set (maybe_collect_garbage mode s) \<subset> tr_set st" using g(4) by blast
      then have "card (tr_set (maybe_collect_garbage mode s)) < card (tr_set st)"
        by (simp add: finite_tr_set psubset_card_mono)
      then have "card (tr_set (maybe_collect_garbage mode s)) < n" using Suc.prems(2) by simp
      from Suc.IH [OF g(1) this] obtain r2 s2 where
        i: "merge_loop n mode (maybe_collect_garbage mode s) = Some (r2, s2)" "clean s2"
          "reduced (maybe_collect_garbage mode s) s2" "r2 = Inr () \<longrightarrow> (\<forall>(u, js) \<in> set (tr_jobs s2). length js = 1) \<and>
            (anchored (maybe_collect_garbage mode s) \<longrightarrow> has_anchor s2)"
          "\<forall>e. r2 = Inl e \<longrightarrow> e = EDEADLK \<and> needed_conflict s2"
        by blast
      have "reduced st s2" using reduced_trans [OF reduced_trans [OF D(1) g(2)] i(3)] .
      then show ?thesis using m(1) Inl True i an by simp
    qed
  qed
qed simp

section \<open>Up to the point of no return\<close>

definition singles :: "sys \<Rightarrow> bool" where
  "singles st \<longleftrightarrow> (\<forall>(u, js) \<in> set (tr_jobs st). length js = 1)"

text \<open>Every job belongs to the transaction or is in the manager's table.\<close>

definition known :: "sys \<Rightarrow> bool" where
  "known st \<longleftrightarrow> (\<forall>p j. heap st p = Some j \<longrightarrow> p \<in> snd ` set (m_jobs st) \<or> p \<in> tr_set st \<and> j_generation j = 0)"

lemma reset_fold:
  "heap (fold (\<lambda>p. upd_job p (\<lambda>j. j\<lparr>j_generation := 0\<rparr>)) ps st) q =
     (if q \<in> set ps then map_option (\<lambda>j. j\<lparr>j_generation := 0\<rparr>) (heap st q) else heap st q)"
  "erase (fold (\<lambda>p. upd_job p (\<lambda>j. j\<lparr>j_generation := 0\<rparr>)) ps st) = erase st"
proof (induction ps arbitrary: st)
  case (Cons p ps)
  {
    case 1
    then show ?case using Cons(1) [of "upd_job p (\<lambda>j. j\<lparr>j_generation := 0\<rparr>) st"] by (cases "heap st q") auto
  next
    case 2
    then show ?case
      using Cons(2) [of "upd_job p (\<lambda>j. j\<lparr>j_generation := 0\<rparr>) st"] by (simp add: erase_upd)
  }
qed simp_all

lemma reset_generations_outcome:
  assumes "clean st" "known st"
  shows "clean (reset_generations st)" "reduced st (reset_generations st)" "gens_below 1 (reset_generations st)"
    "tr_jobs (reset_generations st) = tr_jobs st" "tr_anchor (reset_generations st) = tr_anchor st"
proof -
  have e: "erase (reset_generations st) = erase st" by (simp add: reset_generations_def reset_fold(2))
  then show "clean (reset_generations st)" "reduced st (reset_generations st)"
    using erase_reduced [OF assms(1)] by blast+
  show "tr_jobs (reset_generations st) = tr_jobs st" using same_eraseD(1) [OF e] .
  show "tr_anchor (reset_generations st) = tr_anchor st"
    using othersD(4) [OF reducedD(1) [OF erase_reduced(1) [OF assms(1) e]]] .
  have "heap (reset_generations st) q = (if q \<in> snd ` set (m_jobs st)
      then map_option (\<lambda>j. j\<lparr>j_generation := 0\<rparr>) (heap st q) else heap st q)" for q
    by (simp add: reset_generations_def reset_fold(1))
  then show "gens_below 1 (reset_generations st)"
    using assms(2) by (force simp: gens_below_def known_def split: if_splits)
qed

lemma find_outcome:
  assumes "clean st" "gens_below 1 st" "a \<in> tr_set st"
  defines "s \<equiv> transaction_find_jobs_that_matter_to_anchor a 1 st"
  shows "clean s" "reduced st s" "gens_below 2 s" "tr_anchor st = Some a \<Longrightarrow> anchored s"
proof -
  note w = cleanD(1) [OF assms(1)]
  have "j_generation (job_at st p) \<noteq> 1" if p: "p \<in> tr_set st" for p
  proof -
    obtain j where "heap st p = Some j" using tr_set_entry [OF w p] .
    then show ?thesis using assms(2) by (auto simp: gens_below_def)
  qed
  then have s: "s = mark_set 1 ((needs st)\<^sup>* `` {a}) st"
    unfolding s_def using find_jobs_that_matter_eq [OF w _ assms(3)] by blast
  have step: "c \<in> tr_set st" if "(b, c) \<in> needs st" for b c
    using that wf_transD(4) [OF w] by (auto simp: needs_def wf_links_def)
  have "b \<in> tr_set st" if "(a, b) \<in> (needs st)\<^sup>*" for b
    using that by (induction rule: rtrancl_induct) (use assms(3) step in auto)
  then have sub: "(needs st)\<^sup>* `` {a} \<subseteq> tr_set st" by blast
  show "anchored s" if anc: "tr_anchor st = Some a"
  proof -
    have n: "needs s = needs st" "tr_set s = tr_set st" "tr_anchor s = tr_anchor st"
      by (simp_all add: s mark_set_def needs_def tr_set_def)
    have "j_matters_to_anchor (job_at s p)" if p: "(a, p) \<in> (needs st)\<^sup>*" for p
    proof -
      have "p \<in> tr_set st" using p sub by blast
      then obtain j where "heap st p = Some j" using tr_set_entry [OF w] by metis
      then show ?thesis using p by (simp add: s mark_set_def)
    qed
    then show ?thesis using anc assms(3) by (simp add: anchored_def has_anchor_def needed_def n)
  qed
  from sub show "clean s" "reduced st s" unfolding s using mark_reduced [OF assms(1)] by blast+
  have "j_generation j < 2" if h: "heap s p = Some j" for p j
  proof (cases "(a, p) \<in> (needs st)\<^sup>*")
    case True
    then show ?thesis using h by (auto simp: s mark_set_def)
  next
    case False
    then have "heap st p = Some j" using h by (simp add: s mark_set_def)
    then show ?thesis using assms(2) by (fastforce simp: gens_below_def)
  qed
  then show "gens_below 2 s" by (simp add: gens_below_def)
qed

lemma conflicting_total:
  assumes "a \<in> merging_types" "b = JOB_NOP \<or> b \<in> merging_types"
  shows "job_type_is_conflicting a b \<noteq> None"
  using assms by (auto simp: job_type_is_conflicting_def job_type_is_mergeable_eq)

definition good_types :: "sys \<Rightarrow> bool" where
  "good_types st \<longleftrightarrow>
     (\<forall>p \<in> tr_set st. j_type (job_at st p) = JOB_NOP \<or> j_type (job_at st p) \<in> merging_types) \<and>
     (\<forall>u q. u_job (units st u) = Some q \<longrightarrow> j_type (job_at st q) \<in> merging_types)"

lemma destructive_total:
  assumes "\<forall>(u, js) \<in> set es. length js = 1 \<and> (\<forall>p \<in> set js. j_type (job_at st p) = JOB_NOP \<or> j_type (job_at st p) \<in> merging_types)"
    and "\<forall>u q. u_job (units st u) = Some q \<longrightarrow> j_type (job_at st q) \<in> merging_types"
  shows "destructive_jobs mode st es \<noteq> None"
  using assms
proof (induction es)
  case (Cons e es)
  obtain u p where e: "e = (u, [p])" using Cons.prems(1) by (cases e) (auto simp: length_Suc_conv)
  have "destructive_jobs mode st es \<noteq> None" using Cons by simp
  moreover have "job_type_is_conflicting (j_type (job_at st q)) (j_type (job_at st p)) \<noteq> None"
    if "u_job (units st (j_unit (job_at st p))) = Some q" for q
    using conflicting_total Cons.prems that e by auto
  ultimately show ?case by (auto simp: e Let_def split: option.splits)
qed simp

lemma destructive_refused:
  "destructive_jobs mode st es = Some (Inl e) \<Longrightarrow>
    e = EDEADLK \<and> (\<exists>(u, js) \<in> set es. \<exists>p \<in> set js. \<exists>q. u_job (units st (j_unit (job_at st p))) = Some q \<and>
      (mode = JOB_FAIL \<or> j_irreversible (job_at st q)) \<and>
      job_type_is_conflicting (j_type (job_at st q)) (j_type (job_at st p)) = Some True)"
proof (induction es)
  case (Cons x es)
  let ?bad = "\<lambda>p. \<exists>q. u_job (units st (j_unit (job_at st p))) = Some q \<and> (mode = JOB_FAIL \<or> j_irreversible (job_at st q)) \<and>
    job_type_is_conflicting (j_type (job_at st q)) (j_type (job_at st p)) = Some True"
  obtain u js where x: "x = (u, js)" by (cases x)
  then obtain p where js: "js = [p]" using Cons.prems by (cases js rule: remdups_adj.cases) auto
  have "e = EDEADLK \<and> ?bad p \<or> destructive_jobs mode st es = Some (Inl e)"
    using Cons.prems by (auto simp: x js Let_def split: option.splits if_splits Option.bind_splits)
  then show ?case
  proof
    assume "destructive_jobs mode st es = Some (Inl e)"
    from Cons.IH [OF this] show ?thesis by auto
  qed (auto simp: x js)
qed simp

lemma destroysI:
  assumes "transaction_is_destructive mode st = Some (Inl e)"
  shows "e = EDEADLK" "destroys mode st"
proof -
  note d = destructive_refused [OF assms [unfolded transaction_is_destructive_def]]
  then obtain u js p q where r: "(u, js) \<in> set (tr_jobs st)" "p \<in> set js" "u_job (units st (j_unit (job_at st p))) = Some q"
      "mode = JOB_FAIL \<or> j_irreversible (job_at st q)"
      "job_type_is_conflicting (j_type (job_at st q)) (j_type (job_at st p)) = Some True"
    by blast
  show "e = EDEADLK" using d by blast
  show "destroys mode st" using r(3-5) tr_setI [OF r(1,2)] unfolding destroys_def by blast
qed

lemma good_types_reduced:
  assumes "clean st" "good_types st" "reduced st st'"
  shows "good_types st'"
proof -
  note c = cleanD [OF assms(1)] and r = reducedD [OF assms(3)]
  have "j_type (job_at st' p) = JOB_NOP \<or> j_type (job_at st' p) \<in> merging_types" if p: "p \<in> tr_set st'" for p
  proof -
    obtain j j' where j: "heap st p = Some j" "heap st' p = Some j'" "same_request j j'" using r(5) [OF p] by blast
    have "p \<in> tr_set st" using p r(2) by blast
    then have "j_type (job_at st p) = JOB_NOP \<or> j_type (job_at st p) \<in> merging_types"
      using assms(2) by (simp add: good_types_def)
    then show ?thesis using j by (auto simp: same_request_def)
  qed
  moreover have "j_type (job_at st' q) \<in> merging_types" if u: "u_job (units st u) = Some q" for u q
  proof -
    obtain j where j: "heap st q = Some j" using c(2) u by (auto simp: wf_units_def)
    have "map_option unmarked (heap st' q) = map_option unmarked (Some j)"
      using r(3) [OF installed_not_in_transaction [OF c(1,2) u]] j by simp
    then obtain j' where k: "heap st' q = Some j'" "unmarked j' = unmarked j" by (rule map_unmarked)
    have "j_type (job_at st q) \<in> merging_types" using assms(2) u by (auto simp: good_types_def)
    then show ?thesis using j k(1) unmarked_fields(2) [OF k(2)] by simp
  qed
  ultimately show ?thesis by (simp add: good_types_def othersD(1) [OF r(1)])
qed

lemma singles_delete: "singles st \<Longrightarrow> singles (delete_jobs D st)"
proof -
  assume s: "singles st"
  have "length js = 1" if e: "(u, js) \<in> set (tr_jobs (delete_jobs D st))" for u js
  proof -
    obtain ks where k: "(u, ks) \<in> set (tr_jobs st)" "js = filter (\<lambda>p. p \<notin> D) ks" "js \<noteq> []"
      using e unfolding tr_jobs_delete_jobs set_drop_jobs by blast
    then have "length ks = 1" using s by (auto simp: singles_def)
    then show ?thesis using k(2,3) by (cases ks) auto
  qed
  then show "singles (delete_jobs D st)" by (auto simp: singles_def)
qed

lemma card_le_job_count: "card (tr_set st) < Suc (job_count st)"
  using card_tr_set_le [of st] by simp

lemma prepare_outcome:
  fixes mode :: job_mode
  assumes "clean st" "known st" "a \<in> tr_set st" "tr_anchor st = Some a"
  defines "s1 \<equiv> transaction_find_jobs_that_matter_to_anchor a 1 (reset_generations st)"
  defines "s3 \<equiv> transaction_drop_redundant (if mode = JOB_FAIL then transaction_minimize_impact s1 else s1)"
  shows "clean s3" "reduced st s3" "gens_below 2 s3" "anchored s3"
proof -
  note s0 = reset_generations_outcome [OF assms(1,2)]
  have "a \<in> tr_set (reset_generations st)" using assms(3) s0(4) by (simp add: tr_set_def)
  note s1 = find_outcome [OF s0(1,3) this, folded s1_def]
  define s2 where "s2 = (if mode = JOB_FAIL then transaction_minimize_impact s1 else s1)"
  have "tr_anchor (reset_generations st) = Some a" using assms(4) othersD(4) [OF reducedD(1) [OF s0(2)]] by simp
  note a1 = s1(4) [OF this]
  have s2: "clean s2" "reduced s1 s2" "gens_below 2 s2"
    using passes_reduced(1) [OF s1(1)] delete_reduced [OF s1(1)] s1 gens_delete reduced_refl [OF cleanD(1) [OF s1(1)]]
    by (auto simp: s2_def)
  have s3: "clean s3" "reduced s2 s3" "gens_below 2 s3"
    using passes_reduced(2) [OF s2(1)] delete_reduced [OF s2(1)] gens_delete [OF s2(3)]
    by (auto simp: s3_def simp flip: s2_def)
  have "anchored s2" using minimize_impact_anchored [OF s1(1) a1] a1 by (simp add: s2_def)
  then show "anchored s3" using drop_redundant_anchored [OF s2(1)] by (simp add: s3_def s2_def)
  show "clean s3" "gens_below 2 s3" "reduced st s3"
    using s3 reduced_trans [OF reduced_trans [OF reduced_trans [OF s0(2) s1(2)] s2(2)] s3(2)] by auto
qed

lemma activate_outcome:
  assumes "clean st" "known st" "good_types st" "tr_anchor st = Some a" "a \<in> tr_set st"
  obtains (refused) st' where "transaction_activate hk mode st = Some (Inl EDEADLK, st')" "clean st'" "reduced st st'"
      "obstacle mode st'"
  | (applied) st' where "clean st'" "reduced st st'" "singles st'" "good_types st'" "has_anchor st'"
      "transaction_is_destructive mode st' = Some (Inr ())"
      "transaction_activate hk mode st = do {
         (r, s) \<leftarrow> transaction_apply hk mode st';
         if r \<in> range Inr \<and> tr_jobs s \<noteq> [] then None else Some (r, s)
       }"
proof -
  define s3 where "s3 = transaction_drop_redundant
    (if mode = JOB_FAIL
     then transaction_minimize_impact (transaction_find_jobs_that_matter_to_anchor a 1 (reset_generations st))
     else transaction_find_jobs_that_matter_to_anchor a 1 (reset_generations st))"
  note s3 = prepare_outcome [OF assms(1,2,5,4), of mode, folded s3_def]
  note conv = transaction_activate_def [of hk mode st, unfolded assms(4) Let_def Option.bind.simps, folded s3_def]
  obtain r s4 where s4: "verify_loop (Suc (job_count s3)) mode 2 s3 = Some (r, s4)" "clean s4" "reduced s3 s4" "anchored s4"
      "\<And>e. r = Inl e \<Longrightarrow> e = EDEADLK \<and> needed_cycle s4"
    using verify_loop_outcome [OF s3(1,3) card_le_job_count] s3(4) by blast
  note r4 = reduced_trans [OF s3(2) s4(3)]
  show ?thesis
  proof (cases r)
    case (Inl e)
    then show ?thesis using refused [of s4] s4 r4 by (simp add: obstacle_def conv Let_def del: verify_loop.simps merge_loop.simps)
  next
    case v: (Inr x)
    obtain r' s5 where s5: "merge_loop (Suc (job_count s4)) mode s4 = Some (r', s5)" "clean s5" "reduced s4 s5"
        "r' = Inr () \<Longrightarrow> singles s5 \<and> has_anchor s5" "\<And>e. r' = Inl e \<Longrightarrow> e = EDEADLK \<and> needed_conflict s5"
      using merge_loop_outcome [OF s4(2) card_le_job_count, of mode] s4(4) unfolding singles_def by blast
    note r5 = reduced_trans [OF r4 s5(3)]
    show ?thesis
    proof (cases r')
      case (Inl e)
      then show ?thesis using refused [of s5] s4 s5 v r5 by (simp add: obstacle_def conv Let_def del: verify_loop.simps merge_loop.simps)
    next
      case m: (Inr y)
      let ?s6 = "transaction_drop_redundant s5"
      obtain D where D: "D \<subseteq> tr_set s5" "?s6 = delete_jobs D s5" using passes_reduced(2) [OF s5(2)] by blast
      have s6: "clean ?s6" "singles ?s6" and r6: "reduced st ?s6"
        using delete_reduced [OF s5(2) D(1)] D(2) singles_delete s5(4) m reduced_trans [OF r5] by simp_all
      have h6: "has_anchor ?s6" using drop_redundant_has_anchor [OF s5(2)] s5(4) m by simp
      note g6 = good_types_reduced [OF assms(1,3) r6]
      have "\<forall>(u, js) \<in> set (tr_jobs ?s6). length js = 1 \<and> (\<forall>p \<in> set js. j_type (job_at ?s6 p) = JOB_NOP \<or>
          j_type (job_at ?s6 p) \<in> merging_types)"
        using s6(2) g6 by (fastforce simp: singles_def good_types_def tr_set_def)
      then obtain d where d: "transaction_is_destructive mode ?s6 = Some d"
        using destructive_total [of "tr_jobs ?s6" ?s6 mode] g6
        by (auto simp: transaction_is_destructive_def good_types_def)
      show ?thesis
      proof (cases d)
        case (Inl e)
        then show ?thesis
          using refused [of ?s6] s4 s5 s6 v m r6 d destroysI [of mode ?s6 e] by (simp add: obstacle_def conv Let_def del: verify_loop.simps merge_loop.simps)
      next
        case (Inr z)
        then show ?thesis
          using applied [of ?s6] s4 s5 s6 g6 h6 v m r6 d by (simp add: conv Let_def del: verify_loop.simps merge_loop.simps)
      qed
    qed
  qed
qed

end
