(* ===== verification/Transaction_Commit.thy ===== *)
theory Transaction_Commit
  imports Transaction_Apply
begin

text \<open>
  The second half of \<open>transaction_activate\<close>: \<open>transaction_apply\<close> of \<open>src/core/transaction.c\<close> on a
  transaction that has been cleaned, merged and found not destructive.  Its jobs are entered in the
  table of jobs and installed one by one; the invariant of the installed jobs holds all along.
\<close>

section \<open>One job\<close>

text \<open>The transaction is in the table of jobs, and its jobs can be installed.\<close>

definition staged :: "sys \<Rightarrow> bool" where
  "staged st \<longleftrightarrow>
     wf_trans {} st \<and> singles st \<and> wf_jobs (tr_set st) st \<and> (\<forall>p \<in> tr_set st. \<exists>j. ready st p j) \<and>
     (\<forall>p j. heap st p = Some j \<longrightarrow> j_installed j \<or> p \<in> tr_set st)"

text \<open>The job \<open>q\<close> of the unit is installed, queued, and does what a job of type \<open>t\<close> asks for.\<close>

definition settled :: "sys \<Rightarrow> unitp \<Rightarrow> job_type \<Rightarrow> jobp \<Rightarrow> bool" where
  "settled st u t q \<longleftrightarrow>
     job_slot t (units st u) = Some q \<and> q \<in> set (run_queue st) \<and>
     (\<exists>k. heap st q = Some k \<and> j_installed k \<and> j_unit k = u \<and> job_type_is_conflicting (j_type k) t = Some False)"

lemma core_eqD:
  assumes "core j = core k"
  shows "j_unit j = j_unit k" "j_type j = j_type k" "j_installed j = j_installed k" "j_id j = j_id k"
  using arg_cong [OF assms, of j_unit] arg_cong [OF assms, of j_type] arg_cong [OF assms, of j_installed]
    arg_cong [OF assms, of j_id]
  by (simp_all add: core_fields)

lemma free_unindexed:
  assumes "wf_jobs P st" "heap st p = Some j" "\<not> j_installed j"
    "\<not> j_in_run_queue j" "\<not> j_in_dbus_queue j" "\<not> j_in_gc_queue j"
  defines "s \<equiv> job_free p (remove_value p st)"
  shows "wf_jobs (P - {p}) s" "heap s = (heap st)(p := None)" "units s = units st" "run_queue s = run_queue st"
    "m_jobs s = filter (\<lambda>e. e \<noteq> (j_id j, p)) (m_jobs st)" "links s = links st" "tr_jobs s = tr_jobs st"
    "tr_anchor s = tr_anchor st" "next_job s = next_job st"
proof -
  note w = wf_jobsD [OF assms(1)]
  have v: "heap s = (heap st)(p := None)" "units s = units st" "run_queue s = run_queue st"
    "m_jobs s = filter (\<lambda>e. e \<noteq> (j_id j, p)) (m_jobs st)" "links s = links st" "tr_jobs s = tr_jobs st"
    "tr_anchor s = tr_anchor st" "next_job s = next_job st" "dbus_job_queue s = dbus_job_queue st"
    "gc_job_queue s = gc_job_queue st" "n_running_jobs s = n_running_jobs st"
    using job_free_eq [of "remove_value p st" p j] assms(2-6) by (simp_all add: s_def remove_value_def)
  then show "heap s = (heap st)(p := None)" "units s = units st" "run_queue s = run_queue st"
    "m_jobs s = filter (\<lambda>e. e \<noteq> (j_id j, p)) (m_jobs st)" "links s = links st" "tr_jobs s = tr_jobs st"
    "tr_anchor s = tr_anchor st" "next_job s = next_job st"
    by blast+
  have i: "installed_jobs s = installed_jobs st" "running_jobs s = running_jobs st"
    using assms(2,3) by (auto simp: installed_jobs_def running_jobs_def v(1))
  have id: "i = j_id j" if "(i, p) \<in> set (m_jobs st)" for i
    using that w(6) assms(2) by (force simp: index_ok_def)
  have ne: "job_slot t (units st u) \<noteq> Some p" for t u using slot_job [OF w(1), of t u p] assms(2,3) by auto
  have "slots_ok s"
    using w(1) ne [of JOB_START] ne [of JOB_NOP] assms(2,3) unfolding slots_ok_def v(1,2)
    by (auto simp: job_slot_def split: if_splits)
  moreover have "queue_ok qu flag s" if "queue_ok qu flag st" "qu s = qu st" "\<not> flag j" for qu and flag :: "job \<Rightarrow> bool"
    using that assms(2) unfolding queue_ok_def that(2) v(1) by (auto split: if_splits)
  moreover have "index_ok (P - {p}) s"
    unfolding index_ok_def
  proof (intro conjI allI impI)
    show "distinct (map fst (m_jobs s))" using w(6) by (simp add: index_ok_def v(4) distinct_map_filter)
  next
    fix a r assume e: "(a, r) \<in> set (m_jobs s)"
    then have o: "(a, r) \<in> set (m_jobs st)" "r \<noteq> p" using id by (auto simp: v(4))
    have "r \<in> installed_jobs st \<union> P" "j_id (job_at st r) = a" using o(1) w(6) unfolding index_ok_def by blast+
    then show "r \<in> installed_jobs s \<union> (P - {p})" "j_id (job_at s r) = a" using o(2) i(1) v(1) by auto
  next
    fix r k assume "heap s r = Some k" "j_installed k"
    then have "heap st r = Some k" "r \<noteq> p" using v(1) by (auto split: if_splits)
    then show "(j_id k, r) \<in> set (m_jobs s)" using w(6) \<open>j_installed k\<close> by (auto simp: index_ok_def v(4))
  qed
  ultimately show "wf_jobs (P - {p}) s"
    using w assms(4-6) by (simp add: wf_jobs_def count_ok_def i v)
qed

lemma start_timer_outcome:
  assumes "wf_jobs P st" "heap st q = Some k" "j_installed k"
  defines "s \<equiv> job_start_timer q False st"
  shows "wf_jobs P s" "same_core st s" "frame st s" "run_queue s = run_queue st"
proof -
  let ?f = "\<lambda>j. j\<lparr>j_begin_usec := now_usec st\<rparr>"
  define s1 where "s1 = upd_job q ?f st"
  let ?g = "\<lambda>j. j\<lparr>j_timer := Some (usec_add (j_begin_usec j) (u_job_timeout (unit_of s1 q)))\<rparr>"
  define s2 where "s2 = upd_job q ?g s1"
  have s1: "wf_jobs P s1" "same_core st s1" "frame st s1" "heap s1 q = Some (?f k)" "run_queue s1 = run_queue st"
    using wf_jobs_upd [OF assms(1,2), of ?f] same_core_upd [OF assms(2), of ?f] frame_upd [OF assms(2,3), of ?f] assms(2,3)
    by (simp_all add: harmless_def core_def s1_def)
  have s2: "wf_jobs P s2" "same_core s1 s2" "frame s1 s2" "run_queue s2 = run_queue st"
    using wf_jobs_upd [OF s1(1,4), of ?g] same_core_upd [OF s1(4), of ?g] frame_upd [OF s1(4), of ?g] assms(3) s1(5)
    by (simp_all add: harmless_def core_def s2_def)
  have "s = (if j_timer (job_at st q) \<noteq> None then st
      else if u_job_timeout (unit_of s1 q) = USEC_INFINITY then s1 else s2)"
    by (simp only: s_def job_start_timer_def Let_def if_False s1_def s2_def)
  then have "s = st \<or> s = s1 \<or> s = s2" by presburger
  then show "wf_jobs P s" "same_core st s" "frame st s" "run_queue s = run_queue st"
    using assms(1) s1 s2 same_core_trans [OF s1(2) s2(2)] frame_trans [OF s1(3) s2(3)] same_core_refl frame_refl
    by auto
qed

lemma queue_installed:
  assumes "wf_jobs P st" "heap st q = Some k" "j_installed k"
  shows "\<exists>st'. (do {
       st \<leftarrow> job_add_to_run_queue q st;
       st \<leftarrow> job_add_to_dbus_queue q st;
       Some (q, job_start_timer q False st)
     }) = Some (q, st') \<and> wf_jobs P st' \<and> same_core st st' \<and> frame st st' \<and>
    insert q (set (run_queue st)) \<subseteq> set (run_queue st')"
proof -
  obtain s1 where s1: "job_add_to_run_queue q st = Some s1" "wf_jobs P s1" "same_core st s1"
    using job_add_to_run_queue_wf [OF assms] by blast
  obtain k1 where k1: "heap s1 q = Some k1" "j_installed k1" using same_core_job [OF s1(3) assms(2)] assms(3) by metis
  obtain s2 where s2: "job_add_to_dbus_queue q s1 = Some s2" "wf_jobs P s2" "same_core s1 s2"
    using job_add_to_dbus_queue_wf [OF s1(2) k1] by blast
  obtain k2 where k2: "heap s2 q = Some k2" "j_installed k2" using same_core_job [OF s2(3) k1(1)] k1(2) by metis
  note t = start_timer_outcome [OF s2(2) k2]
  have "frame st (job_start_timer q False s2)"
    using frame_trans [OF frame_trans [OF frame_run_queue [OF assms(2,3) s1(1)] frame_dbus_queue [OF k1 s2(1)]] t(3)] .
  moreover have "same_core st (job_start_timer q False s2)"
    using same_core_trans [OF same_core_trans [OF s1(3) s2(3)] t(2)] .
  moreover have "insert q (set (run_queue st)) \<subseteq> set (run_queue (job_start_timer q False s2))"
    using run_queue_grows(1) [OF s1(1)] run_queue_grows(2) [OF s1(1) wf_jobsD(2) [OF assms(1)] assms(2)]
    by (simp add: t(4) run_queue_grows(3) [OF s2(1)])
  ultimately show ?thesis using s1(1) s2(1) t(1) by simp
qed

lemma first_entry:
  assumes "wf_trans {} st" "singles st" "tr_jobs st = (u, js) # es"
  shows "\<exists>p j. js = [p] \<and> heap st p = Some j \<and> j_unit j = u \<and> p \<notin> (\<Union>(v, ks) \<in> set es. set ks) \<and> u \<notin> fst ` set es"
proof -
  obtain p where p: "js = [p]" using assms(2,3) by (cases js) (auto simp: singles_def)
  have "tr_entry_ok st (u, [p])" using wf_transD(2) [OF assms(1)] assms(3) p by simp
  then obtain j where j: "heap st p = Some j" "j_unit j = u" by (auto simp: tr_entry_ok_def)
  have u: "u \<notin> fst ` set es" using wf_transD(1) [OF assms(1)] assms(3) by simp
  have "p \<notin> set ks" if "(v, ks) \<in> set es" for v ks
  proof
    assume "p \<in> set ks"
    moreover have "tr_entry_ok st (v, ks)" using wf_transD(2) [OF assms(1)] assms(3) that by simp
    ultimately have "v = u" using j by (auto simp: tr_entry_ok_def)
    then show False using u that by force
  qed
  then show ?thesis using p j u by blast
qed

lemma subject_not: "(\<forall>s. x = Some s \<longrightarrow> s \<notin> {p}) \<longleftrightarrow> x \<noteq> Some p"
  by auto

lemma unlink_first:
  assumes "wf_trans {} st" "singles st" "tr_jobs st = (u, [p]) # es"
  defines "s \<equiv> st\<lparr>tr_jobs := es, links := drop_links {p} (links st)\<rparr>"
  shows "transaction_unlink_job False p (st\<lparr>tr_jobs := es\<rparr>) = s" "tr_set s = tr_set st - {p}"
    "wf_trans {} s" "singles s"
proof -
  obtain j where j: "heap st p = Some j" "j_unit j = u" "p \<notin> (\<Union>(v, ks) \<in> set es. set ks)" "u \<notin> fst ` set es"
    using first_entry [OF assms(1-3)] by auto
  have "map_of es u = None" using j(4) by (simp add: map_of_eq_None_iff)
  then have n: "tr_get (st\<lparr>tr_jobs := es\<rparr>) u = []" by (simp add: tr_get_def)
  show "transaction_unlink_job False p (st\<lparr>tr_jobs := es\<rparr>) = s"
    using n j(1,2) unfolding s_def drop_links_def subject_not
    by (simp add: transaction_unlink_job_def free_object_links_False tr_remove_job_def Let_def
        free_subject_links_def without_object_def conj_commute)
  show t: "tr_set s = tr_set st - {p}" using j(3) assms(3) by (auto simp: tr_set_def s_def)
  have "tr_entry_ok s e" if "e \<in> set es" for e
    using wf_transD(2) [OF assms(1), of e] assms(3) that by (simp add: tr_entry_ok_def s_def)
  moreover have "wf_links {} s"
    using wf_transD(4) [OF assms(1)] unfolding wf_links_def t by (auto simp: s_def drop_links_def)
  ultimately show "wf_trans {} s" using wf_transD(1) [OF assms(1)] assms(3) by (simp add: wf_trans_def s_def)
  show "singles s" using assms(2,3) by (simp add: singles_def s_def)
qed

lemma wf_jobs_transaction [simp]:
  "wf_jobs P (st\<lparr>tr_jobs := es, links := ls\<rparr>) = wf_jobs P st" "wf_jobs P (st\<lparr>tr_anchor := a\<rparr>) = wf_jobs P st"
  by (simp_all add: wf_jobs_def slots_ok_def queue_ok_def count_ok_def index_ok_def installed_jobs_def running_jobs_def)

lemma wf_trans_agree:
  assumes "wf_trans {} st" "tr_jobs s = tr_jobs st" "links s = links st" "\<And>r. r \<in> tr_set st \<Longrightarrow> heap s r = heap st r"
  shows "wf_trans {} s"
proof -
  have t: "tr_set s = tr_set st" by (simp add: tr_set_def assms(2))
  have "tr_entry_ok s e" if e: "e \<in> set (tr_jobs st)" for e
  proof -
    have "r \<in> tr_set st" if "r \<in> set (snd e)" for r using tr_setI [of "fst e" "snd e"] e that by simp
    then show ?thesis using wf_transD(2) [OF assms(1) e] assms(4) by (simp add: tr_entry_ok_def)
  qed
  then show ?thesis
    using wf_transD(1,4) [OF assms(1)] by (simp add: wf_trans_def wf_links_def t assms(2,3))
qed

lemma settled_mono:
  assumes "settled st u t q" "job_slot t (units st' u) = job_slot t (units st u)"
    and "map_option core (heap st' q) = map_option core (heap st q)" "q \<in> set (run_queue st')"
  shows "settled st' u t q"
proof -
  obtain k where k: "heap st q = Some k" "j_installed k" "j_unit k = u" "job_type_is_conflicting (j_type k) t = Some False"
    using assms(1) by (auto simp: settled_def)
  then obtain k' where k': "heap st' q = Some k'" "core k' = core k" using assms(3) by auto
  then show ?thesis using assms(1,2,4) k core_eqD [OF k'(2)] by (simp add: settled_def)
qed

text \<open>A job merged into the installed one leaves the table and is freed.\<close>

lemma release_merged:
  assumes "installs s1 p j q s2" "ready s1 p j" "wf_jobs (if q = p then P - {p} else P) s2"
  defines "s3 \<equiv> (if q \<noteq> p
     then job_free p (remove_value p (if tr_anchor s2 = Some p then s2\<lparr>tr_anchor := Some q\<rparr> else s2)) else s2)"
  shows "wf_jobs (P - {p}) s3" "\<And>r. r \<noteq> p \<Longrightarrow> heap s3 r = heap s2 r" "heap s3 q = heap s2 q" "units s3 = units s2"
    "run_queue s3 = run_queue s2" "\<And>e. e \<in> set (m_jobs s2) \<Longrightarrow> snd e \<noteq> p \<Longrightarrow> e \<in> set (m_jobs s3)"
    "links s3 = links s1" "tr_jobs s3 = tr_jobs s1"
    "tr_anchor s3 = (if tr_anchor s1 = Some p then Some q else tr_anchor s1)" "next_job s3 = next_job s1"
    "heap s3 p = (if q = p then heap s2 p else None)"
proof -
  note i = assms(1) [unfolded installs_def]
  let ?s = "if tr_anchor s2 = Some p then s2\<lparr>tr_anchor := Some q\<rparr> else s2"
  have "wf_jobs (P - {p}) s3 \<and> (\<forall>r. r \<noteq> p \<longrightarrow> heap s3 r = heap s2 r) \<and> heap s3 q = heap s2 q \<and> units s3 = units s2 \<and>
    run_queue s3 = run_queue s2 \<and> (\<forall>e \<in> set (m_jobs s2). snd e \<noteq> p \<longrightarrow> e \<in> set (m_jobs s3)) \<and>
    links s3 = links s1 \<and> tr_jobs s3 = tr_jobs s1 \<and>
    tr_anchor s3 = (if tr_anchor s1 = Some p then Some q else tr_anchor s1) \<and> next_job s3 = next_job s1 \<and>
    heap s3 p = (if q = p then heap s2 p else None)"
  proof (cases "q = p")
    case True
    then show ?thesis using assms(3) i by (simp add: s3_def)
  next
    case False
    have h: "heap ?s p = Some j" "wf_jobs P ?s" using assms(3) i False by simp_all
    have "\<not> j_installed j" "\<not> j_in_run_queue j" "\<not> j_in_dbus_queue j" "\<not> j_in_gc_queue j"
      using assms(2) by (simp_all add: ready_def)
    note f = free_unindexed [OF h(2,1) this]
    have "s3 = job_free p (remove_value p ?s)" using False by (simp add: s3_def)
    then show ?thesis using f i False by auto
  qed
  then show "wf_jobs (P - {p}) s3" "\<And>r. r \<noteq> p \<Longrightarrow> heap s3 r = heap s2 r" "heap s3 q = heap s2 q" "units s3 = units s2"
    "run_queue s3 = run_queue s2" "\<And>e. e \<in> set (m_jobs s2) \<Longrightarrow> snd e \<noteq> p \<Longrightarrow> e \<in> set (m_jobs s3)"
    "links s3 = links s1" "tr_jobs s3 = tr_jobs s1"
    "tr_anchor s3 = (if tr_anchor s1 = Some p then Some q else tr_anchor s1)" "next_job s3 = next_job s1"
    "heap s3 p = (if q = p then heap s2 p else None)"
    by blast+
qed

lemma install_one_outcome:
  assumes "quiet hk" "staged st" "tr_jobs st = (u, [p]) # es" "heap st p = Some j"
  shows "\<exists>q st'. install_one hk p (st\<lparr>tr_jobs := es\<rparr>) = Some (q, st') \<and> staged st' \<and> tr_jobs st' = es \<and>
    tr_anchor st' = (if tr_anchor st = Some p then Some q else tr_anchor st) \<and> settled st' u (j_type j) q \<and>
    (\<forall>v t r. v \<noteq> u \<longrightarrow> settled st v t r \<longrightarrow> settled st' v t r) \<and>
    (\<forall>r \<in> tr_set st'. heap st' r = heap st r) \<and> next_job st' = next_job st \<and> q \<notin> tr_set st' \<and>
    (\<forall>r. heap st r = None \<longrightarrow> heap st' r = None) \<and>
    (\<forall>r k. heap st r = Some k \<longrightarrow> j_installed k \<longrightarrow>
       (j_unit k = u \<longrightarrow> job_type_is_conflicting (j_type k) (j_type j) = Some False) \<longrightarrow>
       (\<exists>k'. heap st' r = Some k' \<and> j_installed k' \<and> j_unit k' = j_unit k \<and> (j_unit k \<noteq> u \<longrightarrow> j_type k' = j_type k)))"
proof -
  note g = assms(2) [unfolded staged_def]
  define s1 where "s1 = st\<lparr>tr_jobs := es, links := drop_links {p} (links st)\<rparr>"
  have un: "transaction_unlink_job False p (st\<lparr>tr_jobs := es\<rparr>) = s1" "tr_set s1 = tr_set st - {p}" "wf_trans {} s1" "singles s1"
    using unlink_first [of st u p es] g assms(3) by (simp_all add: s1_def)
  have pin: "p \<in> tr_set st" using assms(3) by (simp add: tr_set_def)
  have inst: "installed_jobs s1 = installed_jobs st" by (simp add: s1_def installed_jobs_def)
  have rd: "ready s1 r k \<longleftrightarrow> ready st r k" for r k by (simp add: s1_def ready_def)
  have r: "ready s1 p j" using g pin rd assms(4) by (auto simp: ready_def)
  have ju: "j_unit j = u" using first_entry [of st u "[p]" es] g assms(3,4) by auto
  obtain q s2 where s2: "job_install (Suc 0) hk p s1 = Some (q, s2)" "installs s1 p j q s2"
      "wf_jobs (if q = p then tr_set st - {p} else tr_set st) s2"
    using job_install_outcome [OF assms(1) _ r, of "tr_set st" 0] g by (auto simp: s1_def)
  note i = s2(2) [unfolded installs_def]
  define s3 where "s3 = (if q \<noteq> p
     then job_free p (remove_value p (if tr_anchor s2 = Some p then s2\<lparr>tr_anchor := Some q\<rparr> else s2)) else s2)"
  note m = release_merged [OF s2(2) r s2(3), folded s3_def]
  obtain k where k: "heap s3 q = Some k" "j_installed k" "job_type_is_conflicting (j_type k) (j_type j) = Some False"
    using i m(3) by auto
  obtain st' where q: "(do {
       st \<leftarrow> job_add_to_run_queue q s3;
       st \<leftarrow> job_add_to_dbus_queue q st;
       Some (q, job_start_timer q False st)
     }) = Some (q, st')" "wf_jobs (tr_set st - {p}) st'" "same_core s3 st'" "frame s3 st'"
      "insert q (set (run_queue s3)) \<subseteq> set (run_queue st')"
    using queue_installed [OF m(1) k(1,2)] by blast
  have I: "install_one hk p (st\<lparr>tr_jobs := es\<rparr>) = Some (q, st')"
    using q(1) [unfolded s3_def] s2(1) unfolding install_one_def Let_def un(1) by (simp split del: if_split)
  note sc = q(3) [unfolded same_core_def]
  have v: "tr_jobs st' = es" "links st' = links s1" "tr_set st' = tr_set st - {p}" "units st' = units s2"
    using sc m(4,7,8) un(2) by (simp_all add: tr_set_def s1_def)
  have rest: "heap st' x = heap st x" "\<And>k. ready st x k \<Longrightarrow> ready st' x k" if x: "x \<in> tr_set st'" for x
  proof -
    have xp: "x \<in> tr_set st" "x \<noteq> p" using x v(3) by auto
    then obtain kx where kx: "ready st x kx" using g by blast
    have n: "x \<notin> installed_jobs s1" using ready_not_installed [OF kx] inst by simp
    then have h3: "heap s3 x = heap st x" using m(2) [OF xp(2)] i xp(2) by (simp add: s1_def)
    then have "x \<notin> installed_jobs s3" using kx by (auto simp: installed_jobs_def ready_def)
    then show h: "heap st' x = heap st x" using frameD(1) [OF q(4)] h3 by simp
    show "ready st' x k" if "ready st x k" for k
    proof -
      have "(j_id k, x) \<in> set (m_jobs s2)" using that i n by (simp add: ready_def s1_def)
      then have "(j_id k, x) \<in> set (m_jobs st')" using m(6) xp(2) sc by simp
      then show ?thesis using that h by (simp add: ready_def)
    qed
  qed
  have sg: "staged st'"
  proof -
    have "wf_trans {} st'"
      by (rule wf_trans_agree [OF un(3)]) (use v rest(1) un(2) in \<open>simp_all add: s1_def\<close>)
    moreover have "\<exists>k. ready st' x k" if "x \<in> tr_set st'" for x using rest(2) [OF that] g that v(3) by blast
    moreover have "singles st'" using un(4) v(1) by (simp add: singles_def s1_def)
    moreover have "j_installed x \<or> r \<in> tr_set st'" if x: "heap st' r = Some x" for r x
    proof (cases "r \<in> tr_set st - {p}")
      case True
      then show ?thesis using v(3) by simp
    next
      case False
      obtain y where y: "heap s3 r = Some y" "j_installed x = j_installed y"
        using same_core_job [OF same_core_sym [OF q(3)] x] by metis
      show ?thesis
      proof (cases "r = q \<or> r = p")
        case True
        then show ?thesis using k(1,2) y m(11) by (auto split: if_splits)
      next
        case f: False
        then have h2: "heap s2 r = Some y" using y(1) m(2) by simp
        show ?thesis
        proof (cases "heap st r")
          case None
          then have "r \<notin> installed_jobs s1" using inst by (simp add: installed_jobs_def)
          then show ?thesis using i h2 None f by (simp add: s1_def)
        next
          case (Some z)
          then have z: "j_installed z" using g False f by blast
          have "job_slot (j_type j) (units s1 (j_unit j)) \<noteq> Some r" using i f h2 by auto
          then have "map_option core (heap s2 r) = Some (core z)" using i Some z by (simp add: s1_def)
          then have "core y = core z" using h2 by simp
          from core_eqD(3) [OF this] show ?thesis using y(2) z by simp
        qed
      qed
    qed
    ultimately show ?thesis using q(2) v(3) by (simp add: staged_def)
  qed
  have slot: "job_slot t (units st' x) =
      (if x = u \<and> (t = JOB_NOP \<longleftrightarrow> j_type j = JOB_NOP) then Some q else job_slot t (units st x))" for t x
    using i ju by (simp add: v(4) s1_def)
  have "map_option core (heap st' q) = Some (core k)" using sc k(1) by simp
  then obtain k' where k': "heap st' q = Some k'" "core k' = core k" by auto
  have ki: "j_installed k'" "job_type_is_conflicting (j_type k') (j_type j) = Some False"
    using k core_eqD [OF k'(2)] by simp_all
  have ku: "j_unit k' = u"
    using slot_job [OF wf_jobsD(1) [OF q(2)], of "j_type j" u q] slot [of "j_type j" u] k'(1) by auto
  have "settled st' u (j_type j) q"
    using slot [of "j_type j" u] q(5) k'(1) ki ku by (auto simp: settled_def)
  moreover have "settled st' x t y" if x: "x \<noteq> u" "settled st x t y" for x t y
  proof -
    obtain z where z: "heap st y = Some z" "j_installed z" "j_unit z = x" using x(2) by (auto simp: settled_def)
    have yp: "y \<noteq> p" using r z by (auto simp: ready_def s1_def)
    have "job_slot (j_type j) (units s1 (j_unit j)) \<noteq> Some y"
      using slot_job [of s1 "j_type j" "j_unit j" y] g wf_jobsD(1) [of "tr_set st" s1] z x(1) ju by (auto simp: s1_def)
    then have "map_option core (heap s2 y) = Some (core z) \<and> (y \<in> set (run_queue st) \<longrightarrow> y \<in> set (run_queue s2))"
      using i z by (simp add: s1_def)
    then show ?thesis
      using settled_mono [OF x(2), of st'] slot [of t x] x sc m(2) [OF yp] m(5) q(5) z(1) by (auto simp: settled_def)
  qed
  moreover have "q \<notin> tr_set st'"
    using rest(2) [of q] g v(3) k'(1) ki(1) by (fastforce simp: ready_def)
  moreover have "\<exists>z'. heap st' y = Some z' \<and> j_installed z' \<and> j_unit z' = j_unit z \<and> (j_unit z \<noteq> u \<longrightarrow> j_type z' = j_type z)"
    if z: "heap st y = Some z" "j_installed z" "j_unit z = u \<longrightarrow> job_type_is_conflicting (j_type z) (j_type j) = Some False" for y z
  proof (cases "job_slot (j_type j) (units s1 (j_unit j)) = Some y")
    case True
    have zu: "j_unit z = u"
      using slot_job [of s1 "j_type j" "j_unit j" y] g wf_jobsD(1) [of "tr_set st" s1] True z(1) ju by (auto simp: s1_def)
    have "y = q"
    proof (rule ccontr)
      assume "y \<noteq> q"
      then have "job_type_is_conflicting (j_type z) (j_type j) = Some True" using i True z(1) by (simp add: s1_def)
      then show False using z(3) zu by simp
    qed
    then show ?thesis using k'(1) ki(1) ku zu by simp
  next
    case False
    have yp: "y \<noteq> p" using r z(1,2) by (auto simp: ready_def s1_def)
    have "map_option core (heap s2 y) = Some (core z)" using i z(1,2) False by (simp add: s1_def)
    then have "map_option core (heap st' y) = Some (core z)" using sc m(2) [OF yp] by simp
    then obtain z' where z': "heap st' y = Some z'" "core z' = core z" by auto
    then show ?thesis using core_eqD [OF z'(2)] z(2) by simp
  qed
  moreover have "heap st' x = None" if x: "heap st x = None" for x
  proof -
    have "x \<notin> installed_jobs s1" "x \<noteq> p" using x inst assms(4) by (auto simp: installed_jobs_def)
    then have "heap s3 x = None" using i m(2) x by (simp add: s1_def)
    then show ?thesis using sc by (metis option.map_disc_iff)
  qed
  moreover have "tr_anchor st' = (if tr_anchor st = Some p then Some q else tr_anchor st)" "next_job st' = next_job st"
    using m(9,10) sc by (simp_all add: s1_def)
  ultimately show ?thesis using I sg v(1) rest(1) by blast
qed

section \<open>All jobs\<close>

text \<open>An installed job that no job of the transaction conflicts with stays.\<close>

definition kept_jobs :: "sys \<Rightarrow> sys \<Rightarrow> bool" where
  "kept_jobs st st' \<longleftrightarrow>
     (\<forall>r k. heap st r = Some k \<longrightarrow> j_installed k \<longrightarrow>
        (\<forall>(u, js) \<in> set (tr_jobs st). u = j_unit k \<longrightarrow>
           job_type_is_conflicting (j_type k) (j_type (job_at st (hd js))) = Some False) \<longrightarrow>
        (\<exists>k'. heap st' r = Some k' \<and> j_installed k' \<and> j_unit k' = j_unit k))"

lemma install_jobs_outcome:
  assumes "quiet hk" "staged st" "length (tr_jobs st) \<le> n"
  shows "\<exists>aff st'. install_jobs n hk affected st = Some (aff, st') \<and> wf_jobs {} st' \<and> tr_jobs st' = [] \<and> links st' = [] \<and>
    (\<forall>p j. heap st' p = Some j \<longrightarrow> j_installed j) \<and> set affected \<subseteq> set aff \<and> next_job st' = next_job st \<and>
    (\<forall>r. heap st r = None \<longrightarrow> heap st' r = None) \<and>
    (\<forall>v t r. v \<notin> fst ` set (tr_jobs st) \<longrightarrow> settled st v t r \<longrightarrow> settled st' v t r) \<and>
    (\<forall>(u, js) \<in> set (tr_jobs st). \<exists>q \<in> set aff. settled st' u (j_type (job_at st (hd js))) q \<and>
       (tr_anchor st = Some (hd js) \<longrightarrow> tr_anchor st' = Some q)) \<and>
    (tr_anchor st \<notin> Some ` tr_set st \<longrightarrow> tr_anchor st' = tr_anchor st) \<and> kept_jobs st st'"
  using assms(2,3)
proof (induction n arbitrary: st affected)
  case 0
  then have "tr_jobs st = []" "tr_set st = {}" by (simp_all add: tr_set_def)
  moreover have "links st = []" using wf_tr_set_empty(2) [of st] 0 calculation(2) by (simp add: staged_def)
  ultimately show ?case using 0 by (simp add: install_jobs.simps staged_def kept_jobs_def)
next
  case (Suc n)
  show ?case
  proof (cases "tr_jobs st")
    case Nil
    then have "tr_set st = {}" by (simp add: tr_set_def)
    moreover have "links st = []" using wf_tr_set_empty(2) [of st] Suc.prems(1) calculation by (simp add: staged_def)
    ultimately show ?thesis using Suc.prems Nil by (simp add: install_jobs.simps [of "Suc n"] staged_def kept_jobs_def)
  next
    case (Cons e es)
    obtain u js where e: "e = (u, js)" by (cases e)
    have tj: "tr_jobs st = (u, js) # es" using Cons e by simp
    obtain p j where p: "js = [p]" "heap st p = Some j" "u \<notin> fst ` set es" "p \<notin> (\<Union>(v, ks) \<in> set es. set ks)"
      using first_entry [of st u js es] Suc.prems(1) tj by (auto simp: staged_def)
    obtain q s where s: "install_one hk p (st\<lparr>tr_jobs := es\<rparr>) = Some (q, s)" "staged s" "tr_jobs s = es"
        "tr_anchor s = (if tr_anchor st = Some p then Some q else tr_anchor st)" "settled s u (j_type j) q"
        "\<forall>v t r. v \<noteq> u \<longrightarrow> settled st v t r \<longrightarrow> settled s v t r" "\<forall>r \<in> tr_set s. heap s r = heap st r"
        "next_job s = next_job st" "q \<notin> tr_set s"
        "\<forall>r k. heap st r = Some k \<longrightarrow> j_installed k \<longrightarrow>
           (j_unit k = u \<longrightarrow> job_type_is_conflicting (j_type k) (j_type j) = Some False) \<longrightarrow>
           (\<exists>k'. heap s r = Some k' \<and> j_installed k' \<and> j_unit k' = j_unit k \<and> (j_unit k \<noteq> u \<longrightarrow> j_type k' = j_type k))"
        "\<forall>r. heap st r = None \<longrightarrow> heap s r = None"
      using install_one_outcome [OF assms(1) Suc.prems(1), of u p es j] tj p(1,2) by blast
    have "length (tr_jobs s) \<le> n" using Suc.prems(2) tj s(3) by simp
    from Suc.IH [OF s(2) this, of "List.insert q affected"] obtain aff st' where
      I: "install_jobs n hk (List.insert q affected) s = Some (aff, st')" "wf_jobs {} st'" "tr_jobs st' = []" "links st' = []"
        "\<forall>p j. heap st' p = Some j \<longrightarrow> j_installed j" "set (List.insert q affected) \<subseteq> set aff" "next_job st' = next_job s"
        "\<forall>v t r. v \<notin> fst ` set es \<longrightarrow> settled s v t r \<longrightarrow> settled st' v t r"
        "\<forall>(v, ks) \<in> set es. \<exists>r \<in> set aff. settled st' v (j_type (job_at s (hd ks))) r \<and>
           (tr_anchor s = Some (hd ks) \<longrightarrow> tr_anchor st' = Some r)"
        "tr_anchor s \<notin> Some ` tr_set s \<longrightarrow> tr_anchor st' = tr_anchor s" "kept_jobs s st'"
        "\<forall>r. heap s r = None \<longrightarrow> heap st' r = None"
      unfolding s(3) by blast
    have run: "install_jobs (Suc n) hk affected st = Some (aff, st')"
      using I(1) s(1) tj p(1) by (simp add: install_jobs.simps [of "Suc n"])
    have same: "hd ks \<in> tr_set s" "hd ks \<in> set ks" "heap s (hd ks) = heap st (hd ks)" if ve: "(v, ks) \<in> set es" for v ks
    proof -
      have "tr_entry_ok s (v, ks)" using s(2,3) ve by (simp add: staged_def wf_trans_def)
      then show hk: "hd ks \<in> set ks" by (simp add: tr_entry_ok_def)
      then show "hd ks \<in> tr_set s" using ve s(3) tr_setI by simp
      then show "heap s (hd ks) = heap st (hd ks)" using s(7) by blast
    qed
    have "kept_jobs st st'"
      unfolding kept_jobs_def
    proof (intro allI impI)
      fix r k
      assume k: "heap st r = Some k" "j_installed k" "\<forall>(v, ks) \<in> set (tr_jobs st). v = j_unit k \<longrightarrow>
          job_type_is_conflicting (j_type k) (j_type (job_at st (hd ks))) = Some False"
      have "j_unit k = u \<longrightarrow> job_type_is_conflicting (j_type k) (j_type j) = Some False" using k(3) tj p(1,2) by auto
      then obtain k1 where k1: "heap s r = Some k1" "j_installed k1" "j_unit k1 = j_unit k" "j_unit k \<noteq> u \<longrightarrow> j_type k1 = j_type k"
        using s(10) k(1,2) by blast
      have "job_type_is_conflicting (j_type k1) (j_type (job_at s (hd ks))) = Some False"
        if v: "(v, ks) \<in> set es" "v = j_unit k1" for v ks
      proof -
        have "v \<noteq> u" using p(3) v(1) by force
        then have "j_type k1 = j_type k" using k1(3,4) v(2) by simp
        moreover have "job_type_is_conflicting (j_type k) (j_type (job_at st (hd ks))) = Some False"
          using k(3) v k1(3) tj by auto
        ultimately show ?thesis using same(3) [OF v(1)] by simp
      qed
      then have "\<forall>(v, ks) \<in> set (tr_jobs s). v = j_unit k1 \<longrightarrow>
          job_type_is_conflicting (j_type k1) (j_type (job_at s (hd ks))) = Some False" using s(3) by auto
      then show "\<exists>k'. heap st' r = Some k' \<and> j_installed k' \<and> j_unit k' = j_unit k"
        using I(11) k1 unfolding kept_jobs_def by metis
    qed
    moreover have entry: "\<exists>r \<in> set aff. settled st' v (j_type (job_at st (hd ks))) r \<and>
        (tr_anchor st = Some (hd ks) \<longrightarrow> tr_anchor st' = Some r)" if v: "(v, ks) \<in> set (tr_jobs st)" for v ks
    proof (cases "(v, ks) = (u, [p])")
      case True
      have "tr_anchor st = Some p \<Longrightarrow> tr_anchor st' = Some q" using s(4,9) I(10) by auto
      then show ?thesis using I(6,8) s(5) p(2,3) True by auto
    next
      case False
      then have ve: "(v, ks) \<in> set es" using v tj p(1) by auto
      have "hd ks \<noteq> p" using p(4) ve same(2) [OF ve] by auto
      moreover obtain r where "r \<in> set aff" "settled st' v (j_type (job_at s (hd ks))) r"
          "tr_anchor s = Some (hd ks) \<longrightarrow> tr_anchor st' = Some r"
        using I(9) ve by blast
      ultimately show ?thesis using same(3) [OF ve] s(4) by (intro bexI [of _ r]) auto
    qed
    moreover have "tr_anchor st' = tr_anchor st" if a: "tr_anchor st \<notin> Some ` tr_set st"
    proof -
      have "tr_set st = insert p (tr_set s)" using tj p(1) s(3) by (simp add: tr_set_def)
      then show ?thesis using a s(4) I(10) by auto
    qed
    moreover have "settled st' v t r" if "v \<notin> fst ` set (tr_jobs st)" "settled st v t r" for v t r
      using that s(6) I(8) tj by auto
    ultimately show ?thesis using run I(2-7) s(8,11) I(12) entry by auto
  qed
qed

section \<open>Cancelling the other jobs\<close>

definition applicable :: "sys \<Rightarrow> bool" where
  "applicable st \<longleftrightarrow>
     wf_trans {} st \<and> singles st \<and> wf_jobs {} st \<and>
     (\<forall>p \<in> tr_set st. \<exists>j. heap st p = Some j \<and> j_state j = JOB_WAITING \<and> (j_type j = JOB_NOP \<or> j_type j \<in> merging_types)) \<and>
     (\<forall>p j. heap st p = Some j \<longrightarrow> j_installed j \<or> p \<in> tr_set st)"

lemma transaction_job:
  assumes "wf_trans {} st" "p \<in> tr_set st"
  shows "\<exists>j. heap st p = Some j \<and> \<not> j_installed j \<and> \<not> j_in_run_queue j \<and> \<not> j_in_dbus_queue j \<and> \<not> j_in_gc_queue j"
proof -
  obtain u js where e: "(u, js) \<in> set (tr_jobs st)" "p \<in> set js" using assms(2) by (auto simp: tr_set_def)
  then show ?thesis using wf_transD(2) [OF assms(1) e(1)] by (auto simp: tr_entry_ok_def)
qed

lemma transaction_not_installed: "wf_trans {} st \<Longrightarrow> p \<in> tr_set st \<Longrightarrow> p \<notin> installed_jobs st"
  using transaction_job by (fastforce simp: installed_jobs_def)

lemma applicable_frame:
  assumes "applicable st" "frame st st'" "wf_jobs {} st'"
    and "\<And>p. p \<in> installed_jobs st \<Longrightarrow> p \<in> installed_jobs st' \<or> heap st' p = None"
  shows "applicable st'"
proof -
  note a = assms(1) [unfolded applicable_def] and f = frameD [OF assms(2)]
  have t: "tr_set st' = tr_set st" "tr_jobs st' = tr_jobs st" using f(5) by (simp_all add: tr_set_def)
  have h: "heap st' p = heap st p" if "p \<in> tr_set st" for p
    using f(1) transaction_not_installed a that by blast
  have w: "wf_trans {} st'" by (rule wf_trans_agree [of st]) (use a f h in auto)
  have "j_installed j \<or> p \<in> tr_set st" if j: "heap st' p = Some j" for p j
  proof (cases "p \<in> installed_jobs st")
    case True
    then show ?thesis using assms(4) [OF True] j by (auto simp: installed_jobs_def)
  next
    case False
    then show ?thesis using f(1) [OF False] j a by auto
  qed
  then show ?thesis using a w assms(3) h by (simp add: applicable_def t singles_def)
qed

text \<open>Every job was there before, under the same number.\<close>

definition ids_from :: "sys \<Rightarrow> sys \<Rightarrow> bool" where
  "ids_from st st' \<longleftrightarrow> (\<forall>p k. heap st' p = Some k \<longrightarrow> (\<exists>j. heap st p = Some j \<and> j_id j = j_id k))"

text \<open>Two jobs have the same number, which takes a wrap-around of the counter.\<close>

definition clash :: "sys \<Rightarrow> bool" where
  "clash st \<longleftrightarrow> (\<exists>p q j k. p \<noteq> q \<and> heap st p = Some j \<and> heap st q = Some k \<and> j_id j = j_id k)"

lemma ids_from_refl: "ids_from st st"
  by (simp add: ids_from_def)

lemma ids_from_trans: "ids_from st s \<Longrightarrow> ids_from s st' \<Longrightarrow> ids_from st st'"
  unfolding ids_from_def by metis

lemma clash_from: "clash st' \<Longrightarrow> ids_from st st' \<Longrightarrow> clash st"
  unfolding clash_def ids_from_def by metis

lemma cancel_jobs_outcome:
  assumes "quiet hk" "applicable st"
  shows "\<exists>st'. cancel_jobs hk ps st = Some st' \<and> applicable st' \<and> frame st st' \<and> ids_from st st'"
  using assms(2)
proof (induction ps arbitrary: st)
  case (Cons p ps)
  note a = Cons.prems [unfolded applicable_def]
  show ?case
  proof (cases "p \<in> snd ` set (m_jobs st)")
    case False
    then show ?thesis using Cons.IH [OF Cons.prems] by simp
  next
    case True
    then obtain n where "(n, p) \<in> set (m_jobs st)" by auto
    then have "p \<in> installed_jobs st" using wf_jobsD(6) [of "{}" st] a by (auto simp: index_ok_def)
    then obtain j where j: "heap st p = Some j" "j_installed j" by (auto simp: installed_jobs_def)
    obtain s where s: "job_finish_and_invalidate (Suc 0) hk p JOB_CANCELED False st = Some s" "wf_jobs {} s" "frame st s"
        "heap s p = None" "\<And>r. r \<noteq> p \<Longrightarrow> map_option core (heap s r) = map_option core (heap st r)"
      by (rule finish_alone [OF assms(1) _ j, of "{}" JOB_CANCELED 0]) (use a in auto)
    have "r \<in> installed_jobs s \<or> heap s r = None" if inst: "r \<in> installed_jobs st" for r
    proof (cases "r = p")
      case False
      obtain k where k: "heap st r = Some k" "j_installed k" using inst by (auto simp: installed_jobs_def)
      then obtain k' where k': "heap s r = Some k'" "core k' = core k" using s(5) [OF False] by auto
      show ?thesis using k(2) k'(1) core_eqD(3) [OF k'(2)] by (simp add: installed_jobs_def)
    qed (simp add: s(4))
    then have as: "applicable s" by (rule applicable_frame [OF Cons.prems s(3,2)])
    have "\<exists>x. heap st r = Some x \<and> j_id x = j_id k" if k: "heap s r = Some k" for r k
    proof -
      have "r \<noteq> p" using k s(4) by auto
      then obtain x where x: "heap st r = Some x" "core k = core x" using s(5) [of r] k by (cases "heap st r") auto
      then show ?thesis using core_eqD(4) [OF x(2)] by simp
    qed
    then have "ids_from st s" by (simp add: ids_from_def)
    then show ?thesis
      using Cons.IH [OF Cons.prems] Cons.IH [OF as] frame_trans [OF s(3)] ids_from_trans [of st s] True j s(1)
      by (auto simp: Let_def)
  qed
qed (simp add: frame_refl ids_from_refl)

section \<open>The table of jobs\<close>

definition entry_of :: "sys \<Rightarrow> unitp \<times> jobp list \<Rightarrow> u32 \<times> jobp" where
  "entry_of st e = (j_id (job_at st (hd (snd e))), hd (snd e))"

definition fresh_ids :: "sys \<Rightarrow> bool" where
  "fresh_ids st \<longleftrightarrow> distinct (map fst (map (entry_of st) (tr_jobs st) @ m_jobs st))"

lemma entry_of_m_jobs [simp]: "entry_of (st\<lparr>m_jobs := m\<rparr>) = entry_of st"
  by (simp add: entry_of_def fun_eq_iff)

lemma distinct_middle: "distinct (xs @ y # ys) = distinct (y # xs @ ys)"
  by auto

lemma index_jobs_outcome:
  assumes "\<forall>(u, js) \<in> set es. length js = 1" "distinct (map (\<lambda>e. hd (snd e)) es)"
    and "\<forall>e \<in> set es. hd (snd e) \<notin> snd ` set (m_jobs st)" "distinct (map fst (m_jobs st))"
  shows "\<exists>r k. index_jobs es st = Some (r, st\<lparr>m_jobs := rev (map (entry_of st) (take k es)) @ m_jobs st\<rparr>) \<and>
    (if distinct (map fst (map (entry_of st) es @ m_jobs st)) then r = Inr () \<and> k = length es else r = Inl EEXIST)"
  using assms
proof (induction es arbitrary: st)
  case (Cons e es)
  obtain u js where "e = (u, js)" by (cases e)
  then obtain p where e: "e = (u, [p])" using Cons.prems(1) by (cases js) auto
  have en: "entry_of st e = (j_id (job_at st p), p)" by (simp add: entry_of_def e)
  show ?case
  proof (cases "map_of (m_jobs st) (j_id (job_at st p))")
    case (Some w)
    then have "(j_id (job_at st p), w) \<in> set (m_jobs st)" by (rule map_of_SomeD)
    then have "w \<noteq> p" "j_id (job_at st p) \<in> fst ` set (m_jobs st)"
      using bspec [OF Cons.prems(3), of e] e by (auto simp: image_iff) (force | blast)+
    then show ?thesis using Some e en by (intro exI [of _ "Inl EEXIST"] exI [of _ 0]) (simp add: hashmap_put_def)
  next
    case None
    let ?s = "st\<lparr>m_jobs := (j_id (job_at st p), p) # m_jobs st\<rparr>"
    have n: "j_id (job_at st p) \<notin> fst ` set (m_jobs st)" using None by (simp add: map_of_eq_None_iff)
    have "hd (snd f) \<noteq> p" if "f \<in> set es" for f using Cons.prems(2) e that by (auto simp: image_iff)
    then have "\<forall>f \<in> set es. hd (snd f) \<notin> snd ` set (m_jobs ?s)" using Cons.prems(3) by simp
    moreover have "distinct (map fst (m_jobs ?s))" using n Cons.prems(4) by simp
    ultimately obtain r k where I:
      "index_jobs es ?s = Some (r, ?s\<lparr>m_jobs := rev (map (entry_of st) (take k es)) @ m_jobs ?s\<rparr>)"
      "if distinct (map fst (map (entry_of st) es @ m_jobs ?s)) then r = Inr () \<and> k = length es else r = Inl EEXIST"
      using Cons.IH [of ?s] Cons.prems(1,2) by auto
    have "distinct (map fst (map (entry_of st) es @ m_jobs ?s)) = distinct (map fst (map (entry_of st) (e # es) @ m_jobs st))"
      using distinct_middle [of "map fst (map (entry_of st) es)" "j_id (job_at st p)" "map fst (m_jobs st)"] en by simp
    then show ?thesis
      using I None e en by (intro exI [of _ r] exI [of _ "Suc k"]) (simp add: hashmap_put_def)
  qed
qed simp

lemma remove_values:
  "fold (\<lambda>(u, js). remove_value (hd js)) es st = st\<lparr>m_jobs := filter (\<lambda>x. x \<notin> entry_of st ` set es) (m_jobs st)\<rparr>"
proof (induction es arbitrary: st)
  case (Cons e es)
  obtain u js where e: "e = (u, js)" by (cases e)
  have r: "remove_value (hd js) st = st\<lparr>m_jobs := filter (\<lambda>x. x \<noteq> entry_of st e) (m_jobs st)\<rparr>"
    by (simp add: remove_value_def entry_of_def e)
  show ?case unfolding e by (simp add: Cons.IH r [unfolded e] conj_commute)
qed simp

lemma rollback_restores:
  assumes "\<forall>e \<in> set (tr_jobs st). hd (snd e) \<notin> snd ` set (m_jobs st)"
  shows "rollback (st\<lparr>m_jobs := rev (map (entry_of st) (take k (tr_jobs st))) @ m_jobs st\<rparr>) = st"
proof -
  have "filter (\<lambda>x. x \<notin> entry_of st ` set (tr_jobs st)) (m_jobs st) = m_jobs st"
    using assms by (force simp: entry_of_def intro!: filter_True)
  moreover have "filter (\<lambda>x. x \<notin> entry_of st ` set (tr_jobs st)) (rev (map (entry_of st) (take k (tr_jobs st)))) = []"
    by (auto simp: filter_empty_conv dest: in_set_takeD)
  ultimately show ?thesis unfolding rollback_def remove_values by simp
qed

lemma staged_indexed:
  assumes "applicable st" "fresh_ids st"
  defines "s \<equiv> st\<lparr>m_jobs := rev (map (entry_of st) (tr_jobs st)) @ m_jobs st\<rparr>"
  shows "staged s"
proof -
  note a = assms(1) [unfolded applicable_def]
  have v: "heap s = heap st" "tr_jobs s = tr_jobs st" "links s = links st" "units s = units st" "tr_set s = tr_set st"
      "installed_jobs s = installed_jobs st" "running_jobs s = running_jobs st"
    by (simp_all add: s_def tr_set_def installed_jobs_def running_jobs_def)
  have entry: "(j_id (job_at st p), p) \<in> set (m_jobs s)" if in_tr: "p \<in> tr_set st" for p
  proof -
    obtain u js where e: "(u, js) \<in> set (tr_jobs st)" "p \<in> set js" using in_tr by (auto simp: tr_set_def)
    then have "js = [p]" using a by (cases js) (auto simp: singles_def)
    then have "entry_of st (u, js) = (j_id (job_at st p), p)" by (simp add: entry_of_def)
    then show ?thesis using e(1) by (force simp: s_def)
  qed
  have owner: "p \<in> tr_set st \<and> n = j_id (job_at st p)" if np: "(n, p) \<in> entry_of st ` set (tr_jobs st)" for n p
  proof -
    obtain u js where e: "(u, js) \<in> set (tr_jobs st)" "(n, p) = entry_of st (u, js)" using np by auto
    then have "length js = 1" using a by (auto simp: singles_def)
    then have "js = [p]" using e(2) by (cases js) (auto simp: entry_of_def)
    then show ?thesis using e tr_setI by (auto simp: entry_of_def)
  qed
  have "index_ok (tr_set st) s"
    unfolding index_ok_def v(1,6)
  proof (intro conjI allI impI)
    show "distinct (map fst (m_jobs s))" using assms(2) by (simp add: fresh_ids_def s_def rev_map [symmetric])
  next
    fix n p assume "(n, p) \<in> set (m_jobs s)"
    then have "(n, p) \<in> entry_of st ` set (tr_jobs st) \<or> (n, p) \<in> set (m_jobs st)" by (auto simp: s_def)
    then show "p \<in> installed_jobs st \<union> tr_set st" "j_id (job_at st p) = n"
      using owner [of n p] wf_jobsD(6) [of "{}" st] a by (auto simp: index_ok_def)
  next
    fix p j assume "heap st p = Some j" "j_installed j"
    then show "(j_id j, p) \<in> set (m_jobs s)" using wf_jobsD(6) [of "{}" st] a by (auto simp: index_ok_def s_def)
  qed
  then have w: "wf_jobs (tr_set st) s"
    using a by (simp add: wf_jobs_def slots_ok_def queue_ok_def count_ok_def v(6,7)) (simp add: s_def)
  have "\<exists>j. ready s p j" if p: "p \<in> tr_set st" for p
  proof -
    obtain j where "heap st p = Some j" "j_state j = JOB_WAITING" "j_type j = JOB_NOP \<or> j_type j \<in> merging_types"
      using a p by blast
    then show ?thesis using transaction_job [of st p] a p entry [OF p] by (auto simp: ready_def v(1))
  qed
  moreover have "wf_trans {} s" using wf_trans_cong [of s st "{}"] a v by simp
  ultimately show ?thesis using a w by (simp add: staged_def v singles_def)
qed

lemma distinct_heads:
  assumes "wf_trans {} st" "singles st"
  shows "distinct (map (\<lambda>e. hd (snd e)) (tr_jobs st))"
  unfolding distinct_map
proof (intro conjI inj_onI)
  show "distinct (tr_jobs st)" using wf_transD(1) [OF assms(1)] by (simp add: distinct_map)
next
  fix x y assume xy: "x \<in> set (tr_jobs st)" "y \<in> set (tr_jobs st)" "hd (snd x) = hd (snd y)"
  have e: "tr_entry_ok st x" "tr_entry_ok st y" "length (snd x) = 1" "length (snd y) = 1"
    using wf_transD(2) [OF assms(1)] assms(2) xy by (auto simp: singles_def)
  then have s: "snd x = snd y" using xy(3) by (cases "snd x"; cases "snd y") auto
  have "fst x = fst y" using e s by (cases "snd y") (auto simp: tr_entry_ok_def)
  then show "x = y" using s by (simp add: prod_eq_iff)
qed

lemma heads_unindexed:
  assumes "applicable st"
  shows "\<forall>e \<in> set (tr_jobs st). hd (snd e) \<in> tr_set st \<and> hd (snd e) \<notin> snd ` set (m_jobs st)"
proof
  note a = assms [unfolded applicable_def]
  fix e assume e: "e \<in> set (tr_jobs st)"
  obtain u js where u: "e = (u, js)" by (cases e)
  then obtain p where p: "js = [p]" "p \<in> tr_set st" using a e tr_setI by (cases js) (auto simp: singles_def)
  have "p \<notin> installed_jobs st" using transaction_not_installed a p(2) by blast
  then show "hd (snd e) \<in> tr_set st \<and> hd (snd e) \<notin> snd ` set (m_jobs st)"
    using wf_jobsD(6) [of "{}" st] a p u by (auto simp: index_ok_def)
qed

lemma fresh_or_clash:
  assumes "applicable st" "\<not> fresh_ids st"
  shows "clash st"
proof (rule ccontr)
  assume n: "\<not> clash st"
  note a = assms(1) [unfolded applicable_def] and h = heads_unindexed [OF assms(1)]
  let ?xs = "map (entry_of st) (tr_jobs st) @ m_jobs st"
  have i: "index_ok {} st" using wf_jobsD(6) a by blast
  have id: "\<exists>j. heap st p = Some j \<and> j_id j = m" if mp: "(m, p) \<in> set ?xs" for m p
  proof (cases "(m, p) \<in> set (m_jobs st)")
    case True
    then have "p \<in> installed_jobs st" "j_id (job_at st p) = m" using i by (auto simp: index_ok_def)
    then show ?thesis by (auto simp: installed_jobs_def)
  next
    case False
    then obtain e where e: "e \<in> set (tr_jobs st)" "(m, p) = entry_of st e" using mp by auto
    then have "p \<in> tr_set st" "m = j_id (job_at st p)" using h by (auto simp: entry_of_def)
    then show ?thesis using transaction_job [of st p] a by auto
  qed
  have "distinct (map (entry_of st) (tr_jobs st))"
    using distinct_heads [of st] a distinct_map [of snd "map (entry_of st) (tr_jobs st)"] by (simp add: entry_of_def comp_def)
  moreover have "distinct (m_jobs st)" using i by (simp add: index_ok_def distinct_map)
  moreover have "entry_of st e \<notin> set (m_jobs st)" if "e \<in> set (tr_jobs st)" for e
    using h that image_eqI [of "hd (snd e)" snd "entry_of st e" "set (m_jobs st)"] by (auto simp: entry_of_def)
  ultimately have d: "distinct ?xs" by auto
  have "inj_on fst (set ?xs)"
  proof (rule inj_onI)
    fix x y assume xy: "x \<in> set ?xs" "y \<in> set ?xs" "fst x = fst y"
    obtain m p q where m: "x = (m, p)" "y = (m, q)" using xy(3) by (cases x; cases y) auto
    obtain j k where "heap st p = Some j" "j_id j = m" "heap st q = Some k" "j_id k = m"
      using id [of m p] id [of m q] xy(1,2) m by blast
    then have "p = q" using n unfolding clash_def by metis
    then show "x = y" using m by simp
  qed
  then have "fresh_ids st" unfolding fresh_ids_def distinct_map using d by blast
  then show False using assms(2) by simp
qed

definition committed :: "sys \<Rightarrow> jobp list \<Rightarrow> sys \<Rightarrow> bool" where
  "committed st affected st' \<longleftrightarrow>
     wf_jobs {} st' \<and> tr_jobs st' = [] \<and> links st' = [] \<and> (\<forall>p j. heap st' p = Some j \<longrightarrow> j_installed j) \<and>
     next_job st' = next_job st \<and> (\<forall>p. heap st p = None \<longrightarrow> heap st' p = None) \<and>
     (\<forall>(u, js) \<in> set (tr_jobs st). \<exists>q \<in> set affected. settled st' u (j_type (job_at st (hd js))) q \<and>
        (tr_anchor st = Some (hd js) \<longrightarrow> tr_anchor st' = Some q)) \<and>
     (\<forall>v t q. v \<notin> fst ` set (tr_jobs st) \<longrightarrow> settled st v t q \<longrightarrow> settled st' v t q) \<and> kept_jobs st st'"

lemma transaction_apply_result:
  assumes "quiet hk" "applicable st"
  shows "\<exists>s0. applicable s0 \<and> frame st s0 \<and> ids_from st s0 \<and> (mode \<notin> {JOB_ISOLATE, JOB_FLUSH} \<longrightarrow> s0 = st) \<and>
    (if fresh_ids s0 then \<exists>affected st'. transaction_apply hk mode st = Some (Inr affected, st') \<and> committed s0 affected st'
     else transaction_apply hk mode st = Some (Inl EEXIST, s0))"
proof -
  obtain s0 where s0: "(if mode \<in> {JOB_ISOLATE, JOB_FLUSH} then cancel_jobs hk (map snd (m_jobs st)) st else Some st) = Some s0"
      "applicable s0" "frame st s0" "ids_from st s0" "mode \<notin> {JOB_ISOLATE, JOB_FLUSH} \<longrightarrow> s0 = st"
    using cancel_jobs_outcome [OF assms, of "map snd (m_jobs st)"] assms(2) frame_refl [of st] ids_from_refl [of st]
    by (cases "mode \<in> {JOB_ISOLATE, JOB_FLUSH}") auto
  note a = s0(2) [unfolded applicable_def]
  have new: "\<forall>e \<in> set (tr_jobs s0). hd (snd e) \<notin> snd ` set (m_jobs s0)" using heads_unindexed [OF s0(2)] by blast
  have "distinct (map (\<lambda>e. hd (snd e)) (tr_jobs s0))" using distinct_heads a by blast
  then obtain r k where i: "index_jobs (tr_jobs s0) s0 =
        Some (r, s0\<lparr>m_jobs := rev (map (entry_of s0) (take k (tr_jobs s0))) @ m_jobs s0\<rparr>)"
      "if fresh_ids s0 then r = Inr () \<and> k = length (tr_jobs s0) else r = Inl EEXIST"
    using index_jobs_outcome [of "tr_jobs s0" s0] a new wf_jobsD(6) [of "{}" s0]
    by (auto simp: singles_def fresh_ids_def index_ok_def)
  show ?thesis
  proof (cases "fresh_ids s0")
    case False
    then have "transaction_apply hk mode st = Some (Inl EEXIST, s0)"
      unfolding transaction_apply_def s0(1) using i rollback_restores [OF new] by simp
    then show ?thesis using s0(2-5) False by auto
  next
    case True
    let ?s = "s0\<lparr>m_jobs := rev (map (entry_of s0) (tr_jobs s0)) @ m_jobs s0\<rparr>"
    have sg: "staged ?s" by (rule staged_indexed [OF s0(2) True])
    have settled: "settled ?s v t q = settled s0 v t q" "kept_jobs ?s s = kept_jobs s0 s" for v t q s
      by (simp_all add: settled_def kept_jobs_def)
    have set: "tr_jobs ?s = tr_jobs s0" "heap ?s = heap s0" "tr_anchor ?s = tr_anchor s0" "next_job ?s = next_job s0" by simp_all
    obtain affected st' where I: "install_jobs (length (tr_jobs s0)) hk [] ?s = Some (affected, st')" "committed s0 affected st'"
      using install_jobs_outcome [OF assms(1) sg order.refl, of "[]"] unfolding committed_def settled set by blast
    have "transaction_apply hk mode st = Some (Inr affected, st')"
      unfolding transaction_apply_def s0(1) using i True I(1) by simp
    then show ?thesis using s0(2-5) True I(2) by auto
  qed
qed

section \<open>A transaction that is built\<close>

definition prepared :: "sys \<Rightarrow> bool" where
  "prepared st \<longleftrightarrow>
     wf_trans {} st \<and> wf_jobs {} st \<and> mergeable_types st \<and>
     (\<forall>p j. heap st p = Some j \<longrightarrow> p < next_job st \<and> (j_installed j \<or> p \<in> tr_set st)) \<and>
     (\<forall>p \<in> tr_set st. j_state (job_at st p) = JOB_WAITING \<and> j_generation (job_at st p) = 0 \<and>
        (j_type (job_at st p) = JOB_NOP \<or> j_type (job_at st p) \<in> merging_types))"

lemma wf_jobs_wf_units:
  assumes "wf_jobs P st"
  shows "wf_units st"
  unfolding wf_units_def
proof (intro allI impI)
  fix u q assume "u_job (units st u) = Some q"
  then obtain j where "heap st q = Some j" "j_installed j" "j_unit j = u" "j_type j \<in> merging_types"
    using slots_okD(1) [OF wf_jobsD(1) [OF assms]] by blast
  then show "\<exists>j. heap st q = Some j \<and> j_installed j \<and> j_unit j = u \<and> j_type j \<noteq> JOB_NOP" by auto
qed

lemma preparedD:
  assumes "prepared st"
  shows "clean st" "known st" "good_types st"
proof -
  note p = assms [unfolded prepared_def]
  show "clean st" using p wf_jobs_wf_units [of "{}" st] by (auto simp: clean_def)
  have "q \<in> snd ` set (m_jobs st)" if "heap st q = Some j" "j_installed j" for q j
  proof -
    have "index_ok {} st" using p wf_jobsD(6) by blast
    then have "(j_id j, q) \<in> set (m_jobs st)" using that by (simp add: index_ok_def)
    then show ?thesis by (rule image_eqI [rotated]) simp
  qed
  moreover have "j_generation j = 0" if "heap st q = Some j" "q \<in> tr_set st" for q j
    using p that by (force simp: prepared_def)
  ultimately show "known st" using p unfolding known_def by blast
  have "j_type (job_at st q) \<in> merging_types" if "u_job (units st u) = Some q" for u q
    using slots_okD(1) [OF wf_jobsD(1) that] p by fastforce
  then show "good_types st" using p by (simp add: good_types_def)
qed

lemma reduced_outside:
  assumes "reduced st st'" "p \<notin> tr_set st" "heap st' p = Some k"
  obtains j where "heap st p = Some j" "unmarked k = unmarked j"
  using reducedD(3) [OF assms(1,2)] assms(3) by (cases "heap st p") auto

lemma reduced_outside':
  assumes "reduced st st'" "p \<notin> tr_set st" "heap st p = Some j"
  obtains k where "heap st' p = Some k" "unmarked k = unmarked j"
  using reducedD(3) [OF assms(1,2)] assms(3) by (cases "heap st' p") auto

lemma wf_jobs_reduced:
  assumes "wf_trans {} st" "wf_jobs {} st" "reduced st st'" "wf_trans {} st'"
  shows "wf_jobs {} st'"
proof -
  note w = wf_jobsD [OF assms(2)] and o = othersD [OF reducedD(1) [OF assms(3)]]
  have old: "p \<notin> tr_set st" if "heap st p = Some j" "j_installed j" for p j
    using that transaction_not_installed [OF assms(1), of p] by (auto simp: installed_jobs_def)
  have new: "p \<notin> tr_set st" if f: "heap st' p = Some j" "j_installed j \<or> j_in_run_queue j \<or> j_in_dbus_queue j \<or> j_in_gc_queue j" for p j
  proof
    assume "p \<in> tr_set st"
    then have "p \<in> tr_set st'" using reducedD(4) [OF assms(3)] f(1) by force
    then show False using transaction_job [OF assms(4)] f by force
  qed
  have eq: "(\<exists>j. heap st' p = Some j \<and> F j) \<longleftrightarrow> (\<exists>j. heap st p = Some j \<and> F j)"
    if F: "\<And>j k. unmarked j = unmarked k \<Longrightarrow> F j = F k"
      "\<And>j. F j \<Longrightarrow> j_installed j \<or> j_in_run_queue j \<or> j_in_dbus_queue j \<or> j_in_gc_queue j"
    for p and F :: "job \<Rightarrow> bool"
  proof
    assume "\<exists>j. heap st' p = Some j \<and> F j"
    then obtain k where k: "heap st' p = Some k" "F k" by blast
    then have "p \<notin> tr_set st" using new F(2) by blast
    from reduced_outside [OF assms(3) this k(1)] show "\<exists>j. heap st p = Some j \<and> F j" using F(1) k(2) by metis
  next
    assume "\<exists>j. heap st p = Some j \<and> F j"
    then obtain k where k: "heap st p = Some k" "F k" by blast
    then have "p \<notin> tr_set st" using transaction_job [OF assms(1), of p] F(2) by force
    from reduced_outside' [OF assms(3) this k(1)] show "\<exists>j. heap st' p = Some j \<and> F j" using F(1) k(2) by metis
  qed
  note uf = unmarked_fields
  have i: "installed_jobs st' = installed_jobs st" "running_jobs st' = running_jobs st"
  proof -
    have "(\<exists>j. heap st' p = Some j \<and> j_installed j) = (\<exists>j. heap st p = Some j \<and> j_installed j)" for p
      by (rule eq, erule uf(4), simp)
    then show "installed_jobs st' = installed_jobs st" by (simp add: installed_jobs_def)
    have "(j_installed j \<and> j_state j = JOB_RUNNING) = (j_installed k \<and> j_state k = JOB_RUNNING)"
      if "unmarked j = unmarked k" for j k
      using uf(3,4) [OF that] by simp
    then have "(\<exists>j. heap st' p = Some j \<and> j_installed j \<and> j_state j = JOB_RUNNING) =
        (\<exists>j. heap st p = Some j \<and> j_installed j \<and> j_state j = JOB_RUNNING)" for p
      by (rule eq) blast+
    then show "running_jobs st' = running_jobs st" by (simp add: running_jobs_def)
  qed
  have same: "\<exists>j. heap st p = Some j \<and> unmarked k = unmarked j" if "heap st' p = Some k" "j_installed k" for p k
    using reduced_outside [OF assms(3) new] that by metis
  have "slots_ok st'"
    unfolding slots_ok_conv o(1)
  proof (intro conjI allI impI)
    fix t u p assume sl: "job_slot t (units st u) = Some p"
    then obtain j where j: "heap st p = Some j" "j_installed j" "j_unit j = u"
        "if t = JOB_NOP then j_type j = JOB_NOP else j_type j \<in> merging_types"
      using w(1) unfolding slots_ok_conv by blast
    then obtain k where k: "heap st' p = Some k" "unmarked k = unmarked j"
      using reduced_outside' [OF assms(3) old] by metis
    then show "\<exists>j. heap st' p = Some j \<and> j_installed j \<and> j_unit j = u \<and>
        (if t = JOB_NOP then j_type j = JOB_NOP else j_type j \<in> merging_types)"
      using j uf(1,2,4) [OF k(2)] by auto
  next
    fix p k assume k: "heap st' p = Some k" "j_installed k"
    then obtain j where j: "heap st p = Some j" "unmarked k = unmarked j" using same by blast
    then show "job_slot (j_type k) (units st (j_unit k)) = Some p"
      using slots_okD(3) [OF w(1) j(1)] k(2) uf(1,2,4) [OF j(2)] by simp
  qed
  moreover have "queue_ok qu flag st'" if f: "queue_ok qu flag st" "qu st' = qu st"
    "\<And>j k. unmarked j = unmarked k \<Longrightarrow> flag j = flag k" "\<And>j. flag j \<Longrightarrow> j_in_run_queue j \<or> j_in_dbus_queue j \<or> j_in_gc_queue j"
    for qu and flag :: "job \<Rightarrow> bool"
  proof -
    have fl: "(\<exists>j. heap st' p = Some j \<and> flag j) \<longleftrightarrow> (\<exists>j. heap st p = Some j \<and> flag j)" for p
      using eq [of flag p] f(3,4) by blast
    have "j_installed k" if k: "heap st' p = Some k" "flag k" for p k
    proof -
      have "p \<notin> tr_set st" using new k f(4) by blast
      then obtain j where j: "heap st p = Some j" "unmarked k = unmarked j" using reduced_outside [OF assms(3) _ k(1)] by blast
      then have "flag j" using f(3) k(2) by blast
      then have "j_installed j" using f(1) j(1) by (simp add: queue_ok_def)
      then show ?thesis using uf(4) [OF j(2)] by simp
    qed
    then show ?thesis using f(1) unfolding queue_ok_def f(2) fl by blast
  qed
  note q = this
  have "queue_ok run_queue j_in_run_queue st'" "queue_ok dbus_job_queue j_in_dbus_queue st'" "queue_ok gc_job_queue j_in_gc_queue st'"
    using q [OF w(2) o(5)] q [OF w(3) o(6)] q [OF w(4) o(7)] uf(6,7,8) by blast+
  moreover have "index_ok {} st'"
    unfolding index_ok_def o(3) i(1)
  proof (intro conjI allI impI)
    show "distinct (map fst (m_jobs st))" using w(6) by (simp add: index_ok_def)
  next
    fix n p assume "(n, p) \<in> set (m_jobs st)"
    then have p: "p \<in> installed_jobs st" "j_id (job_at st p) = n" using w(6) by (auto simp: index_ok_def)
    then show "p \<in> installed_jobs st \<union> {}" by simp
    obtain j where j: "heap st p = Some j" "j_installed j" using p(1) by (auto simp: installed_jobs_def)
    then obtain k where k: "heap st' p = Some k" "unmarked k = unmarked j" using reduced_outside' [OF assms(3) old] by metis
    then show "j_id (job_at st' p) = n" using p(2) j(1) uf(5) [OF k(2)] by simp
  next
    fix p k assume k: "heap st' p = Some k" "j_installed k"
    then obtain j where j: "heap st p = Some j" "unmarked k = unmarked j" using same by blast
    then show "(j_id k, p) \<in> set (m_jobs st)" using w(6) uf(4,5) [OF j(2)] k(2) by (simp add: index_ok_def)
  qed
  ultimately show ?thesis
    using w(5) o(8) \<open>slots_ok st'\<close> by (simp add: wf_jobs_def count_ok_def i)
qed

section \<open>Between transactions\<close>

definition at_rest :: "sys \<Rightarrow> bool" where
  "at_rest st \<longleftrightarrow>
     wf_jobs {} st \<and> tr_jobs st = [] \<and> links st = [] \<and> tr_anchor st = None \<and>
     (\<forall>p j. heap st p = Some j \<longrightarrow> j_installed j \<and> p < next_job st)"

text \<open>The transaction's jobs are gone, and nothing else happened but to the marks of the walks.\<close>

definition undone :: "sys \<Rightarrow> sys \<Rightarrow> bool" where
  "undone st st' \<longleftrightarrow>
     others st' = (others st)\<lparr>tr_anchor := None\<rparr> \<and>
     (\<forall>p. map_option unmarked (heap st' p) = (if p \<in> tr_set st then None else map_option unmarked (heap st p)))"

lemma reduced_owned:
  assumes "prepared st" "reduced st st'" "heap st' q = Some k"
  shows "j_installed k \<or> q \<in> tr_set st'"
proof (cases "q \<in> tr_set st")
  case True
  then show ?thesis using reducedD(4) [OF assms(2)] assms(3) by force
next
  case False
  obtain j where j: "heap st q = Some j" "unmarked k = unmarked j" by (rule reduced_outside [OF assms(2) False assms(3)])
  then have "j_installed j" using assms(1) False by (auto simp: prepared_def)
  then show ?thesis using unmarked_fields(4) [OF j(2)] by simp
qed

lemma applicable_reduced:
  assumes "prepared st" "clean st'" "reduced st st'" "singles st'" "good_types st'"
  shows "applicable st'"
proof -
  note p = assms(1) [unfolded prepared_def] and c = cleanD [OF assms(2)] and r = reducedD [OF assms(3)]
  have w: "wf_jobs {} st'" by (rule wf_jobs_reduced [OF _ _ assms(3) c(1)]) (use p in auto)
  have "\<exists>j. heap st' q = Some j \<and> j_state j = JOB_WAITING \<and> (j_type j = JOB_NOP \<or> j_type j \<in> merging_types)"
    if q: "q \<in> tr_set st'" for q
  proof -
    obtain j k where j: "heap st q = Some j" "heap st' q = Some k" "same_request j k" using r(5) [OF q] by blast
    have "j_state (job_at st q) = JOB_WAITING" using p q r(2) by blast
    then have "j_state k = JOB_WAITING" using j by (simp add: same_request_def)
    moreover have "j_type (job_at st' q) = JOB_NOP \<or> j_type (job_at st' q) \<in> merging_types"
      using assms(5) q by (simp add: good_types_def)
    ultimately show ?thesis using j(2) by simp
  qed
  moreover have "j_installed k \<or> q \<in> tr_set st'" if "heap st' q = Some k" for q k
    by (rule reduced_owned [OF assms(1,3) that])
  ultimately show ?thesis using c(1) assms(4) w by (simp add: applicable_def)
qed

lemma tr_abort_eq:
  assumes "wf_trans {} st"
  shows "tr_abort st = st\<lparr>tr_jobs := [], links := [], heap := heap st |` (- tr_set st), tr_anchor := None\<rparr>"
  using transaction_abort_eq [OF assms] by (simp add: tr_abort_def)

text \<open>The invariant of the installed jobs does not see jobs outside the engine.\<close>

definition plain :: "job \<Rightarrow> bool" where
  "plain j \<longleftrightarrow> \<not> j_installed j \<and> \<not> j_in_run_queue j \<and> \<not> j_in_dbus_queue j \<and> \<not> j_in_gc_queue j"

lemma wf_jobs_agree:
  assumes "wf_jobs {} st" "\<And>p. p \<notin> X \<Longrightarrow> heap st' p = heap st p"
    and "\<And>p j. p \<in> X \<Longrightarrow> heap st p = Some j \<Longrightarrow> plain j" "\<And>p j. p \<in> X \<Longrightarrow> heap st' p = Some j \<Longrightarrow> plain j"
    and slots: "\<And>t u. job_slot t (units st' u) = job_slot t (units st u)"
    and "m_jobs st' = m_jobs st" "run_queue st' = run_queue st" "dbus_job_queue st' = dbus_job_queue st"
      "gc_job_queue st' = gc_job_queue st" "n_running_jobs st' = n_running_jobs st"
  shows "wf_jobs {} st'"
proof -
  note w = wf_jobsD [OF assms(1)]
  have eq: "heap st' p = Some j \<longleftrightarrow> heap st p = Some j" if "\<not> plain j" for p j
    using that assms(2-4) by (cases "p \<in> X") auto
  have inst: "heap st' p = Some j \<longleftrightarrow> heap st p = Some j" if "j_installed j" for p j
    using eq that by (simp add: plain_def)
  have i: "installed_jobs st' = installed_jobs st" "running_jobs st' = running_jobs st"
    using inst by (auto simp: installed_jobs_def running_jobs_def)
  have sl: "job_slot t (units st u) = Some p \<Longrightarrow> \<exists>j. heap st p = Some j \<and> j_installed j \<and> j_unit j = u \<and>
      (if t = JOB_NOP then j_type j = JOB_NOP else j_type j \<in> merging_types)"
    "heap st p = Some j \<Longrightarrow> j_installed j \<Longrightarrow> job_slot (j_type j) (units st (j_unit j)) = Some p" for t u p j
    using w(1) unfolding slots_ok_conv by blast+
  have "slots_ok st'"
    unfolding slots_ok_conv slots using sl inst by blast
  moreover have "queue_ok qu flag st'"
    if q: "queue_ok qu flag st" "qu st' = qu st" "\<And>j. flag j \<Longrightarrow> \<not> plain j" for qu and flag :: "job \<Rightarrow> bool"
    using q(1) eq q(3) unfolding queue_ok_def q(2) by blast
  note this [OF w(2) assms(7)] this [OF w(3) assms(8)] this [OF w(4) assms(9)]
  moreover have "index_ok {} st'"
  proof -
    have "job_at st' p = job_at st p" if p: "p \<in> installed_jobs st" for p
    proof -
      obtain j where "heap st p = Some j" "j_installed j" using p by (auto simp: installed_jobs_def)
      then show ?thesis using inst [of j p] by simp
    qed
    then show ?thesis using w(6) inst unfolding index_ok_def i assms(6) by auto
  qed
  ultimately show ?thesis using w(5) assms(10) by (simp add: wf_jobs_def count_ok_def i plain_def)
qed

lemma abort_at_rest:
  assumes "wf_trans {} st" "wf_jobs {} st" "\<And>p j. heap st p = Some j \<Longrightarrow> p < next_job st \<and> (j_installed j \<or> p \<in> tr_set st)"
  shows "at_rest (tr_abort st)"
proof -
  let ?s = "tr_abort st"
  note e = tr_abort_eq [OF assms(1)]
  have h: "heap ?s p = (if p \<in> tr_set st then None else heap st p)" for p by (simp add: e restrict_map_def)
  have "plain j" if "p \<in> tr_set st" "heap st p = Some j" for p j
    using transaction_job [OF assms(1) that(1)] that(2) by (auto simp: plain_def)
  then have "wf_jobs {} ?s"
    by (intro wf_jobs_agree [OF assms(2), of "tr_set st"]) (simp_all add: h, simp_all add: e)
  moreover have "j_installed j \<and> p < next_job ?s" if "heap ?s p = Some j" for p j
    using that assms(3) [of p j] h [of p] by (auto simp: e split: if_splits)
  ultimately show ?thesis by (simp add: at_rest_def) (simp add: e)
qed

lemma undone_abort:
  assumes "wf_trans {} st'" "reduced st st'"
  shows "undone st (tr_abort st')"
proof -
  note r = reducedD [OF assms(2)]
  have "others (tr_abort st') = (others st)\<lparr>tr_anchor := None\<rparr>"
    using othersD [OF r(1)] arg_cong [OF r(1), of private_buses] arg_cong [OF r(1), of now_usec]
      arg_cong [OF r(1), of n_failed_jobs] arg_cong [OF r(1), of tr_irreversible]
    by (intro sys.equality) (simp_all add: tr_abort_eq [OF assms(1)] others_def)
  moreover have "map_option unmarked (heap (tr_abort st') p) = (if p \<in> tr_set st then None else map_option unmarked (heap st p))" for p
  proof (cases "p \<in> tr_set st")
    case True
    then show ?thesis using r(4) [OF True] by (simp add: tr_abort_eq [OF assms(1)] restrict_map_def)
  next
    case False
    moreover have "p \<notin> tr_set st'" using False r(2) by blast
    ultimately show ?thesis using r(3) [OF False] by (simp add: tr_abort_eq [OF assms(1)])
  qed
  ultimately show ?thesis by (simp add: undone_def)
qed

lemma not_destructive:
  "destructive_jobs mode st es = Some (Inr ()) \<Longrightarrow> (u, js) \<in> set es \<Longrightarrow>
    u_job (units st (j_unit (job_at st (hd js)))) = Some q \<Longrightarrow> mode = JOB_FAIL \<or> j_irreversible (job_at st q) \<Longrightarrow>
    job_type_is_conflicting (j_type (job_at st q)) (j_type (job_at st (hd js))) = Some False"
  by (induction mode st es rule: destructive_jobs.induct)
    (auto simp: Let_def split: option.splits if_splits Option.bind_splits)

text \<open>Jobs that may not be replaced: the irreversible ones, and all of them in the mode to fail.\<close>

definition protected :: "job_mode \<Rightarrow> sys \<Rightarrow> jobp set" where
  "protected mode st = {r. \<exists>k. heap st r = Some k \<and> j_installed k \<and> (mode = JOB_FAIL \<or> j_irreversible k)}"

lemma protected_kept:
  assumes "applicable st" "transaction_is_destructive mode st = Some (Inr ())" "kept_jobs st st'" "r \<in> protected mode st"
  shows "r \<in> installed_jobs st'"
proof -
  note a = assms(1) [unfolded applicable_def]
  obtain k where k: "heap st r = Some k" "j_installed k" "mode = JOB_FAIL \<or> j_irreversible k"
    using assms(4) by (auto simp: protected_def)
  have "job_type_is_conflicting (j_type k) (j_type (job_at st (hd js))) = Some False"
    if e: "(u, js) \<in> set (tr_jobs st)" "u = j_unit k" for u js
  proof (cases "j_type k = JOB_NOP")
    case False
    have "tr_entry_ok st (u, js)" using wf_transD(2) [of "{}" st] a e(1) by blast
    then have "j_unit (job_at st (hd js)) = u" by (cases js) (auto simp: tr_entry_ok_def)
    moreover have "u_job (units st u) = Some r"
      using slots_okD(3) [OF wf_jobsD(1) k(1,2), of "{}"] a e(2) False by (simp add: job_slot_def)
    ultimately show ?thesis
      using not_destructive [OF assms(2) [unfolded transaction_is_destructive_def] e(1)] k by simp
  qed (simp add: job_type_is_conflicting_def)
  then obtain k' where "heap st' r = Some k'" "j_installed k'"
    using assms(3) k(1,2) unfolding kept_jobs_def by blast
  then show ?thesis by (simp add: installed_jobs_def)
qed

lemma settled_same_request:
  assumes "settled st u (j_type k) q" "same_request j k" "wf_jobs P st"
  shows "settled st u (j_type j) q"
proof -
  obtain x where x: "heap st q = Some x" "j_installed x" "j_unit x = u" "job_type_is_conflicting (j_type x) (j_type k) = Some False"
    using assms(1) by (auto simp: settled_def)
  show ?thesis
  proof (cases "j_type k = j_type j")
    case False
    then have m: "j_type j \<in> merging_types" "j_type k \<in> merging_types" "j_type k = JOB_STOP \<longleftrightarrow> j_type j = JOB_STOP"
      using assms(2) by (auto simp: same_request_def)
    then have n: "j_type j \<noteq> JOB_NOP" "j_type k \<noteq> JOB_NOP" by auto
    then have "job_type_is_conflicting (j_type x) (j_type j) = Some False"
      using x(4) m by (auto simp: job_type_is_conflicting_def job_type_is_mergeable_eq split: if_splits)
    then show ?thesis using assms(1) x n by (auto simp: settled_def job_slot_def)
  qed (use assms(1) in simp)
qed

definition granted :: "job_mode \<Rightarrow> sys \<Rightarrow> jobp \<Rightarrow> jobp \<times> jobp list \<Rightarrow> sys \<Rightarrow> bool" where
  "granted mode st a r st' \<longleftrightarrow>
     (let j = job_at st a in
      fst r \<in> set (snd r) \<and> settled st' (j_unit j) (j_type j) (fst r) \<and>
      (mode \<notin> {JOB_ISOLATE, JOB_FLUSH} \<longrightarrow> protected mode st \<subseteq> installed_jobs st'))"

text \<open>
  A transaction is declined for one of two reasons.  Some part of it meets an obstacle, and then
  it leaves no trace; or two jobs have the same number, and then the jobs that were cancelled to
  isolate the unit stay cancelled.
\<close>

definition declined :: "job_mode \<Rightarrow> sys \<Rightarrow> err \<Rightarrow> sys \<Rightarrow> bool" where
  "declined mode st e st' \<longleftrightarrow>
     e = EDEADLK \<and> undone st st' \<and> (\<exists>s. clean s \<and> reduced st s \<and> obstacle mode s) \<or>
     e = EEXIST \<and> clash st \<and> (mode \<notin> {JOB_ISOLATE, JOB_FLUSH} \<longrightarrow> undone st st')"

lemma reduced_ids:
  assumes "wf_trans {} st" "reduced st s"
  shows "ids_from st s"
  unfolding ids_from_def
proof (intro allI impI)
  fix p k assume k: "heap s p = Some k"
  show "\<exists>j. heap st p = Some j \<and> j_id j = j_id k"
  proof (cases "p \<in> tr_set st")
    case True
    then have "p \<in> tr_set s" using reducedD(4) [OF assms(2)] k by force
    then show ?thesis using reducedD(5) [OF assms(2)] k by (force simp: same_request_def)
  next
    case False
    obtain j where "heap st p = Some j" "unmarked k = unmarked j" by (rule reduced_outside [OF assms(2) False k])
    then show ?thesis using unmarked_fields(5) [of k j] by simp
  qed
qed

lemma activate_or_abort_result:
  assumes "quiet hk" "prepared st" "tr_anchor st = Some a" "a \<in> tr_set st"
  shows "\<exists>r st'. activate_or_abort hk mode st = Some (r, st') \<and> at_rest st' \<and>
    (case r of Inl e \<Rightarrow> declined mode st e st' | Inr r \<Rightarrow> granted mode st a r st')"
proof -
  note pr = preparedD [OF assms(2)] and p = assms(2) [unfolded prepared_def]
  have bound: "x < next_job st'" if "clean st'" "heap st' x = Some j" for st' x j using cleanD(4) [OF that(1), of x] that(2) by simp
  from pr assms(3,4) show ?thesis
  proof (cases rule: activate_outcome [of st a hk mode])
    case (refused st')
    note c = cleanD(1) [OF refused(2)]
    have w: "wf_jobs {} st'" by (rule wf_jobs_reduced [OF _ _ refused(3) c]) (use p in auto)
    have "at_rest (tr_abort st')"
    proof (rule abort_at_rest [OF c w])
      fix x j assume x: "heap st' x = Some j"
      show "x < next_job st' \<and> (j_installed j \<or> x \<in> tr_set st')"
        using bound [OF refused(2) x] reduced_owned [OF assms(2) refused(3) x] by simp
    qed
    moreover have "undone st (tr_abort st')" by (rule undone_abort [OF c refused(3)])
    ultimately show ?thesis using refused(1-4) by (auto simp: activate_or_abort_def declined_def)
  next
    case (applied s)
    have a: "applicable s" by (rule applicable_reduced [OF assms(2) applied(1-4)])
    obtain s0 where s0: "applicable s0" "frame s s0" "mode \<notin> {JOB_ISOLATE, JOB_FLUSH} \<longrightarrow> s0 = s" "ids_from s s0"
        "if fresh_ids s0 then \<exists>affected st'. transaction_apply hk mode s = Some (Inr affected, st') \<and> committed s0 affected st'
         else transaction_apply hk mode s = Some (Inl EEXIST, s0)"
      using transaction_apply_result [OF assms(1) a] by blast
    note f = frameD [OF s0(2)] and o = othersD [OF reducedD(1) [OF applied(2)]]
    have b0: "x < next_job s0" if x: "heap s0 x = Some j" for x j
    proof (cases "heap s x")
      case None
      then have "x \<notin> installed_jobs s" by (simp add: installed_jobs_def)
      then show ?thesis using f(1) x None by simp
    next
      case (Some k)
      then show ?thesis using bound [OF applied(1)] f(7) by simp
    qed
    show ?thesis
    proof (cases "fresh_ids s0")
      case False
      then have t: "transaction_activate hk mode st = Some (Inl EEXIST, s0)" using s0(5) applied(7) by auto
      have "at_rest (tr_abort s0)"
        by (rule abort_at_rest) (use s0(1) b0 in \<open>auto simp: applicable_def\<close>)
      moreover have "undone st (tr_abort s0)" if "mode \<notin> {JOB_ISOLATE, JOB_FLUSH}"
        using undone_abort [OF _ applied(2)] s0(3) a that by (auto simp: applicable_def)
      moreover have "clash st"
        using clash_from [OF fresh_or_clash [OF s0(1) False]] ids_from_trans [OF reduced_ids [OF _ applied(2)] s0(4)] p by blast
      ultimately show ?thesis using t by (auto simp: activate_or_abort_def declined_def)
    next
      case True
      then obtain aff st' where ap: "transaction_apply hk mode s = Some (Inr aff, st')" "committed s0 aff st'"
        using s0(5) by auto
      note cm = ap(2) [unfolded committed_def]
      have as: "a \<in> tr_set s" "tr_anchor s0 = Some a" "tr_jobs s0 = tr_jobs s" using applied(5) assms(3) o(4) f(5,6) by (auto simp: has_anchor_def)
      obtain u js where e: "(u, js) \<in> set (tr_jobs s)" "a \<in> set js" using as(1) by (auto simp: tr_set_def)
      then have js: "js = [a]" using applied(3) by (cases js) (auto simp: singles_def)
      obtain q where q: "q \<in> set aff" "settled st' u (j_type (job_at s0 a)) q" "tr_anchor st' = Some q"
        using cm e(1) js as(2,3) by fastforce
      have "a \<notin> installed_jobs s" using transaction_not_installed [OF cleanD(1) [OF applied(1)] as(1)] .
      then have h0: "heap s0 a = heap s a" using f(1) by simp
      obtain j k where j: "heap st a = Some j" "heap s a = Some k" "same_request j k"
        using reducedD(5) [OF applied(2) as(1)] by blast
      have "tr_entry_ok s (u, js)" using wf_transD(2) [OF cleanD(1) [OF applied(1)] e(1)] .
      then have "j_unit k = u" using js j(2) by (simp add: tr_entry_ok_def)
      then have "j_unit j = u" using j(3) by (simp add: same_request_def)
      moreover have "settled st' u (j_type j) q"
        using settled_same_request [of st' u k q j "{}"] q(2) h0 j(2,3) cm by simp
      moreover have "r \<in> installed_jobs st'" if md: "mode \<notin> {JOB_ISOLATE, JOB_FLUSH}" and r: "r \<in> protected mode st" for r
      proof -
        obtain x where x: "heap st r = Some x" "j_installed x" "mode = JOB_FAIL \<or> j_irreversible x"
          using r by (auto simp: protected_def)
        then have "r \<notin> tr_set st" using transaction_not_installed [of st r] p by (auto simp: installed_jobs_def)
        then obtain y where y: "heap s r = Some y" "unmarked y = unmarked x" by (rule reduced_outside' [OF applied(2) _ x(1)])
        then have "r \<in> protected mode s" using x(2,3) unmarked_fields(4,9) [OF y(2)] by (simp add: protected_def)
        then show ?thesis using protected_kept [OF a applied(6)] cm s0(3) md by simp
      qed
      moreover have "at_rest (st'\<lparr>tr_anchor := None\<rparr>)"
        using cm b0 by (auto simp: at_rest_def) (metis option.exhaust option.simps(3))
      moreover have "activate_or_abort hk mode st = Some (Inr (q, aff), st'\<lparr>tr_anchor := None\<rparr>)"
        using ap(1) applied(7) cm q(3) by (simp add: activate_or_abort_def)
      moreover have "settled (st'\<lparr>tr_anchor := None\<rparr>) v t r = settled st' v t r"
          "installed_jobs (st'\<lparr>tr_anchor := None\<rparr>) = installed_jobs st'" for v t r
        by (simp_all add: settled_def installed_jobs_def)
      ultimately show ?thesis using j(1) q(1) by (auto simp: granted_def Let_def)
    qed
  qed
qed

section \<open>The properties\<close>

text \<open>
  C27.  Applying a transaction is one step from one well formed state to another.  Let the
  transaction be merged, with one waiting job for each of its units, and let the invariant of the
  installed jobs hold.  Then no assertion fails and no loop runs out of fuel, whatever the mode.
  First the modes that isolate cancel jobs that are not part of the transaction (\<open>frame\<close>), which
  keeps all that was assumed.  If two jobs then have the same number, the table of jobs is put back
  as it was and the caller gets \<open>-EEXIST\<close>.  Otherwise the transaction is empty afterwards, the
  invariant holds, every job that is left is installed, and for every unit of the transaction the
  affected jobs contain one that is installed in the unit, is queued to run and does not conflict
  with what was asked for; the anchor becomes the job of its unit.  Units outside the transaction
  keep their jobs, and so does every unit whose installed job does not conflict with the new one.
\<close>

theorem transaction_apply_commits:
  assumes "quiet hk" "applicable st"
  shows "\<exists>s0 r st'. transaction_apply hk mode st = Some (r, st') \<and>
    applicable s0 \<and> frame st s0 \<and> (mode \<notin> {JOB_ISOLATE, JOB_FLUSH} \<longrightarrow> s0 = st) \<and>
    (case r of Inr affected \<Rightarrow> committed s0 affected st' | Inl e \<Rightarrow> e = EEXIST \<and> clash s0 \<and> st' = s0)"
proof -
  obtain s0 where s0: "applicable s0" "frame st s0" "mode \<notin> {JOB_ISOLATE, JOB_FLUSH} \<longrightarrow> s0 = st"
      "if fresh_ids s0 then \<exists>affected st'. transaction_apply hk mode st = Some (Inr affected, st') \<and> committed s0 affected st'
       else transaction_apply hk mode st = Some (Inl EEXIST, s0)"
    using transaction_apply_result [OF assms] by blast
  show ?thesis
  proof (cases "fresh_ids s0")
    case True
    then obtain affected st' where "transaction_apply hk mode st = Some (Inr affected, st')" "committed s0 affected st'"
      using s0(4) by auto
    then show ?thesis using s0(1-3) by (intro exI [of _ s0] exI [of _ "Inr affected"] exI [of _ st']) simp
  next
    case False
    then show ?thesis using s0 fresh_or_clash [OF s0(1) False]
      by (intro exI [of _ s0] exI [of _ "Inl EEXIST"] exI [of _ s0]) simp
  qed
qed

text \<open>A stop of unit 22 has been asked for, which has a start job.\<close>

definition ex_stop :: sys where
  "ex_stop = ex_jobs
     \<lparr>heap := (heap ex_jobs)(14 \<mapsto> (plain_job 22 JOB_STOP)\<lparr>j_id := 14\<rparr>), next_job := 15, current_job_id := 15,
      tr_jobs := [(22, [14])], tr_anchor := Some 14\<rparr>"

lemma ex_stop_heap:
  "heap ex_stop p \<noteq> None \<longleftrightarrow> p \<in> {11, 12, 13, 14}" "heap ex_stop 14 = Some ((plain_job 22 JOB_STOP)\<lparr>j_id := 14\<rparr>)"
  "p \<noteq> 14 \<Longrightarrow> heap ex_stop p = heap ex_jobs p" "tr_set ex_stop = {14}" "tr_jobs ex_stop = [(22, [14])]"
  by (auto simp: ex_stop_def ex_jobs_def tr_set_def)

lemma ex_jobs_numbers:
  assumes "heap ex_jobs p = Some j"
  shows "p \<in> {11, 12, 13}" "j_id j = word_of_nat p" "j_installed j" "j_generation j = 0"
  using assms by (auto simp: ex_jobs_def plain_job_def split: if_splits)

lemma prepared_ex_stop: "prepared ex_stop"
proof -
  have "wf_jobs {} ex_stop"
    by (rule wf_jobs_agree [OF wf_ex_jobs, of "{14}"])
      (auto simp: ex_stop_heap plain_def plain_job_def dest: ex_jobs_numbers(1), simp_all add: ex_stop_def)
  moreover have "links ex_stop = []" "next_job ex_stop = 15" by (simp_all add: ex_stop_def ex_jobs_def idle_sys_def)
  then have "wf_trans {} ex_stop"
    by (simp add: wf_trans_def wf_links_def ex_stop_heap tr_entry_ok_def plain_job_def)
  moreover have "p < 15 \<and> (j_installed j \<or> p \<in> tr_set ex_stop)" if j: "heap ex_stop p = Some j" for p j
  proof (cases "p = 14")
    case False
    then have "heap ex_jobs p = Some j" using j ex_stop_heap(3) by simp
    from ex_jobs_numbers(1,3) [OF this] show ?thesis by auto
  qed (simp add: ex_stop_heap)
  ultimately show ?thesis
    using \<open>next_job ex_stop = 15\<close> by (simp add: prepared_def mergeable_types_def ex_stop_heap plain_job_def merging_types_def)
qed

lemma no_clash_ex_stop: "\<not> clash ex_stop"
proof -
  have "j_id j = word_of_nat p \<and> p \<in> {11, 12, 13, 14}" if "heap ex_stop p = Some j" for p j
    using that ex_jobs_numbers(1,2) [of p j] ex_stop_heap(2,3) by (cases "p = 14") auto
  moreover have "p = q" if "p \<in> {11, 12, 13, 14}" "q \<in> {11, 12, 13, 14}" "word_of_nat p = (word_of_nat q :: u32)" for p q
    using that by auto
  ultimately show ?thesis unfolding clash_def by metis
qed

lemma applicable_ex_stop: "applicable ex_stop"
  using prepared_ex_stop
  by (auto simp: prepared_def applicable_def singles_def ex_stop_heap)

theorem transaction_apply_commits_witness:
  "\<exists>affected st'. transaction_apply idle_hooks JOB_REPLACE ex_stop = Some (Inr affected, st') \<and>
     wf_jobs {} st' \<and> (\<exists>q \<in> set affected. settled st' 22 JOB_STOP q)"
proof -
  obtain r st' where r: "transaction_apply idle_hooks JOB_REPLACE ex_stop = Some (r, st')"
      "case r of Inr affected \<Rightarrow> committed ex_stop affected st' | Inl e \<Rightarrow> e = EEXIST \<and> clash ex_stop \<and> st' = ex_stop"
    using transaction_apply_commits [OF quiet_idle applicable_ex_stop, of JOB_REPLACE] by auto
  then obtain affected where a: "r = Inr affected" "committed ex_stop affected st'"
    using no_clash_ex_stop by (cases r) auto
  have "\<exists>q \<in> set affected. settled st' 22 JOB_STOP q"
    using a(2) by (auto simp: committed_def ex_stop_heap plain_job_def)
  then show ?thesis using r(1) a by (auto simp: committed_def)
qed



end
