(* ===== verification/Manager_Request.thy ===== *)
theory Manager_Request
  imports Transaction_Commit
begin

text \<open>
  A request from beginning to end: \<open>manager_add_job\<close> of \<open>src/core/manager.c\<close> builds a transaction,
  activates it, and takes it back when it is refused.  Between two requests the manager is at rest:
  no transaction is open and the invariant of the installed jobs holds.
\<close>

section \<open>What building leaves behind\<close>

text \<open>Loading a unit does not touch the jobs that are installed for it.\<close>

definition keeps_slots :: "loader \<Rightarrow> bool" where
  "keeps_slots ld \<longleftrightarrow>
     (\<forall>st u b v. ld st u = Some (b, v) \<longrightarrow> u_job v = u_job (units st u) \<and> u_nop_job v = u_nop_job (units st u))"

definition same_slots :: "sys \<Rightarrow> sys \<Rightarrow> bool" where
  "same_slots st st' \<longleftrightarrow>
     (\<forall>u. u_job (units st' u) = u_job (units st u) \<and> u_nop_job (units st' u) = u_nop_job (units st u))"

text \<open>The jobs of the transaction are as \<open>transaction_add_one_job\<close> made them, with types in \<open>T\<close>.\<close>

definition raw :: "job_type set \<Rightarrow> sys \<Rightarrow> bool" where
  "raw T st \<longleftrightarrow>
     (\<forall>p \<in> tr_set st. \<exists>j. heap st p = Some j \<and> j_state j = JOB_WAITING \<and> j_generation j = 0 \<and> j_type j \<in> T)"

lemma same_slots_refl: "same_slots st st"
  by (simp add: same_slots_def)

lemma same_slots_trans: "same_slots st s \<Longrightarrow> same_slots s st' \<Longrightarrow> same_slots st st'"
  by (simp add: same_slots_def)

lemma same_slots_check_unit:
  assumes "keeps_slots ld"
  shows "same_slots st (snd (check_unit ld t u st))"
  using check_unit_state [of ld t u st] assms
  by (auto simp: same_slots_def keeps_slots_def upd_unit_def)

lemma new_job_fields:
  assumes "wf_build st" "transaction_add_one_job t u st = (p, is_new, s)" "p \<notin> tr_set st"
  shows "\<exists>j. heap s p = Some j \<and> j_state j = JOB_WAITING \<and> j_generation j = 0 \<and> j_type j = t"
proof (cases "find (\<lambda>p. j_type (job_at st p) = t) (tr_get st u)")
  case None
  note new = add_new_job [OF assms(1) None]
  show ?thesis using new(1,2) assms(2) by auto
next
  case (Some q)
  then have "p \<in> set (tr_get st u)" using find_SomeD [OF Some] assms(2) Some by (simp add: transaction_add_one_job_def)
  then show ?thesis using tr_get_in [of "{}" st u] assms(1,3) by (auto simp: wf_build_def)
qed

lemma add_linked_raw:
  assumes "wf_build st" "\<And>k. by = Some k \<Longrightarrow> k \<in> tr_set st"
    and "add_linked_job t u by m c io st = Some (p, is_new, s)" "raw T st" "t \<in> T"
  shows "raw T s"
  unfolding raw_def
proof
  note l = add_linked_job_wf [OF assms(1-3)]
  fix q assume q: "q \<in> tr_set s"
  show "\<exists>j. heap s q = Some j \<and> j_state j = JOB_WAITING \<and> j_generation j = 0 \<and> j_type j \<in> T"
  proof (cases "q \<in> tr_set st")
    case True
    then obtain j where j: "heap st q = Some j" "j_state j = JOB_WAITING" "j_generation j = 0" "j_type j \<in> T"
      using assms(4) by (auto simp: raw_def)
    then obtain b where "heap s q = Some (j\<lparr>j_ignore_order := b\<rparr>)" using l(2) unfolding extends_def by blast
    then show ?thesis using j by simp
  next
    case False
    then have qp: "q = p" using q l(4) by simp
    obtain s0 n0 where 0: "transaction_add_one_job t u st = (p, n0, s0)"
        "heap s = heap (upd_job p (\<lambda>j. j\<lparr>j_ignore_order := j_ignore_order j \<or> io\<rparr>) s0)"
      using assms(3)
      by (auto simp: add_linked_job_def Let_def job_dependency_new_def split: option.splits if_splits prod.splits)
    obtain j where "heap s0 p = Some j" "j_state j = JOB_WAITING" "j_generation j = 0" "j_type j = t"
      using new_job_fields [OF assms(1) 0(1)] False qp by blast
    then show ?thesis using 0(2) qp assms(5) by simp
  qed
qed

definition typed_pulls :: "job_type set \<Rightarrow> pull list \<Rightarrow> bool" where
  "typed_pulls T pulls \<longleftrightarrow> (\<forall>(tus, i, m, c) \<in> set pulls. \<forall>(t, u) \<in> set tus. t \<in> T)"

text \<open>Jobs of the types \<open>T\<close> only pull in jobs of these types.\<close>

definition closed_types :: "job_type set \<Rightarrow> bool" where
  "closed_types T \<longleftrightarrow> T \<subseteq> merging_types \<and> (\<forall>st t u. t \<in> T \<longrightarrow> typed_pulls T (dep_pulls st t u))"

lemma closed_merging: "closed_types merging_types"
  by (auto simp: closed_types_def typed_pulls_def dep_pulls_def collapsed_def Let_def merging_types_def split: if_splits)

lemma closed_stop: "closed_types {JOB_STOP}"
  by (auto simp: closed_types_def typed_pulls_def dep_pulls_def collapsed_def Let_def merging_types_def split: if_splits)

definition build_post :: "job_type set \<Rightarrow> jobp option \<Rightarrow> unitp \<Rightarrow> job_type \<Rightarrow> sys \<Rightarrow> err + unit \<Rightarrow> sys \<Rightarrow> bool" where
  "build_post T by u t st r st' \<longleftrightarrow>
     raw T st' \<and> same_slots st st' \<and> (by \<noteq> None \<longrightarrow> tr_anchor st' = tr_anchor st) \<and>
     (by = None \<longrightarrow> r = Inr () \<longrightarrow>
        (\<exists>a \<in> tr_set st'. tr_anchor st' = Some a \<and> (\<exists>j. heap st' a = Some j \<and> j_unit j = u \<and> j_type j = t)))"

lemma add_job_raw:
  assumes "closed_types T"
  shows "transaction_add_job_and_dependencies n ld t u by m c ir io st = Some (r, st') \<Longrightarrow> wf_build st \<Longrightarrow>
    (\<And>k. by = Some k \<Longrightarrow> k \<in> tr_set st) \<Longrightarrow> keeps_slots ld \<Longrightarrow> raw T st \<Longrightarrow> t \<in> T \<Longrightarrow>
    build_post T by u t st r st'"
  "add_pulls n ld pulls p io st = Some (r, st') \<Longrightarrow> wf_build st \<Longrightarrow> p \<in> tr_set st \<Longrightarrow> keeps_slots ld \<Longrightarrow>
    raw T st \<Longrightarrow> typed_pulls T pulls \<Longrightarrow>
    raw T st' \<and> same_slots st st' \<and> tr_anchor st' = tr_anchor st"
proof (induction n ld t u "by" m c ir io st and n ld pulls p io st arbitrary: r st' and r st'
    rule: transaction_add_job_and_dependencies_add_pulls.induct)
  case (2 n ld t u "by" m c ir io st)
  obtain f s where s: "check_unit ld t u st = (f, s)" by (cases "check_unit ld t u st")
  obtain g where g: "s = upd_unit u g st" using check_unit_upd [of ld t u st] s by auto
  have ws: "wf_build s" "tr_set s = tr_set st" "raw T s" "tr_anchor s = tr_anchor st"
    using "2.prems"(2,5) by (simp_all add: g wf_build_upd_unit raw_def)
  have sl: "same_slots st s" using same_slots_check_unit [OF "2.prems"(4), of st t u] s by simp
  have t: "\<not> JOB_TYPE_MAX_IN_TRANSACTION \<le> job_type_value t" using "2.prems"(6) type_in_transaction assms unfolding closed_types_def by blast
  show ?case
  proof (cases f)
    case (Inl e)
    then show ?thesis using "2.prems"(1) s ws sl by (auto simp: build_post_def split: if_splits)
  next
    case (Inr x)
    then obtain p is_new s1 where add: "add_linked_job t u by m c io s = Some (p, is_new, s1)"
      using "2.prems"(1) s by (auto split: if_splits simp: bind_eq_Some_conv)
    have byk: "k \<in> tr_set s" if "by = Some k" for k using "2.prems"(3) that ws(2) by simp
    note l = add_linked_job_wf [OF ws(1) byk add]
    have r1: "raw T s1" by (rule add_linked_raw [OF ws(1) byk add ws(3) "2.prems"(6)])
    have sl1: "same_slots st s1" using sl l(8) by (simp add: same_slots_def)
    have pulls: "typed_pulls T (dep_pulls s1 t u)" using assms "2.prems"(6) by (simp add: closed_types_def)
    show ?thesis
    proof (cases "is_new \<and> \<not> ir \<and> t \<noteq> JOB_NOP")
      case True
      then have a: "add_pulls n ld (dep_pulls s1 t u) p io s1 = Some (r, st')"
        using "2.prems"(1) s Inr add by (auto split: if_splits)
      then have "raw T st' \<and> same_slots s1 st' \<and> tr_anchor st' = tr_anchor s1"
        using "2.IH" [OF t _ _ _ _ _ _ a l(1,3) "2.prems"(4) r1 pulls] s Inr add True by simp
      moreover have e: "extends s1 st'" using add_job_extends(2) [OF a l(1,3)] by blast
      obtain j where j: "heap s1 p = Some j" "j_unit j = u" "j_type j = t" using l(9) by blast
      then obtain b where "heap st' p = Some (j\<lparr>j_ignore_order := b\<rparr>)" using e unfolding extends_def by blast
      then have "\<exists>j. heap st' p = Some j \<and> j_unit j = u \<and> j_type j = t" using j by simp
      ultimately show ?thesis
        using same_slots_trans [OF sl1] l(10) extends_tr_set [OF e l(3)] ws(4) by (auto simp: build_post_def)
    next
      case False
      then have "st' = s1" using "2.prems"(1) s Inr add by (auto split: if_splits)
      then show ?thesis using r1 sl1 l(3,9,10) ws(4) by (auto simp: build_post_def)
    qed
  qed
next
  case (5 n ld t u tus ignored m c pulls p io st)
  have t: "t \<in> T" "typed_pulls T ((tus, ignored, m, c) # pulls)"
    using "5.prems"(6) by (auto simp: typed_pulls_def)
  obtain r1 s1 where a: "transaction_add_job_and_dependencies n ld t u (Some p) m c False io st = Some (r1, s1)"
    using "5.prems"(1) by (auto simp: bind_eq_Some_conv)
  have s1: "wf_build s1" "extends st s1" using add_job_extends(1) [OF a "5.prems"(2)] "5.prems"(3) by auto
  have b1: "raw T s1" "same_slots st s1" "tr_anchor s1 = tr_anchor st"
    using "5.IH"(1) [OF a "5.prems"(2) _ "5.prems"(4,5) t(1)] "5.prems"(3) by (auto simp: build_post_def)
  have p: "p \<in> tr_set s1" using extends_tr_set [OF s1(2) "5.prems"(3)] .
  show ?case
  proof (cases "add_pulls n ld ((tus, ignored, m, c) # pulls) p io s1 = Some (r, st')")
    case True
    have "raw T st' \<and> same_slots s1 st' \<and> tr_anchor st' = tr_anchor s1"
    proof (cases r1)
      case (Inr x)
      show ?thesis using "5.IH"(3) [OF a refl Inr True s1(1) p "5.prems"(4) b1(1) t(2)] .
    next
      case (Inl e)
      show ?thesis
      proof (cases "ignored \<or> e = EBADR")
        case ig: True
        show ?thesis using "5.IH"(2) [OF a refl Inl ig True s1(1) p "5.prems"(4) b1(1) t(2)] .
      next
        case False
        then have "st' = s1" using "5.prems"(1) a Inl by simp
        then show ?thesis using b1(1) same_slots_refl by simp
      qed
    qed
    then show ?thesis using same_slots_trans [OF b1(2)] b1(3) by auto
  next
    case False
    then have "st' = s1" using "5.prems"(1) a by (auto split: sum.splits if_splits)
    then show ?thesis using b1 by simp
  qed
next
  case (4 n ld ignored m c pulls p io st)
  then show ?case by (simp add: typed_pulls_def)
qed (auto simp: same_slots_refl)

section \<open>Building on a manager at rest\<close>

lemma rest_new:
  assumes "at_rest st" "s = transaction_new irr st"
  shows "wf_build s" "raw T s" "tr_set s = {}" "tr_anchor s = None" "wf_jobs {} s" "heap s = heap st" "units s = units st"
    "m_jobs s = m_jobs st" "run_queue s = run_queue st" "dbus_job_queue s = dbus_job_queue st"
    "gc_job_queue s = gc_job_queue st" "n_running_jobs s = n_running_jobs st" "next_job s = next_job st"
proof -
  note r = assms(1) [unfolded at_rest_def]
  show v: "heap s = heap st" "units s = units st" "m_jobs s = m_jobs st" "run_queue s = run_queue st"
    "dbus_job_queue s = dbus_job_queue st" "gc_job_queue s = gc_job_queue st" "n_running_jobs s = n_running_jobs st"
    "next_job s = next_job st" and t: "tr_set s = {}" "tr_anchor s = None"
    by (simp_all add: assms(2) transaction_new_def tr_set_def)
  show "wf_jobs {} s" by (rule wf_jobs_agree [of st "{}"]) (use r v in auto)
  have "tr_jobs s = []" "links s = []" using r by (simp_all add: assms(2) transaction_new_def)
  then show "wf_build s" using r v by (auto simp: wf_build_def wf_trans_def wf_links_def)
  show "raw T s" by (simp add: raw_def t)
qed

lemma built_outside:
  assumes "at_rest st" "extends (transaction_new irr st) st'" "wf_build st'"
  shows "p \<notin> tr_set st' \<Longrightarrow> heap st' p = heap st p" "p \<in> tr_set st' \<Longrightarrow> heap st p = None"
proof -
  note n = rest_new [OF assms(1) refl [of "transaction_new irr st"]]
  have ex: "\<exists>b. heap st' p = Some (j\<lparr>j_ignore_order := b\<rparr>) \<and> (p \<notin> tr_set st' \<longrightarrow> b = j_ignore_order j)" if "heap st p = Some j" for j
    using assms(2) that n(6) unfolding extends_def by auto
  show "heap st' p = heap st p" if "p \<notin> tr_set st'"
  proof (cases "heap st p")
    case None
    have "heap st p = None \<longrightarrow> heap st' p \<noteq> None \<longrightarrow> p \<in> tr_set st'"
      using assms(2) n(6) unfolding extends_def by simp
    then show ?thesis using None that by metis
  next
    case (Some j)
    then show ?thesis using ex [OF Some] that by auto
  qed
  show "heap st p = None" if p: "p \<in> tr_set st'"
  proof (rule ccontr)
    assume "heap st p \<noteq> None"
    then obtain j where j: "heap st p = Some j" by auto
    then have "j_installed j" using assms(1) by (auto simp: at_rest_def)
    moreover obtain k where "heap st' p = Some k" "\<not> j_installed k"
      using transaction_job [of st' p] p assms(3) by (auto simp: wf_build_def)
    ultimately show False using ex [OF j] by auto
  qed
qed

lemma built_prepared:
  assumes "at_rest st" "extends (transaction_new irr st) st'" "wf_build st'" "same_slots (transaction_new irr st) st'"
    and "raw T st'" "T \<subseteq> insert JOB_NOP merging_types" "mergeable_types st'"
  shows "prepared st'"
proof -
  note n = rest_new [OF assms(1) refl [of "transaction_new irr st"]] and o = built_outside [OF assms(1-3)]
  have w: "wf_trans {} st'" using assms(3) by (simp add: wf_build_def)
  have pl: "plain j" if "p \<in> tr_set st'" "heap st' p = Some j" for p j
    using transaction_job [OF w that(1)] that(2) by (auto simp: plain_def)
  have sl: "job_slot t (units st' u) = job_slot t (units (transaction_new irr st) u)" for t u
    using assms(4) by (simp add: same_slots_def job_slot_def)
  have e: "m_jobs st' = m_jobs (transaction_new irr st)" "run_queue st' = run_queue (transaction_new irr st)"
    "dbus_job_queue st' = dbus_job_queue (transaction_new irr st)" "gc_job_queue st' = gc_job_queue (transaction_new irr st)"
    "n_running_jobs st' = n_running_jobs (transaction_new irr st)"
    using assms(2) by (simp_all add: extends_def)
  have "wf_jobs {} st'"
    by (rule wf_jobs_agree [OF n(5), of "tr_set st'"]) (use o n(6) pl sl e in auto)
  moreover have "p < next_job st' \<and> (j_installed j \<or> p \<in> tr_set st')" if p: "heap st' p = Some j" for p j
  proof (cases "p \<in> tr_set st'")
    case False
    then have "heap st p = Some j" using o(1) p by simp
    then show ?thesis using assms(1,3) p by (auto simp: at_rest_def wf_build_def)
  qed (use assms(3) p in \<open>auto simp: wf_build_def\<close>)
  moreover have "j_state (job_at st' p) = JOB_WAITING \<and> j_generation (job_at st' p) = 0 \<and>
      (j_type (job_at st' p) = JOB_NOP \<or> j_type (job_at st' p) \<in> merging_types)" if "p \<in> tr_set st'" for p
    using bspec [OF assms(5) [unfolded raw_def] that] assms(6) by auto
  ultimately show ?thesis using w assms(7) by (simp add: prepared_def)
qed

lemma raw_mergeable: "raw merging_types st \<Longrightarrow> mergeable_types st"
  using tr_setI by (fastforce simp: raw_def mergeable_types_def)


lemma collapse_in_types: "job_type_collapse t s \<in> insert JOB_NOP merging_types"
  by (cases "(t, s)" rule: job_type_collapse.cases) (simp_all add: merging_types_def)

lemma in_types_merging: "in_types = insert JOB_NOP merging_types"
  by (auto simp: in_types_def merging_types_def)

text \<open>The state \<open>st\<close> on the way from \<open>s\<close>, with the job of type \<open>t\<close> for the unit \<open>u\<close> as its anchor.\<close>

definition built :: "unitp set \<Rightarrow> sys \<Rightarrow> jobp \<Rightarrow> unitp \<Rightarrow> job_type \<Rightarrow> sys \<Rightarrow> bool" where
  "built U s a u t st \<longleftrightarrow>
     wf_build st \<and> extends s st \<and> same_slots s st \<and> within U st \<and> tr_anchor st = Some a \<and> a \<in> tr_set st \<and>
     (\<exists>j. heap st a = Some j \<and> j_unit j = u \<and> j_type j = t)"

lemma built_step:
  assumes "finite U" "loader_in U ld" "keeps_slots ld" "6 * card U < n" "v \<in> U" "built U s a u t st" "raw merging_types st"
  shows "\<exists>r st'. transaction_add_job_and_dependencies n ld JOB_STOP v (tr_anchor st) True False False False st = Some (r, st') \<and>
    built U s a u t st' \<and> raw merging_types st'"
proof -
  note b = assms(6) [unfolded built_def]
  have m: "missing U st < n" using missing_le [OF assms(1), of st] assms(4) by simp
  have by_tr: "k \<in> tr_set st" if "Some a = Some k" for k using b that by simp
  obtain r st' where st': "transaction_add_job_and_dependencies n ld JOB_STOP v (Some a) True False False False st = Some (r, st')"
      "within U st'"
    using add_job_total(1) [OF assms(1,2), of st "Some a" JOB_STOP v n True False False False] b by_tr m assms(5)
    by (auto simp: in_types_def)
  have e: "wf_build st'" "extends st st'" using add_job_extends(1) [OF st'(1)] b by_tr by blast+
  have "build_post merging_types (Some a) v JOB_STOP st r st'"
    using add_job_raw(1) [OF closed_merging st'(1) _ by_tr assms(3,7)] b by (simp add: merging_types_def)
  then have p: "raw merging_types st'" "same_slots st st'" "tr_anchor st' = tr_anchor st" by (simp_all add: build_post_def)
  obtain j where j: "heap st a = Some j" "j_unit j = u" "j_type j = t" using b by blast
  then obtain c where "heap st' a = Some (j\<lparr>j_ignore_order := c\<rparr>)" using e(2) unfolding extends_def by blast
  then have "built U s a u t st'"
    using b e p st'(2) j extends_trans [of s st st'] same_slots_trans [of s st st'] extends_tr_set [OF e(2)]
    by (simp add: built_def)
  then show ?thesis using st'(1) p(1) b by simp
qed

lemma isolate_built:
  assumes "finite U" "loader_in U ld" "keeps_slots ld" "6 * card U < n" "set us \<subseteq> U" "built U s a u t st" "raw merging_types st"
  shows "\<exists>st'. add_isolate_jobs n ld us st = Some st' \<and> built U s a u t st' \<and> raw merging_types st'"
  using assms(5-7)
proof (induction us arbitrary: st)
  case (Cons v us)
  obtain r s1 where s1: "transaction_add_job_and_dependencies n ld JOB_STOP v (tr_anchor st) True False False False st = Some (r, s1)"
      "built U s a u t s1" "raw merging_types s1"
    using built_step [OF assms(1-4) _ Cons.prems(2,3), of v] Cons.prems(1) by auto
  have "\<exists>st'. add_isolate_jobs n ld us s1 = Some st' \<and> built U s a u t st' \<and> raw merging_types st'"
    "\<exists>st'. add_isolate_jobs n ld us st = Some st' \<and> built U s a u t st' \<and> raw merging_types st'"
    using Cons.IH [OF _ s1(2,3)] Cons.IH [OF _ Cons.prems(2,3)] Cons.prems(1) by simp_all
  then show ?case using s1(1) by (simp del: transaction_add_job_and_dependencies.simps)
qed simp

lemma triggering_built:
  assumes "finite U" "loader_in U ld" "keeps_slots ld" "6 * card U < n" "set us \<subseteq> U" "built U s a u t st" "raw merging_types st"
  shows "\<exists>st'. add_triggering_jobs n ld us st = Some st' \<and> built U s a u t st' \<and> raw merging_types st'"
  using assms(5-7)
proof (induction us arbitrary: st)
  case (Cons v us)
  obtain r s1 where s1: "transaction_add_job_and_dependencies n ld JOB_STOP v (tr_anchor st) True False False False st = Some (r, s1)"
      "built U s a u t s1" "raw merging_types s1"
    using built_step [OF assms(1-4) _ Cons.prems(2,3), of v] Cons.prems(1) by auto
  have "\<exists>st'. add_triggering_jobs n ld us s1 = Some st' \<and> built U s a u t st' \<and> raw merging_types st'"
    "\<exists>st'. add_triggering_jobs n ld us st = Some st' \<and> built U s a u t st' \<and> raw merging_types st'"
    using Cons.IH [OF _ s1(2,3)] Cons.IH [OF _ Cons.prems(2,3)] Cons.prems(1) by simp_all
  then show ?case using s1(1) by (simp del: transaction_add_job_and_dependencies.simps)
qed simp

lemma single_mergeable:
  assumes "wf_trans {} st" "tr_set st \<subseteq> {p}"
  shows "mergeable_types st"
  unfolding mergeable_types_def
proof clarify
  fix u js q assume e: "(u, js) \<in> set (tr_jobs st)" "1 < length js"
  have "distinct js" using wf_transD(2) [OF assms(1) e(1)] by (simp add: tr_entry_ok_def)
  moreover have "set js \<subseteq> {p}" using assms(2) tr_setI [OF e(1)] by blast
  ultimately have "length js \<le> 1" using card_mono [of "{p}" "set js"] by (simp add: distinct_card)
  then show "j_type (job_at st q) \<in> merging_types" using e(2) by simp
qed

text \<open>A job that does nothing is alone in its transaction.\<close>

lemma add_nop_outcome:
  assumes "transaction_add_job_and_dependencies n ld JOB_NOP u None m c ir io s = Some (r, s1)" "wf_build s" "tr_set s = {}"
    and "keeps_slots ld"
  shows "raw {JOB_NOP} s1" "mergeable_types s1" "same_slots s s1"
    "r = Inr () \<Longrightarrow> \<exists>a \<in> tr_set s1. tr_anchor s1 = Some a \<and> (\<exists>j. heap s1 a = Some j \<and> j_unit j = u \<and> j_type j = JOB_NOP)"
proof -
  obtain n' where n: "n = Suc n'" using assms(1) by (cases n) auto
  obtain f s' where s': "check_unit ld JOB_NOP u s = (f, s')" by (cases "check_unit ld JOB_NOP u s")
  obtain g where g: "s' = upd_unit u g s" using check_unit_upd [of ld JOB_NOP u s] s' by auto
  have ws: "wf_build s'" "tr_set s' = {}" "raw {JOB_NOP} s'"
    using assms(2,3) by (simp_all add: g wf_build_upd_unit raw_def)
  have sl: "same_slots s s'" using same_slots_check_unit [OF assms(4), of s JOB_NOP u] s' by simp
  have "raw {JOB_NOP} s1 \<and> mergeable_types s1 \<and> same_slots s s1 \<and> (r = Inr () \<longrightarrow>
      (\<exists>a \<in> tr_set s1. tr_anchor s1 = Some a \<and> (\<exists>j. heap s1 a = Some j \<and> j_unit j = u \<and> j_type j = JOB_NOP)))"
  proof (cases f)
    case (Inl e)
    then have "s1 = s'" "r = Inl e" using assms(1) s' n by (auto split: if_splits)
    then show ?thesis using ws sl single_mergeable [of s' 0] by (simp add: wf_build_def)
  next
    case (Inr x)
    then obtain p is_new where add: "add_linked_job JOB_NOP u None m c io s' = Some (p, is_new, s1)"
      using assms(1) s' n by (auto split: if_splits simp: bind_eq_Some_conv)
    note l = add_linked_job_wf [OF ws(1) _ add, simplified]
    have "raw {JOB_NOP} s1" using add_linked_raw [OF ws(1) _ add ws(3)] by simp
    moreover have "mergeable_types s1" using single_mergeable [of s1 p] l(1,4) ws(2) by (simp add: wf_build_def)
    moreover have "same_slots s s1" using sl l(8) by (simp add: same_slots_def)
    ultimately show ?thesis using l(3,9,10) by auto
  qed
  then show "raw {JOB_NOP} s1" "mergeable_types s1" "same_slots s s1"
    "r = Inr () \<Longrightarrow> \<exists>a \<in> tr_set s1. tr_anchor s1 = Some a \<and> (\<exists>j. heap s1 a = Some j \<and> j_unit j = u \<and> j_type j = JOB_NOP)"
    by blast+
qed

lemma built_ready:
  assumes "at_rest st" "built U (transaction_new irr st) a u t s" "raw merging_types s"
  shows "prepared s"
  by (rule built_prepared [OF assms(1) _ _ _ assms(3)]) (use assms(2,3) raw_mergeable in \<open>auto simp: built_def\<close>)

lemma request_built:
  assumes "finite U" "loader_in U ld" "keeps_slots ld" "6 * card U < n" "u \<in> U" "at_rest st" "within U st" "t \<in> in_types"
    and s_def: "s = transaction_new irr st"
  shows "\<exists>r s1. transaction_add_job_and_dependencies n ld t u None True False ir io s = Some (r, s1) \<and>
    prepared s1 \<and> wf_build s1 \<and> extends s s1 \<and> same_slots s s1 \<and> (t \<noteq> JOB_NOP \<longrightarrow> raw merging_types s1) \<and>
    (r = Inr () \<longrightarrow> (\<exists>a. built U s a u t s1))"
proof -
  note new = rest_new [OF assms(6) s_def]
  have m: "missing U s < n" using missing_le [OF assms(1), of s] assms(4) by simp
  obtain r s1 where s1: "transaction_add_job_and_dependencies n ld t u None True False ir io s = Some (r, s1)" "within U s1"
    using add_job_total(1) [OF assms(1,2), of s None t u n True False ir io] new(1,4,7) m assms(5,7,8) within_cong [of s st U] by auto
  have e: "wf_build s1" "extends s s1" using add_job_extends(1) [OF s1(1) new(1)] by simp_all
  show ?thesis
  proof (cases "t = JOB_NOP")
    case True
    note nop = add_nop_outcome [OF s1(1) [unfolded True] new(1,3) assms(3)]
    have "prepared s1"
      by (rule built_prepared [OF assms(6), of irr s1 "{JOB_NOP}"]) (use e nop(1-3) in \<open>auto simp: s_def\<close>)
    moreover have "\<exists>a. built U s a u t s1" if "r = Inr ()"
      using nop(4) [OF that] nop(3) e s1(2) True by (auto simp: built_def)
    ultimately show ?thesis using s1(1) e nop(3) True by blast
  next
    case False
    then have t: "t \<in> merging_types" using assms(8) by (simp add: in_types_merging)
    have "build_post merging_types None u t s r s1" by (rule add_job_raw(1) [OF closed_merging s1(1) new(1) _ assms(3) new(2) t]) simp
    then have p: "raw merging_types s1" "same_slots s s1" "r = Inr () \<Longrightarrow> \<exists>a. built U s a u t s1"
      using e s1(2) by (auto simp: build_post_def built_def)
    have "prepared s1"
      by (rule built_prepared [OF assms(6), of irr s1 merging_types]) (use e p raw_mergeable in \<open>auto simp: s_def\<close>)
    then show ?thesis using s1(1) e p by blast
  qed
qed

section \<open>Answers\<close>

text \<open>What a request that is refused leaves as it was: the installed jobs, their slots and queues.\<close>

definition unchanged :: "sys \<Rightarrow> sys \<Rightarrow> bool" where
  "unchanged st st' \<longleftrightarrow>
     (\<forall>p. map_option unmarked (heap st' p) = map_option unmarked (heap st p)) \<and> same_slots st st' \<and>
     m_jobs st' = m_jobs st \<and> run_queue st' = run_queue st \<and> dbus_job_queue st' = dbus_job_queue st \<and>
     gc_job_queue st' = gc_job_queue st \<and> n_installed_jobs st' = n_installed_jobs st \<and>
     n_running_jobs st' = n_running_jobs st \<and> n_failed_jobs st' = n_failed_jobs st"

lemma unchanged_refl: "unchanged st st"
  by (simp add: unchanged_def same_slots_refl)

lemma unchanged_undone:
  assumes "at_rest st" "extends (transaction_new irr st) s" "wf_build s" "same_slots (transaction_new irr st) s" "undone s st'"
  shows "unchanged st st'"
proof -
  note o = built_outside [OF assms(1-3)]
  have h: "map_option unmarked (heap st' p) = (if p \<in> tr_set s then None else map_option unmarked (heap s p))" for p
    using assms(5) by (simp add: undone_def)
  have "map_option unmarked (heap st' p) = map_option unmarked (heap st p)" for p
    using h [of p] o(1) [of p] o(2) [of p] by simp
  moreover have e: "others st' = (others s)\<lparr>tr_anchor := None\<rparr>" using assms(5) by (simp add: undone_def)
  note f = arg_cong [OF e, of units] arg_cong [OF e, of m_jobs] arg_cong [OF e, of run_queue] arg_cong [OF e, of dbus_job_queue]
    arg_cong [OF e, of gc_job_queue] arg_cong [OF e, of n_installed_jobs] arg_cong [OF e, of n_running_jobs]
    arg_cong [OF e, of n_failed_jobs]
  have x: "m_jobs s = m_jobs st" "run_queue s = run_queue st" "dbus_job_queue s = dbus_job_queue st" "gc_job_queue s = gc_job_queue st"
    "n_installed_jobs s = n_installed_jobs st" "n_running_jobs s = n_running_jobs st" "n_failed_jobs s = n_failed_jobs st"
    using assms(2) by (simp_all add: extends_def transaction_new_def)
  moreover have "same_slots st st'"
    using assms(4) f(1) by (simp add: same_slots_def others_def transaction_new_def)
  ultimately show ?thesis using f(2-) by (simp add: unchanged_def others_def)
qed

lemma abort_undone:
  assumes "prepared s"
  shows "at_rest (tr_abort s)" "undone s (tr_abort s)"
proof -
  note p = assms [unfolded prepared_def]
  show "at_rest (tr_abort s)" by (rule abort_at_rest) (use p in auto)
  show "undone s (tr_abort s)" by (rule undone_abort [OF _ reduced_refl]) (use p in auto)
qed

lemma protected_built:
  assumes "at_rest st" "extends (transaction_new irr st) s" "wf_build s"
  shows "protected mode st \<subseteq> protected mode s"
proof
  fix r assume "r \<in> protected mode st"
  then obtain k where k: "heap st r = Some k" "j_installed k" "mode = JOB_FAIL \<or> j_irreversible k"
    by (auto simp: protected_def)
  then have "heap s r = heap st r" using built_outside [OF assms, of r] by auto
  then show "r \<in> protected mode s" using k by (simp add: protected_def)
qed

text \<open>The answers to a request: the job that settles it, or the reason why it is turned down.\<close>

definition fulfilled :: "job_mode \<Rightarrow> sys \<Rightarrow> unitp \<Rightarrow> job_type \<Rightarrow> jobp \<times> jobp list \<Rightarrow> sys \<Rightarrow> bool" where
  "fulfilled mode st u t r st' \<longleftrightarrow>
     fst r \<in> set (snd r) \<and> settled st' u t (fst r) \<and>
     (mode \<notin> {JOB_ISOLATE, JOB_FLUSH} \<longrightarrow> protected mode st \<subseteq> installed_jobs st')"

definition turned_down :: "job_mode \<Rightarrow> sys \<Rightarrow> sys \<Rightarrow> err \<Rightarrow> sys \<Rightarrow> bool" where
  "turned_down mode st s e st' \<longleftrightarrow>
     e = EDEADLK \<and> unchanged st st' \<and> (\<exists>x. clean x \<and> reduced s x \<and> obstacle mode x) \<or>
     e = EEXIST \<and> clash s \<and> (mode \<notin> {JOB_ISOLATE, JOB_FLUSH} \<longrightarrow> unchanged st st')"

definition mode_refuses :: "job_mode \<Rightarrow> job_type \<Rightarrow> unit_rec \<Rightarrow> err \<Rightarrow> bool" where
  "mode_refuses mode t v e \<longleftrightarrow>
     mode = JOB_ISOLATE \<and> t \<noteq> JOB_START \<and> e = EINVAL \<or>
     mode = JOB_ISOLATE \<and> \<not> u_allow_isolate v \<and> e = EPERM \<or>
     mode = JOB_TRIGGERING \<and> t \<noteq> JOB_STOP \<and> e = EINVAL"

lemma mode_check:
  obtains (refused) e where "mode_refuses mode t (units st u) e" "manager_add_job n ld hk t u mode st = Some (Inl e, st)"
    | (starts) "mode = JOB_ISOLATE \<longrightarrow> t = JOB_START \<and> u_allow_isolate (units st u)" "mode = JOB_TRIGGERING \<longrightarrow> t = JOB_STOP"
  by (cases "mode = JOB_ISOLATE \<and> t \<noteq> JOB_START"; cases "mode = JOB_ISOLATE \<and> \<not> u_allow_isolate (units st u)";
      cases "mode = JOB_TRIGGERING \<and> t \<noteq> JOB_STOP")
    (auto simp: mode_refuses_def manager_add_job_def)

lemma request_runs:
  assumes "mode = JOB_ISOLATE \<longrightarrow> t = JOB_START \<and> u_allow_isolate (units st u)" "mode = JOB_TRIGGERING \<longrightarrow> t = JOB_STOP"
    and "transaction_add_job_and_dependencies n ld (job_type_collapse t (u_active_state (units st u))) u None True False
      (mode \<in> {JOB_IGNORE_DEPENDENCIES, JOB_IGNORE_REQUIREMENTS}) (mode = JOB_IGNORE_DEPENDENCIES)
      (transaction_new (mode = JOB_REPLACE_IRREVERSIBLY) st) = Some (r, s)"
  shows "manager_add_job n ld hk t u mode st = (case r of
      Inl e \<Rightarrow> Some (Inl e, tr_abort s)
    | Inr _ \<Rightarrow> do {
        st \<leftarrow> (if mode = JOB_ISOLATE then transaction_add_isolate_jobs n ld s else Some s);
        st \<leftarrow> (if mode = JOB_TRIGGERING then transaction_add_triggering_jobs n ld u st else Some st);
        activate_or_abort hk mode st
      })"
  using assms by (auto simp: manager_add_job_def Let_def)

lemma activate_built:
  assumes "quiet hk" "at_rest st" "built U (transaction_new irr st) a u t s" "prepared s"
  shows "\<exists>r st'. activate_or_abort hk mode s = Some (r, st') \<and> at_rest st' \<and>
    (case r of Inl e \<Rightarrow> turned_down mode st s e st' | Inr r \<Rightarrow> fulfilled mode st u t r st')"
proof -
  note b = assms(3) [unfolded built_def]
  obtain r st' where r: "activate_or_abort hk mode s = Some (r, st')" "at_rest st'"
      "case r of Inl e \<Rightarrow> declined mode s e st' | Inr r \<Rightarrow> granted mode s a r st'"
    using activate_or_abort_result [OF assms(1,4), of a mode] b by blast
  have u: "unchanged st st'" if "undone s st'"
    by (rule unchanged_undone [OF assms(2) _ _ _ that]) (use b in auto)
  have p: "protected mode st \<subseteq> protected mode s" by (rule protected_built [OF assms(2)]) (use b in auto)
  show ?thesis
  proof (cases r)
    case (Inl e)
    then have "turned_down mode st s e st'" using r(3) u by (auto simp: declined_def turned_down_def)
    then show ?thesis using r(1,2) Inl by simp
  next
    case (Inr x)
    have j: "j_unit (job_at s a) = u" "j_type (job_at s a) = t" using b by auto
    have "fulfilled mode st u t x st'" using r(3) Inr p by (auto simp: granted_def fulfilled_def Let_def j)
    then show ?thesis using r(1,2) Inr by simp
  qed
qed

lemma extra_jobs_built:
  assumes "finite U" "loader_in U ld" "keeps_slots ld" "6 * card U < n" "u \<in> U" "set (unit_list st) \<subseteq> U" "at_rest st"
    and "built U (transaction_new irr st) a u t s" "prepared s" "t = JOB_NOP \<or> raw merging_types s"
    and "mode = JOB_ISOLATE \<or> mode = JOB_TRIGGERING \<Longrightarrow> t \<noteq> JOB_NOP"
  shows "\<exists>s1 s2. (if mode = JOB_ISOLATE then transaction_add_isolate_jobs n ld s else Some s) = Some s1 \<and>
    (if mode = JOB_TRIGGERING then transaction_add_triggering_jobs n ld u s1 else Some s1) = Some s2 \<and>
    built U (transaction_new irr st) a u t s2 \<and> prepared s2"
proof -
  note b = assms(8) [unfolded built_def]
  have "unit_list s = unit_list st" using b by (simp add: extends_def transaction_new_def)
  then have ul: "set (unit_list s) \<subseteq> U" using assms(6) by simp
  have tl: "set (UNIT_FOREACH_DEPENDENCY (u_dependencies (units s u)) UNIT_ATOM_TRIGGERED_BY) \<subseteq> U"
    using foreach_within [of U s u] b assms(5) by blast
  consider "mode = JOB_ISOLATE" | "mode = JOB_TRIGGERING" | "mode \<noteq> JOB_ISOLATE" "mode \<noteq> JOB_TRIGGERING" by blast
  then show ?thesis
  proof cases
    case 1
    then have "raw merging_types s" using assms(10,11) by blast
    from isolate_built [OF assms(1-4) ul assms(8) this] show ?thesis
      using 1 built_ready [OF assms(7)] by (auto simp: transaction_add_isolate_jobs_def)
  next
    case 2
    then have "raw merging_types s" using assms(10,11) by blast
    from triggering_built [OF assms(1-4) tl assms(8) this] show ?thesis
      using 2 built_ready [OF assms(7)] by (auto simp: transaction_add_triggering_jobs_def)
  qed (use assms(8,9) in auto)
qed

section \<open>The numbers of jobs\<close>

definition ids :: "sys \<Rightarrow> jobp \<rightharpoonup> u32" where
  "ids st = (\<lambda>p. map_option j_id (heap st p))"

text \<open>
  All numbers lie below the counter, no two jobs share one, and the counter does not wrap around
  before every unit of \<open>U\<close> has a job of every type.
\<close>

definition numbered :: "unitp set \<Rightarrow> sys \<Rightarrow> bool" where
  "numbered U st \<longleftrightarrow>
     (\<forall>p i. ids st p = Some i \<longrightarrow> unat i < unat (current_job_id st)) \<and>
     (\<forall>p q i. ids st p = Some i \<longrightarrow> ids st q = Some i \<longrightarrow> p = q) \<and>
     unat (current_job_id st) + missing U st < 2 ^ 32"

lemma numbered_no_clash: "numbered U st \<Longrightarrow> \<not> clash st"
  unfolding numbered_def clash_def ids_def by (metis option.simps(9))

lemma numbered_step:
  assumes "numbered U st" "ids s = (ids st)(q \<mapsto> current_job_id st)" "current_job_id s = current_job_id st + 1"
    "missing U s < missing U st"
  shows "numbered U s"
proof -
  note n = assms(1) [unfolded numbered_def]
  have "unat (current_job_id st) + 1 < 2 ^ 32" using n assms(4) by linarith
  then have c: "unat (current_job_id s) = Suc (unat (current_job_id st))"
    using unat_add_lem [of "current_job_id st" 1] by (simp add: assms(3))
  have "unat i < Suc (unat (current_job_id st))" if "ids s p = Some i" for p i
    using n that by (auto simp: assms(2) less_Suc_eq split: if_splits)
  moreover have "p = r" if "ids s p = Some i" "ids s r = Some i" for p r i
  proof -
    have "ids st x \<noteq> Some (current_job_id st)" for x using n by blast
    then show ?thesis using n that by (auto simp: assms(2) split: if_splits)
  qed
  ultimately show ?thesis using n assms(4) by (simp add: numbered_def c)
qed

lemma add_linked_numbered:
  assumes "finite U" "wf_build st" "\<And>k. by = Some k \<Longrightarrow> k \<in> tr_set st"
    and "add_linked_job t u by m c io st = Some (p, is_new, s)" "numbered U st" "u \<in> U" "t \<in> in_types"
  shows "numbered U s"
proof -
  note l = add_linked_job_wf [OF assms(2-4)]
  obtain s0 where 0: "transaction_add_one_job t u st = (p, is_new, s0)"
      "heap s = heap (upd_job p (\<lambda>j. j\<lparr>j_ignore_order := j_ignore_order j \<or> io\<rparr>) s0)"
      "current_job_id s = current_job_id (upd_job p (\<lambda>j. j\<lparr>j_ignore_order := j_ignore_order j \<or> io\<rparr>) s0)"
    using assms(4)
    by (auto simp: add_linked_job_def Let_def job_dependency_new_def split: option.splits if_splits prod.splits)
  have i: "ids s = ids s0" "current_job_id s = current_job_id s0"
    using 0(2,3) by (auto simp: ids_def fun_eq_iff option.map_comp comp_def)
  show ?thesis
  proof (cases "find (\<lambda>p. j_type (job_at st p) = t) (tr_get st u)")
    case None
    have new: is_new using add_new_job(1) [OF assms(2) None] 0(1) by simp
    then have "missing U s < missing U st" using missing_less [OF assms(1) l(6)] l(7) assms(6,7) by simp
    moreover have "ids s0 = (ids st)(next_job st \<mapsto> current_job_id st)" "current_job_id s0 = current_job_id st + 1"
      using 0(1) None by (auto simp: transaction_add_one_job_def job_new_def upd_job_def Let_def ids_def)
    ultimately show ?thesis using numbered_step [OF assms(5), of s] i by simp
  next
    case (Some q)
    then have "s0 = st" using 0(1) by (simp add: transaction_add_one_job_def)
    moreover have "missing U s \<le> missing U st" by (rule missing_mono [OF assms(1)]) (simp add: l(6) subset_insertI)
    ultimately show ?thesis using assms(5) i by (simp add: numbered_def)
  qed
qed

lemma add_job_numbered:
  assumes "finite U" "loader_in U ld"
  shows "transaction_add_job_and_dependencies n ld t u by m c ir io st = Some (r, st') \<Longrightarrow> wf_build st \<Longrightarrow> within U st \<Longrightarrow>
      (\<And>k. by = Some k \<Longrightarrow> k \<in> tr_set st) \<Longrightarrow> t \<in> in_types \<Longrightarrow> u \<in> U \<Longrightarrow> numbered U st \<Longrightarrow> numbered U st' \<and> within U st'"
    "add_pulls n ld pulls p io st = Some (r, st') \<Longrightarrow> wf_build st \<Longrightarrow> within U st \<Longrightarrow> p \<in> tr_set st \<Longrightarrow> pulls_in U pulls \<Longrightarrow>
      numbered U st \<Longrightarrow> numbered U st' \<and> within U st'"
  using assms(2)
proof (induction n ld t u "by" m c ir io st and n ld pulls p io st arbitrary: r st' and r st'
    rule: transaction_add_job_and_dependencies_add_pulls.induct)
  case (2 n ld t u "by" m c ir io st)
  have t: "\<not> JOB_TYPE_MAX_IN_TRANSACTION \<le> job_type_value t" using "2.prems"(5) by (simp add: in_types)
  obtain f s where s: "check_unit ld t u st = (f, s)" by (cases "check_unit ld t u st")
  obtain g where g: "s = upd_unit u g st" using check_unit_upd [of ld t u st] s by auto
  have ws: "wf_build s" "tr_set s = tr_set st" using "2.prems"(2) by (simp_all add: g wf_build_upd_unit)
  have nu: "numbered U s" using "2.prems"(7) by (simp add: g numbered_def ids_def missing_def pairs_def) (simp add: upd_unit_def)
  have in_s: "within U s" using within_check_unit [OF "2.prems"(3,8,6), of t] s by simp
  show ?case
  proof (cases f)
    case (Inl e)
    then show ?thesis using "2.prems"(1) s t nu in_s by simp
  next
    case (Inr x)
    then obtain p is_new s1 where add: "add_linked_job t u by m c io s = Some (p, is_new, s1)"
      using "2.prems"(1) s t by (auto simp: bind_eq_Some_conv)
    have byk: "k \<in> tr_set s" if "by = Some k" for k using "2.prems"(4) that ws(2) by simp
    note l = add_linked_job_wf [OF ws(1) byk add]
    have in1: "within U s1" using in_s within_cong [OF l(8)] by simp
    have nu1: "numbered U s1" by (rule add_linked_numbered [OF assms(1) ws(1) byk add nu "2.prems"(6,5)])
    show ?thesis
    proof (cases "is_new \<and> \<not> ir \<and> t \<noteq> JOB_NOP")
      case True
      then have a: "add_pulls n ld (dep_pulls s1 t u) p io s1 = Some (r, st')"
        using "2.prems"(1) s t Inr add by auto
      show ?thesis
        using "2.IH" [OF t _ _ _ _ _ _ a l(1) in1 l(3) dep_pulls_in [OF in1 "2.prems"(6,5)] nu1 "2.prems"(8)] s Inr add True by simp
    next
      case False
      then have "st' = s1" using "2.prems"(1) s t Inr add by auto
      then show ?thesis using nu1 in1 by simp
    qed
  qed
next
  case (5 n ld t u tus ignored m c pulls p io st)
  have in5: "t \<in> in_types" "u \<in> U" "pulls_in U ((tus, ignored, m, c) # pulls)"
    using "5.prems"(5) by (auto simp: pulls_in_def)
  obtain r1 s1 where a: "transaction_add_job_and_dependencies n ld t u (Some p) m c False io st = Some (r1, s1)"
    using "5.prems"(1) by (auto simp: bind_eq_Some_conv)
  have s1: "wf_build s1" "extends st s1" using add_job_extends(1) [OF a "5.prems"(2)] "5.prems"(4) by auto
  have p: "p \<in> tr_set s1" using extends_tr_set [OF s1(2) "5.prems"(4)] .
  have b1: "numbered U s1" "within U s1"
    using "5.IH"(1) [OF a "5.prems"(2,3) _ in5(1,2) "5.prems"(6,7)] "5.prems"(4) by auto
  show ?case
  proof (cases "add_pulls n ld ((tus, ignored, m, c) # pulls) p io s1 = Some (r, st')")
    case True
    show ?thesis
    proof (cases r1)
      case (Inr x)
      show ?thesis using "5.IH"(3) [OF a refl Inr True s1(1) b1(2) p in5(3) b1(1) "5.prems"(7)] .
    next
      case (Inl e)
      show ?thesis
      proof (cases "ignored \<or> e = EBADR")
        case ig: True
        show ?thesis using "5.IH"(2) [OF a refl Inl ig True s1(1) b1(2) p in5(3) b1(1) "5.prems"(7)] .
      next
        case False
        then have "st' = s1" using "5.prems"(1) a Inl by simp
        then show ?thesis using b1 by simp
      qed
    qed
  next
    case False
    then have "st' = s1" using "5.prems"(1) a by (auto split: sum.splits if_splits)
    then show ?thesis using b1 by simp
  qed
next
  case (4 n ld ignored m c pulls p io st)
  then show ?case by (simp add: pulls_in_def)
qed auto

section \<open>Stopping a unit\<close>

lemma rest_numbered:
  assumes "at_rest st" "finite U" "\<forall>p i. ids st p = Some i \<longrightarrow> unat i < unat (current_job_id st)"
    and "unat (current_job_id st) + 6 * card U < 2 ^ 32"
  shows "numbered U (transaction_new irr st)"
proof -
  let ?s = "transaction_new irr st"
  have s: "ids ?s = ids st" "current_job_id ?s = current_job_id st" by (simp_all add: ids_def transaction_new_def)
  have i: "index_ok {} st" using assms(1) wf_jobsD(6) by (auto simp: at_rest_def)
  have m: "(i, p) \<in> set (m_jobs st)" if p: "ids st p = Some i" for p i
  proof -
    obtain j where j: "heap st p = Some j" "j_id j = i" using p by (auto simp: ids_def)
    then have "j_installed j" using assms(1) by (auto simp: at_rest_def)
    then show ?thesis using i j by (auto simp: index_ok_def)
  qed
  have "p = q" if "ids st p = Some i" "ids st q = Some i" for p q i
    using m [OF that(1)] m [OF that(2)] i by (auto simp: index_ok_def dest: eq_key_imp_eq_value)
  moreover have "missing U ?s \<le> 6 * card U" by (rule missing_le [OF assms(2)])
  ultimately show ?thesis using assms(3,4) unfolding numbered_def s by auto
qed

lemma stop_no_obstacle:
  assumes "clean x" "reduced s x" "raw {JOB_STOP} s" "acyclic (unit_order s)" "mode \<noteq> JOB_FAIL"
    and "\<And>q j. q \<notin> tr_set s \<Longrightarrow> heap s q = Some j \<Longrightarrow> \<not> j_irreversible j"
  shows "\<not> obstacle mode x"
proof -
  note c = cleanD [OF assms(1)] and r = reducedD [OF assms(2)]
  have ux: "units x = units s" using othersD(1) [OF r(1)] .
  have "acyclic (job_order x)" using job_order_acyclic [OF c(1,2)] assms(4) by (simp add: unit_order_def ux)
  then have "\<not> needed_cycle x" unfolding needed_cycle_def acyclic_def by (metis last_in_set)
  moreover have stop: "j_type (job_at x p) = JOB_STOP" if p: "p \<in> tr_set x" for p
  proof -
    obtain j k where "heap s p = Some j" "heap x p = Some k" "same_request j k" using r(5) [OF p] by blast
    moreover have "j_type (job_at s p) = JOB_STOP" using assms(3) p r(2) by (force simp: raw_def)
    ultimately show ?thesis by (auto simp: same_request_def)
  qed
  have "\<not> needed_conflict x"
  proof
    assume "needed_conflict x"
    then obtain u js p k where "(u, js) \<in> set (tr_jobs x)" "p \<in> set js" "k \<in> set js"
        "job_type_is_mergeable (j_type (job_at x p)) (j_type (job_at x k)) = Some False"
      unfolding needed_conflict_def by blast
    then show False using stop tr_setI by (simp add: job_type_is_mergeable_eq merging_types_def)
  qed
  moreover have "\<not> destroys mode x"
  proof
    assume "destroys mode x"
    then obtain p q where q: "u_job (units s (j_unit (job_at x p))) = Some q" "j_irreversible (job_at x q)"
      using assms(5) ux by (auto simp: destroys_def)
    obtain k where k: "heap x q = Some k" "j_installed k" using c(2) q(1) ux unfolding wf_units_def by metis
    then have "q \<notin> tr_set x" using transaction_job [OF c(1), of q] by auto
    then have o: "q \<notin> tr_set s" using r(4) [of q] k(1) by auto
    obtain j where j: "heap s q = Some j" "unmarked k = unmarked j" by (rule reduced_outside [OF assms(2) o k(1)])
    then show False using assms(6) [OF o j(1)] unmarked_fields(9) [OF j(2)] q(2) k(1) by simp
  qed
  ultimately show ?thesis by (simp add: obstacle_def)
qed

lemma settled_stop:
  assumes "wf_jobs {} st" "settled st u JOB_STOP q"
  shows "j_type (job_at st q) = JOB_STOP"
proof -
  obtain k where k: "heap st q = Some k" "job_type_is_conflicting (j_type k) JOB_STOP = Some False" "u_job (units st u) = Some q"
    using assms(2) by (auto simp: settled_def job_slot_def)
  then have "j_type k \<in> merging_types" using slots_okD(1) [OF wf_jobsD(1) [OF assms(1)] k(3)] by auto
  then show ?thesis
    using k(1,2) by (auto simp: job_type_is_conflicting_def job_type_is_mergeable_eq merging_types_def split: if_splits)
qed

lemma ex_jobs_request:
  "at_rest ex_jobs" "within {20, 21, 22} ex_jobs" "loaded {20, 21, 22} ex_jobs" "unit_list ex_jobs = []"
  "u_active_state (units ex_jobs 22) = UNIT_INACTIVE" "unit_job_is_applicable (units ex_jobs 22) JOB_STOP"
  "current_job_id ex_jobs = 14" "keeps_slots (\<lambda>_ _. None)" "loader_in {20, 21, 22} (\<lambda>_ _. None)"
proof -
  show "at_rest ex_jobs"
    unfolding at_rest_def using wf_ex_jobs ex_jobs_numbers by (auto simp: ex_jobs_def idle_sys_def)
  show "within {20, 21, 22} ex_jobs" "loaded {20, 21, 22} ex_jobs" "unit_list ex_jobs = []"
    "u_active_state (units ex_jobs 22) = UNIT_INACTIVE" "unit_job_is_applicable (units ex_jobs 22) JOB_STOP"
    "current_job_id ex_jobs = 14" "keeps_slots (\<lambda>_ _. None)" "loader_in {20, 21, 22} (\<lambda>_ _. None)"
    by (simp_all add: within_def units_in_def loaded_def ex_jobs_def idle_sys_def plain_unit_def keeps_slots_def loader_in_def)
qed

section \<open>The properties\<close>



text \<open>
  C30.  A unit can always be stopped.  On a manager at rest whose units are loaded and are ordered
  without a cycle, and whose jobs are not irreversible, a request to stop a unit that has no reason
  to refuse it is granted, unless the counter of the jobs is about to wrap around: the unit has a
  stop job, which waits in the run queue and is returned to the caller, and the manager is at rest.
\<close>

theorem stop_request_granted:
  fixes U :: "unitp set"
  assumes "quiet hk" "keeps_slots ld" "loader_in U ld" "finite U" "6 * card U < n"
    and "at_rest st" "within U st" "loaded U st" "u \<in> U" "unit_job_is_applicable (units st u) JOB_STOP"
    and "mode \<in> {JOB_REPLACE, JOB_REPLACE_IRREVERSIBLY}" "acyclic (unit_order st)"
    and "\<forall>p j. heap st p = Some j \<longrightarrow> \<not> j_irreversible j"
    and "\<forall>p i. ids st p = Some i \<longrightarrow> unat i < unat (current_job_id st)" "unat (current_job_id st) + 6 * card U < 2 ^ 32"
  shows "\<exists>q affected st'. manager_add_job n ld hk JOB_STOP u mode st = Some (Inr (q, affected), st') \<and> at_rest st' \<and>
    q \<in> set affected \<and> u_job (units st' u) = Some q \<and> j_type (job_at st' q) = JOB_STOP \<and> q \<in> set (run_queue st')"
proof -
  let ?irr = "mode = JOB_REPLACE_IRREVERSIBLY"
  let ?s = "transaction_new ?irr st"
  note new = rest_new [OF assms(6) refl [of ?s]]
  have u: "within U ?s" "loaded U ?s" using assms(7,8) new(7) by (simp_all add: within_def loaded_def)
  have t: "JOB_STOP \<in> in_types" by (simp add: in_types_def)
  obtain r s where s: "transaction_add_job_and_dependencies n ld JOB_STOP u None True False False False ?s = Some (r, s)"
      "prepared s" "wf_build s" "extends ?s s" "r = Inr () \<longrightarrow> (\<exists>a. built U ?s a u JOB_STOP s)"
    using request_built [OF assms(4,3,2,5,9,6,7) t refl [of ?s], of False False] by blast
  have c: "added_post ?s s None" "r = Inr ()"
    using add_job_complete(1) [OF s(1) new(1) _ u(2,1) assms(9) t] assms(10) new(7) by simp_all
  have "build_post {JOB_STOP} None u JOB_STOP ?s r s"
    by (rule add_job_raw(1) [OF closed_stop s(1) new(1) _ assms(2) new(2)]) simp_all
  then have raw: "raw {JOB_STOP} s" by (simp add: build_post_def)
  have num: "\<not> clash s"
    using add_job_numbered(1) [OF assms(4,3) s(1) new(1) u(1) _ t assms(9) rest_numbered [OF assms(6,4,14,15)]]
      numbered_no_clash by blast
  have us: "units s = units st" using c(1) new(7) by (simp add: added_post_def)
  have rev: "\<not> j_irreversible j" if "q \<notin> tr_set s" "heap s q = Some j" for q j
    using that assms(13) built_outside(1) [OF assms(6) s(4,3)] by simp
  obtain a where a: "built U ?s a u JOB_STOP s" using s(5) c(2) by blast
  obtain x st' where st': "activate_or_abort hk mode s = Some (x, st')" "at_rest st'"
      "case x of Inl e \<Rightarrow> turned_down mode st s e st' | Inr r \<Rightarrow> fulfilled mode st u JOB_STOP r st'"
    using activate_built [OF assms(1,6) a s(2), of mode] by blast
  have "mode \<noteq> JOB_FAIL" "acyclic (unit_order s)" using assms(11,12) us by (auto simp: unit_order_def)
  then have "\<not> turned_down mode st s e st'" for e
    using stop_no_obstacle [OF _ _ raw _ _ rev, of _ mode] num by (auto simp: turned_down_def)
  then obtain q affected where q: "x = Inr (q, affected)" "fulfilled mode st u JOB_STOP (q, affected) st'"
    using st'(3) by (cases x) auto
  then have f: "q \<in> set affected" "settled st' u JOB_STOP q" by (simp_all add: fulfilled_def)
  have "j_type (job_at st' q) = JOB_STOP" using settled_stop f(2) st'(2) by (simp add: at_rest_def)
  moreover have "u_job (units st' u) = Some q" "q \<in> set (run_queue st')" using f(2) by (simp_all add: settled_def job_slot_def)
  moreover have "manager_add_job n ld hk JOB_STOP u mode st = Some (Inr (q, affected), st')"
    using assms(11) s(1) c(2) st'(1) q(1) by (auto simp: manager_add_job_def Let_def)
  ultimately show ?thesis using f(1) st'(2) by blast
qed

theorem stop_request_granted_witness:
  "\<exists>q affected st'. manager_add_job 19 (\<lambda>_ _. None) idle_hooks JOB_STOP 22 JOB_REPLACE ex_jobs = Some (Inr (q, affected), st') \<and>
     u_job (units st' 22) = Some q \<and> j_type (job_at st' q) = JOB_STOP"
proof -
  have "unit_order ex_jobs \<subseteq> {(u, v). u < v}"
    by (auto simp: unit_order_def ex_jobs_def plain_unit_def foreach_order split: if_splits)
  then have a: "acyclic (unit_order ex_jobs)" by (rule acyclic_subset [rotated]) (auto intro: wf_acyclic wf_less)
  have i: "\<not> j_irreversible j" if "heap ex_jobs p = Some j" for p j
    using that by (auto simp: ex_jobs_def plain_job_def split: if_splits)
  have n: "unat x < unat (current_job_id ex_jobs)" if x: "ids ex_jobs p = Some x" for p x
  proof -
    obtain j where j: "heap ex_jobs p = Some j" "j_id j = x" using x by (auto simp: ids_def)
    then have "p \<in> {11, 12, 13}" "x = word_of_nat p" using ex_jobs_numbers(1,2) [OF j(1)] by auto
    then show ?thesis by (auto simp: ex_jobs_request)
  qed
  have "6 * card {20, 21, 22 :: unitp} < 19" "unat (current_job_id ex_jobs) + 6 * card {20, 21, 22 :: unitp} < 2 ^ 32"
    by (simp_all add: ex_jobs_request)
  from stop_request_granted [OF quiet_idle ex_jobs_request(8,9) _ this(1) ex_jobs_request(1-3) _ ex_jobs_request(6) _ a _ _ this(2),
      of JOB_REPLACE] i n show ?thesis by blast
qed

end
