(* ===== verification/Hexdecoct.thy ===== *)
theory Hexdecoct
  imports Prelude
begin

text \<open>
  The text encodings of \<open>src/basic/hexdecoct.c\<close>: hexadecimal, base32hex (RFC 4648, section 7
  alphabet) and base64, in both directions, and the hex dump.

  A memory block \<open>(p, l)\<close> is the list of its \<open>l\<close> bytes, a text \<open>(p, l)\<close> the list of its
  \<open>l\<close> characters (\<open>l == SIZE_MAX\<close>, "up to the terminating NUL", is resolved by the caller of the
  model).  A cursor into a text that the C code advances is the rest of the text.  The digits
  are kept as bytes: every \<open>int\<close> that the C code passes to a digit function or stores through
  \<open>(uint8_t)\<close> lies between 0 and 255.  \<open>malloc()\<close> does not fail; the sizes it is asked for are
  modelled and compared with what is written.
\<close>

section \<open>Bytes\<close>

lemma word8_eq_iff:
  "x = (y :: u8) \<longleftrightarrow> (bit x 0 = bit y 0 \<and> bit x 1 = bit y 1 \<and> bit x 2 = bit y 2 \<and> bit x 3 = bit y 3
    \<and> bit x 4 = bit y 4 \<and> bit x 5 = bit y 5 \<and> bit x 6 = bit y 6 \<and> bit x 7 = bit y 7)"
  (is "_ \<longleftrightarrow> ?B")
proof
  assume b: ?B
  show "x = y"
  proof (rule bit_word_eqI)
    fix n :: nat assume "n < LENGTH(8)"
    then have "n = 0 \<or> n = 1 \<or> n = 2 \<or> n = 3 \<or> n = 4 \<or> n = 5 \<or> n = 6 \<or> n = 7" by auto
    then show "bit x n = bit y n" using b by blast
  qed
qed simp

lemma bit8_beyond: "8 \<le> n \<Longrightarrow> \<not> bit (x :: u8) n"
  using bit_imp_le_length [of x n] by fastforce

lemmas word8_simps = word8_eq_iff bit_simps bit8_beyond

section \<open>Digits\<close>

abbreviation code :: "char \<Rightarrow> nat" where
  "code c \<equiv> of_char c"

definition octchar :: "int \<Rightarrow> char" where
  "octchar x = char_of (48 + (x AND 7))"

definition unoctchar :: "char \<Rightarrow> err + nat" where
  "unoctchar c = (if 48 \<le> code c \<and> code c \<le> 55 then Inr (code c - 48) else Inl EINVAL)"

text \<open>The C remainder takes the sign of its left operand.\<close>

definition decchar :: "int \<Rightarrow> char" where
  "decchar x = char_of (48 + (if x < 0 then - ((- x) mod 10) else x mod 10))"

definition undecchar :: "char \<Rightarrow> err + nat" where
  "undecchar c = (if 48 \<le> code c \<and> code c \<le> 57 then Inr (code c - 48) else Inl EINVAL)"

definition hexchar :: "u8 \<Rightarrow> char" where
  "hexchar x = ''0123456789abcdef'' ! unat (x AND 15)"

definition unhexchar :: "char \<Rightarrow> err + u8" where
  "unhexchar c =
     (if 48 \<le> code c \<and> code c \<le> 57 then Inr (of_nat (code c - 48))
      else if 97 \<le> code c \<and> code c \<le> 102 then Inr (of_nat (code c - 97 + 10))
      else if 65 \<le> code c \<and> code c \<le> 70 then Inr (of_nat (code c - 65 + 10))
      else Inl EINVAL)"

definition base32hexchar :: "u8 \<Rightarrow> char" where
  "base32hexchar x = ''0123456789ABCDEFGHIJKLMNOPQRSTUV'' ! unat (x AND 31)"

definition unbase32hexchar :: "char \<Rightarrow> err + u8" where
  "unbase32hexchar c =
     (if 48 \<le> code c \<and> code c \<le> 57 then Inr (of_nat (code c - 48))
      else if 65 \<le> code c \<and> code c \<le> 86 then Inr (of_nat (code c - 65 + 10))
      else Inl EINVAL)"

definition base64char :: "u8 \<Rightarrow> char" where
  "base64char x =
     (''ABCDEFGHIJKLMNOPQRSTUVWXYZ'' @ ''abcdefghijklmnopqrstuvwxyz'' @ ''0123456789+/'')
       ! unat (x AND 63)"

definition urlsafe_base64char :: "u8 \<Rightarrow> char" where
  "urlsafe_base64char x =
     (''ABCDEFGHIJKLMNOPQRSTUVWXYZ'' @ ''abcdefghijklmnopqrstuvwxyz'' @ ''0123456789-_'')
       ! unat (x AND 63)"

definition unbase64char :: "char \<Rightarrow> err + u8" where
  "unbase64char c =
     (if 65 \<le> code c \<and> code c \<le> 90 then Inr (of_nat (code c - 65))
      else if 97 \<le> code c \<and> code c \<le> 122 then Inr (of_nat (code c - 97 + 26))
      else if 48 \<le> code c \<and> code c \<le> 57 then Inr (of_nat (code c - 48 + 52))
      else if c = CHR ''+'' then Inr 62
      else if c = CHR ''/'' then Inr 63
      else Inl EINVAL)"

text \<open>
  \<open>strchr(WHITESPACE, c)\<close> with the \<open>WHITESPACE\<close> of \<open>string-util.h\<close>: \<open>strchr()\<close> also finds the
  terminating NUL, so that a NUL byte inside the text counts as white space.
\<close>

definition whitespace :: "char \<Rightarrow> bool" where
  "whitespace c \<longleftrightarrow> c \<in> {CHR '' '', CHR 0x09, CHR 0x0A, CHR 0x0D, CHR 0x00}"

section \<open>Hexadecimal\<close>

fun hexmem :: "u8 list \<Rightarrow> string" where
  "hexmem [] = []"
| "hexmem (x # xs) = hexchar (drop_bit 4 x) # hexchar (x AND 15) # hexmem xs"

definition unhex_next :: "string \<Rightarrow> (err + u8) \<times> string" where
  "unhex_next p =
     (case dropWhile whitespace p of
        [] \<Rightarrow> (Inl EPIPE, [])
      | c # p' \<Rightarrow>
          (case unhexchar c of
             Inl e \<Rightarrow> (Inl e, c # p')
           | Inr v \<Rightarrow> (Inr v, dropWhile whitespace p')))"

lemma length_dropWhile_Suc: "dropWhile P p = c # p' \<Longrightarrow> length (dropWhile Q p') < length p"
  by (metis length_Cons length_dropWhile_le le_imp_less_Suc order_less_le_trans)

lemma unhex_next_less: "unhex_next p = (Inr v, p') \<Longrightarrow> length p' < length p"
  by (auto simp: unhex_next_def length_dropWhile_Suc split: list.splits sum.splits)

function unhexmem :: "string \<Rightarrow> err + u8 list" where
  "unhexmem x =
     (case unhex_next x of
        (Inl e, _) \<Rightarrow> if e = EPIPE then Inr [] else Inl e
      | (Inr a, x1) \<Rightarrow>
          (case unhex_next x1 of
             (Inl e, _) \<Rightarrow> Inl e
           | (Inr b, x2) \<Rightarrow>
               (case unhexmem x2 of
                  Inl e \<Rightarrow> Inl e
                | Inr z \<Rightarrow> Inr ((push_bit 4 a OR b) # z))))"
  by pat_completeness auto
termination
  by (relation "measure length") (fastforce dest: unhex_next_less [OF sym])+

declare unhexmem.simps [simp del]

definition hexmem_size :: "nat \<Rightarrow> nat" where
  "hexmem_size l = (l * 2 + 1) mod 2 ^ 64"

definition unhexmem_size :: "nat \<Rightarrow> nat" where
  "unhexmem_size l = ((l + 1) mod 2 ^ 64) div 2 + 1"

section \<open>base32hex\<close>

fun base32hexmem :: "bool \<Rightarrow> u8 list \<Rightarrow> string" where
  "base32hexmem padding (x0 # x1 # x2 # x3 # x4 # xs) =
     [base32hexchar (drop_bit 3 x0),
      base32hexchar (push_bit 2 (x0 AND 7) OR drop_bit 6 x1),
      base32hexchar (drop_bit 1 (x1 AND 63)),
      base32hexchar (push_bit 4 (x1 AND 1) OR drop_bit 4 x2),
      base32hexchar (push_bit 1 (x2 AND 15) OR drop_bit 7 x3),
      base32hexchar (drop_bit 2 (x3 AND 127)),
      base32hexchar (push_bit 3 (x3 AND 3) OR drop_bit 5 x4),
      base32hexchar (x4 AND 31)] @ base32hexmem padding xs"
| "base32hexmem padding [x0, x1, x2, x3] =
     [base32hexchar (drop_bit 3 x0),
      base32hexchar (push_bit 2 (x0 AND 7) OR drop_bit 6 x1),
      base32hexchar (drop_bit 1 (x1 AND 63)),
      base32hexchar (push_bit 4 (x1 AND 1) OR drop_bit 4 x2),
      base32hexchar (push_bit 1 (x2 AND 15) OR drop_bit 7 x3),
      base32hexchar (drop_bit 2 (x3 AND 127)),
      base32hexchar (push_bit 3 (x3 AND 3))] @ (if padding then ''='' else [])"
| "base32hexmem padding [x0, x1, x2] =
     [base32hexchar (drop_bit 3 x0),
      base32hexchar (push_bit 2 (x0 AND 7) OR drop_bit 6 x1),
      base32hexchar (drop_bit 1 (x1 AND 63)),
      base32hexchar (push_bit 4 (x1 AND 1) OR drop_bit 4 x2),
      base32hexchar (push_bit 1 (x2 AND 15))] @ (if padding then ''==='' else [])"
| "base32hexmem padding [x0, x1] =
     [base32hexchar (drop_bit 3 x0),
      base32hexchar (push_bit 2 (x0 AND 7) OR drop_bit 6 x1),
      base32hexchar (drop_bit 1 (x1 AND 63)),
      base32hexchar (push_bit 4 (x1 AND 1))] @ (if padding then ''===='' else [])"
| "base32hexmem padding [x0] =
     [base32hexchar (drop_bit 3 x0),
      base32hexchar (push_bit 2 (x0 AND 7))] @ (if padding then ''======'' else [])"
| "base32hexmem padding [] = []"

definition base32hexmem_size :: "bool \<Rightarrow> nat \<Rightarrow> nat" where
  "base32hexmem_size padding l =
     (if padding then (8 * (l + 4) mod 2 ^ 64) div 5
      else (8 * l mod 2 ^ 64) div 5 + (if l mod 5 = 4 then 7 else if l mod 5 = 3 then 5
                          else if l mod 5 = 2 then 4 else if l mod 5 = 1 then 2 else 0)) + 1"

text \<open>
  The decoder reads the characters of a group one after the other and stops at the first one
  that is not a digit.
\<close>

fun digits :: "string \<Rightarrow> err + u8 list" where
  "digits [] = Inr []"
| "digits (x # xs) =
     (case unbase32hexchar x of
        Inl e \<Rightarrow> Inl EINVAL
      | Inr a \<Rightarrow> (case digits xs of Inl e \<Rightarrow> Inl e | Inr as \<Rightarrow> Inr (a # as)))"

fun unbase32hex_group :: "u8 list \<Rightarrow> err + u8 list" where
  "unbase32hex_group [a, b, c, d, e, f, g, h] =
     Inr [push_bit 3 a OR drop_bit 2 b,
          push_bit 6 b OR push_bit 1 c OR drop_bit 4 d,
          push_bit 4 d OR drop_bit 1 e,
          push_bit 7 e OR push_bit 2 f OR drop_bit 3 g,
          push_bit 5 g OR h]"
| "unbase32hex_group [a, b, c, d, e, f, g] =
     (if g AND 7 \<noteq> 0 then Inl EINVAL
      else Inr [push_bit 3 a OR drop_bit 2 b,
                push_bit 6 b OR push_bit 1 c OR drop_bit 4 d,
                push_bit 4 d OR drop_bit 1 e,
                push_bit 7 e OR push_bit 2 f OR drop_bit 3 g])"
| "unbase32hex_group [a, b, c, d, e] =
     (if e AND 1 \<noteq> 0 then Inl EINVAL
      else Inr [push_bit 3 a OR drop_bit 2 b,
                push_bit 6 b OR push_bit 1 c OR drop_bit 4 d,
                push_bit 4 d OR drop_bit 1 e])"
| "unbase32hex_group [a, b, c, d] =
     (if d AND 15 \<noteq> 0 then Inl EINVAL
      else Inr [push_bit 3 a OR drop_bit 2 b,
                push_bit 6 b OR push_bit 1 c OR drop_bit 4 d])"
| "unbase32hex_group [a, b] =
     (if b AND 3 \<noteq> 0 then Inl EINVAL
      else Inr [push_bit 3 a OR drop_bit 2 b])"
| "unbase32hex_group [] = Inr []"
| "unbase32hex_group _ = Inl EINVAL"

text \<open>The loop over the full groups of eight, and the \<open>switch\<close> on what is left.\<close>

function unbase32hex_groups :: "string \<Rightarrow> err + u8 list" where
  "unbase32hex_groups x =
     (case digits (take 8 x) of
        Inl e \<Rightarrow> Inl e
      | Inr ds \<Rightarrow>
          (case unbase32hex_group ds of
             Inl e \<Rightarrow> Inl e
           | Inr bs \<Rightarrow>
               if length x < 8 then Inr bs
               else (case unbase32hex_groups (drop 8 x) of
                       Inl e \<Rightarrow> Inl e
                     | Inr z \<Rightarrow> Inr (bs @ z))))"
  by pat_completeness auto
termination
  by (relation "measure length") auto

declare unbase32hex_groups.simps [simp del]

fun strip_padding :: "nat \<Rightarrow> string \<Rightarrow> string" where
  "strip_padding pad p =
     (if p \<noteq> [] \<and> last p = CHR ''='' \<and> pad < 7 then strip_padding (Suc pad) (butlast p) else p)"

declare strip_padding.simps [simp del]

definition unbase32hexmem_len :: "nat \<Rightarrow> nat option" where
  "unbase32hexmem_len l =
     (if l mod 8 = 7 then Some (l div 8 * 5 + 4)
      else if l mod 8 = 5 then Some (l div 8 * 5 + 3)
      else if l mod 8 = 4 then Some (l div 8 * 5 + 2)
      else if l mod 8 = 2 then Some (l div 8 * 5 + 1)
      else if l mod 8 = 0 then Some (l div 8 * 5)
      else None)"

text \<open>The result is the buffer as written up to \<open>z\<close> and the length stored in \<open>*_len\<close>.\<close>

definition unbase32hexmem :: "bool \<Rightarrow> string \<Rightarrow> err + u8 list \<times> nat" where
  "unbase32hexmem padding p =
     (if padding \<and> length p mod 8 \<noteq> 0 then Inl EINVAL
      else let p' = (if padding then strip_padding 0 p else p) in
        case unbase32hexmem_len (length p') of
          None \<Rightarrow> Inl EINVAL
        | Some len \<Rightarrow>
            (case unbase32hex_groups p' of
               Inl e \<Rightarrow> Inl e
             | Inr r \<Rightarrow> Inr (r, len)))"

section \<open>base64\<close>

definition SIZE_MAX :: nat where
  "SIZE_MAX = 2 ^ 64 - 1"

definition SSIZE_MAX :: nat where
  "SSIZE_MAX = 2 ^ 63 - 1"

text \<open>\<open>out\<close> is the buffer from \<open>start\<close> to the write position.\<close>

definition maybe_line_break :: "nat \<Rightarrow> string \<Rightarrow> string" where
  "maybe_line_break line_break out =
     (if line_break = SIZE_MAX then out
      else if length out mod (line_break + 1) = line_break then out @ [CHR 0x0A]
      else out)"

definition put :: "nat \<Rightarrow> char \<Rightarrow> string \<Rightarrow> string" where
  "put line_break c out = maybe_line_break line_break out @ [c]"

fun base64_groups :: "nat \<Rightarrow> string \<Rightarrow> u8 list \<Rightarrow> string" where
  "base64_groups line_break z (x0 # x1 # x2 # xs) =
     base64_groups line_break
       (put line_break (base64char (x2 AND 63))
       (put line_break (base64char (push_bit 2 (x1 AND 15) OR drop_bit 6 x2))
       (put line_break (base64char (push_bit 4 (x0 AND 3) OR drop_bit 4 x1))
       (put line_break (base64char (drop_bit 2 x0)) z)))) xs"
| "base64_groups line_break z [x0, x1] =
     put line_break CHR ''=''
     (put line_break (base64char (push_bit 2 (x1 AND 15)))
     (put line_break (base64char (push_bit 4 (x0 AND 3) OR drop_bit 4 x1))
     (put line_break (base64char (drop_bit 2 x0)) z)))"
| "base64_groups line_break z [x0] =
     put line_break CHR ''=''
     (put line_break CHR ''=''
     (put line_break (base64char (push_bit 4 (x0 AND 3)))
     (put line_break (base64char (drop_bit 2 x0)) z)))"
| "base64_groups line_break z [] = z"

text \<open>\<open>None\<close> is the assertion \<open>line_break > 0\<close>; \<open>base64mem()\<close> asks for no line breaks.\<close>

definition base64mem_full :: "u8 list \<Rightarrow> nat \<Rightarrow> string option" where
  "base64mem_full p line_break =
     (if line_break = 0 then None else Some (base64_groups line_break [] p))"

definition base64mem :: "u8 list \<Rightarrow> string option" where
  "base64mem p = base64mem_full p SIZE_MAX"

definition base64mem_size :: "nat \<Rightarrow> nat \<Rightarrow> nat" where
  "base64mem_size l line_break =
     (let m = (4 * (l + 2) mod 2 ^ 64) div 3 + 1 in
      if line_break \<noteq> SIZE_MAX then (m + m div line_break) mod 2 ^ 64 else m)"

text \<open>
  Appending to a prefix, in lines of \<open>width\<close> characters.  The result has the new text and, where
  the buffer was reallocated, its size.  \<open>None\<close> is a division by zero or the failed assertion
  that every character was copied.
\<close>

fun append_lines :: "nat \<Rightarrow> nat \<Rightarrow> nat \<Rightarrow> char \<Rightarrow> string \<Rightarrow> string \<Rightarrow> string option" where
  "append_lines 0 indent width sep s x = (if x = [] then Some s else None)"
| "append_lines (Suc lines) indent width sep s x =
     (let s' = (if s \<noteq> []
                then s @ [sep] @ (if sep = CHR 0x0A then replicate indent CHR '' '' else [])
                else s)
      in append_lines lines indent width CHR 0x0A (s' @ take width x) (drop width x))"

definition base64_append_width ::
  "string \<Rightarrow> char \<Rightarrow> nat \<Rightarrow> u8 list \<Rightarrow> nat \<Rightarrow> (err + string \<times> nat option) option" where
  "base64_append_width prefix sep indent p width =
     (case base64mem p of None \<Rightarrow> None | Some x \<Rightarrow>
      let len = length x; plen = length prefix in
      if len = 0 then Some (Inr (prefix, None))
      else if width = 0 then None
      else let lines = len div width + (if len mod width \<noteq> 0 then 1 else 0);
               column = (indent + width + 1) mod 2 ^ 64 in
        if plen \<ge> SSIZE_MAX - 1 - 1 then Some (Inl ENOMEM)
        else if column = 0 then None
        else if lines > (SSIZE_MAX - plen - 1 - 1) div column then Some (Inl ENOMEM)
        else (case append_lines lines indent width sep prefix x of
                None \<Rightarrow> None
              | Some s \<Rightarrow> Some (Inr (s, Some ((plen + 1 + 1 + column * lines) mod 2 ^ 64)))))"

text \<open>\<open>size_t\<close> subtraction wraps.\<close>

definition size_sub :: "nat \<Rightarrow> nat \<Rightarrow> nat" where
  "size_sub a b = (if b \<le> a then a - b else 2 ^ 64 + a - b)"

definition base64_append ::
  "string \<Rightarrow> u8 list \<Rightarrow> nat \<Rightarrow> nat \<Rightarrow> (err + string \<times> nat option) option" where
  "base64_append prefix p indent width =
     (let plen = length prefix in
      if plen > width div 2 \<or> plen + indent > width
      then base64_append_width prefix CHR 0x0A indent p (size_sub width indent)
      else base64_append_width prefix CHR '' '' (plen + 1) p (size_sub (size_sub width plen) 1))"

text \<open>Padding, which C returns as \<open>INT_MAX\<close>, is a constructor of its own.\<close>

datatype sextet = Padding | Sextet u8

definition unbase64_next :: "string \<Rightarrow> (err + sextet) \<times> string" where
  "unbase64_next p =
     (case dropWhile whitespace p of
        [] \<Rightarrow> (Inl EPIPE, [])
      | c # p' \<Rightarrow>
          if c = CHR ''='' then (Inr Padding, dropWhile whitespace p')
          else (case unbase64char c of
                  Inl e \<Rightarrow> (Inl e, c # p')
                | Inr v \<Rightarrow> (Inr (Sextet v), dropWhile whitespace p')))"

lemma unbase64_next_less: "unbase64_next p = (Inr v, p') \<Longrightarrow> length p' < length p"
  by (auto simp: unbase64_next_def length_dropWhile_Suc split: list.splits sum.splits if_splits)

function unbase64mem :: "string \<Rightarrow> err + u8 list" where
  "unbase64mem x =
     (case unbase64_next x of
        (Inl e, _) \<Rightarrow> if e = EPIPE then Inr [] else Inl e
      | (Inr Padding, _) \<Rightarrow> Inl EINVAL
      | (Inr (Sextet a), x1) \<Rightarrow>
     (case unbase64_next x1 of
        (Inl e, _) \<Rightarrow> Inl e
      | (Inr Padding, _) \<Rightarrow> Inl EINVAL
      | (Inr (Sextet b), x2) \<Rightarrow>
     (case unbase64_next x2 of
        (Inl e, _) \<Rightarrow> Inl e
      | (Inr c, x3) \<Rightarrow>
     (case unbase64_next x3 of
        (Inl e, _) \<Rightarrow> Inl e
      | (Inr d, x4) \<Rightarrow>
     (case c of
        Padding \<Rightarrow>
          if d \<noteq> Padding then Inl EINVAL
          else if b AND 15 \<noteq> 0 then Inl EINVAL
          else if x4 \<noteq> [] then Inl ENAMETOOLONG
          else Inr [push_bit 2 a OR drop_bit 4 b]
      | Sextet c \<Rightarrow>
     (case d of
        Padding \<Rightarrow>
          if c AND 3 \<noteq> 0 then Inl EINVAL
          else if x4 \<noteq> [] then Inl ENAMETOOLONG
          else Inr [push_bit 2 a OR drop_bit 4 b, push_bit 4 b OR drop_bit 2 c]
      | Sextet d \<Rightarrow>
     (case unbase64mem x4 of
        Inl e \<Rightarrow> Inl e
      | Inr z \<Rightarrow>
          Inr ([push_bit 2 a OR drop_bit 4 b, push_bit 4 b OR drop_bit 2 c, push_bit 6 c OR d]
               @ z))))))))"
  by pat_completeness auto
termination
  by (relation "measure length") (fastforce dest: unbase64_next_less [OF sym])+

declare unbase64mem.simps [simp del]

definition unbase64mem_size :: "nat \<Rightarrow> nat" where
  "unbase64mem_size l = l div 4 * 3 + (if l mod 4 \<noteq> 0 then l mod 4 - 1 else 0) + 1"

section \<open>Hex dump\<close>

text \<open>
  \<open>isprint\<close> is the locale's classification of a byte.  \<open>%02x\<close> of a byte is its two digits,
  \<open>%04x\<close> of the offset has at least four.
\<close>

function hex_digits :: "nat \<Rightarrow> nat \<Rightarrow> string" where
  "hex_digits width n =
     (if n < 16 \<and> width \<le> 1 then [hexchar (of_nat n)]
      else hex_digits (width - 1) (n div 16) @ [hexchar (of_nat (n mod 16))])"
  by pat_completeness auto
termination
  by (relation "measure (\<lambda>(width, n). width + n)") auto

declare hex_digits.simps [simp del]

definition hexdump_line :: "(u8 \<Rightarrow> bool) \<Rightarrow> u32 \<Rightarrow> u8 list \<Rightarrow> string" where
  "hexdump_line isprint n b =
     hex_digits 4 (unat n) @ ''  ''
     @ concat (map (\<lambda>i. (if i \<ge> length b then ''   '' else hex_digits 2 (unat (b ! i)) @ '' '')
                        @ (if i = 7 then '' '' else [])) [0..<16])
     @ '' ''
     @ map (\<lambda>i. if i \<ge> length b then CHR '' ''
                else if isprint (b ! i) then char_of (unat (b ! i)) else CHR ''.'') [0..<16]
     @ [CHR 0x0A]"

function hexdump_from :: "(u8 \<Rightarrow> bool) \<Rightarrow> u32 \<Rightarrow> u8 list \<Rightarrow> string" where
  "hexdump_from isprint n b =
     (if b = [] then []
      else hexdump_line isprint n b
        @ (if length b < 16 then [] else hexdump_from isprint (n + 16) (drop 16 b)))"
  by pat_completeness auto
termination
  by (relation "measure (\<lambda>(_, _, b). length b)") auto

declare hexdump_from.simps [simp del]

definition hexdump :: "(u8 \<Rightarrow> bool) \<Rightarrow> u8 list \<Rightarrow> string" where
  "hexdump isprint p = hexdump_from isprint 0 p"

section \<open>Digits and characters\<close>

lemma hex_table: "''0123456789abcdef'' = map char_of [48..<58::nat] @ map char_of [97..<103::nat] @ []"
  by (simp add: upt_conv_Cons char_of_def bit_0)

lemma base32_table: "''0123456789ABCDEFGHIJKLMNOPQRSTUV'' = map char_of [48..<58::nat] @ map char_of [65..<87::nat] @ []"
  by (simp add: upt_conv_Cons char_of_def bit_0)

lemma base64_table: "''ABCDEFGHIJKLMNOPQRSTUVWXYZ'' @ ''abcdefghijklmnopqrstuvwxyz'' @ ''0123456789+/''
  = map char_of [65..<91::nat] @ map char_of [97..<123::nat] @ map char_of [48..<58::nat] @ ''+/''"
  by (simp add: upt_conv_Cons char_of_def bit_0)

lemma nth_range:
  "(map char_of [a..<b::nat] @ ys) ! n = (if n < b - a then char_of (a + n) else ys ! (n - (b - a)))"
  by (simp add: nth_append)

lemma unat_and_le: "unat (x AND y) \<le> unat y" for x y :: u8
  using word_and_le1 [of x y] by (simp add: word_le_nat_alt)

lemma code_char_of: "n < 256 \<Longrightarrow> code (char_of n) = n"
  by (simp add: of_char_of)

lemma unhexchar_hexchar [simp]: "unhexchar (hexchar x) = Inr (x AND 15)"
  using unat_and_le [of x 15]
  unfolding hexchar_def hex_table unhexchar_def nth_range
  by (auto simp: code_char_of)

lemma unbase32hexchar_base32hexchar [simp]: "unbase32hexchar (base32hexchar x) = Inr (x AND 31)"
  using unat_and_le [of x 31]
  unfolding base32hexchar_def base32_table unbase32hexchar_def nth_range
  by (auto simp: code_char_of)

lemma unbase64char_ranges:
  "n < 26 \<Longrightarrow> unbase64char (char_of (65 + n)) = Inr (of_nat n)"
  "n < 26 \<Longrightarrow> unbase64char (char_of (97 + n)) = Inr (of_nat (n + 26))"
  "n < 10 \<Longrightarrow> unbase64char (char_of (48 + n)) = Inr (of_nat (n + 52))"
  by (simp_all add: unbase64char_def code_char_of)

lemma unbase64char_base64char [simp]: "unbase64char (base64char x) = Inr (x AND 63)"
proof -
  define n where "n = unat (x AND 63)"
  have w: "x AND 63 = of_nat n" by (simp add: n_def)
  have b: "base64char x = (if n < 26 then char_of (65 + n) else if n - 26 < 26 then char_of (97 + (n - 26))
      else if n - 26 - 26 < 10 then char_of (48 + (n - 26 - 26)) else ''+/'' ! (n - 26 - 26 - 10))"
    unfolding base64char_def base64_table nth_range n_def [symmetric] by simp
  have "n \<le> 63" using unat_and_le [of x 63] by (simp add: n_def)
  then consider "n < 26" | "26 \<le> n" "n < 52" | "52 \<le> n" "n < 62" | "n = 62" | "n = 63" by linarith
  then have "unbase64char (base64char x) = Inr (of_nat n)"
  proof cases
    case 1 then show ?thesis
      using unbase64char_ranges(1) [of n] by (simp add: b)
  next
    case 2 then show ?thesis
      using unbase64char_ranges(2) [of "n - 26"] by (auto simp: b)
  next
    case 3 then show ?thesis
      using unbase64char_ranges(3) [of "n - 52"] by (auto simp: b)
  qed (simp_all add: b unbase64char_def)
  then show ?thesis by (simp add: w)
qed

lemma unat_of_nat8: "n < 256 \<Longrightarrow> unat (of_nat n :: u8) = n"
  by (simp add: unat_of_nat)

lemma and_mask_of_nat: "n < 2 ^ k \<Longrightarrow> k \<le> 8 \<Longrightarrow> (of_nat n :: u8) AND mask k = of_nat n"
proof -
  assume "n < 2 ^ k" "k \<le> 8"
  then have "n < 2 ^ 8" using power_increasing [of k 8 "2::nat"] by linarith
  with \<open>n < 2 ^ k\<close> show ?thesis
    by (simp flip: take_bit_eq_mask add: word_unat_eq_iff unsigned_take_bit_eq unat_of_nat8 take_bit_nat_eq_self del: unsigned_of_nat)
qed

lemma and_of_nat:
  "n < 16 \<Longrightarrow> (of_nat n :: u8) AND 15 = of_nat n"
  "n < 32 \<Longrightarrow> (of_nat n :: u8) AND 31 = of_nat n"
  "n < 64 \<Longrightarrow> (of_nat n :: u8) AND 63 = of_nat n"
  using and_mask_of_nat [of n 4] and_mask_of_nat [of n 5] and_mask_of_nat [of n 6]
  by (simp_all add: mask_eq_exp_minus_1)

lemma unhexchar_Inr: "unhexchar c = Inr v \<Longrightarrow> v AND 15 = v \<and> \<not> whitespace c"
  by (auto simp del: of_nat_diff of_nat_add simp: unhexchar_def whitespace_def and_of_nat split: if_splits)

lemma unbase32hexchar_Inr: "unbase32hexchar c = Inr v \<Longrightarrow> v AND 31 = v \<and> base32hexchar v = c"
  unfolding base32hexchar_def base32_table unbase32hexchar_def nth_range
  by (auto simp del: of_nat_diff of_nat_add simp: and_of_nat unat_of_nat8 split: if_splits)

lemma unbase64char_Inr:
  "unbase64char c = Inr v \<Longrightarrow> v AND 63 = v \<and> base64char v = c"
  unfolding base64char_def base64_table unbase64char_def nth_range
  by (auto simp del: of_nat_diff of_nat_add simp: and_of_nat unat_of_nat8 split: if_splits)
lemma unbase64char_not:
  "unbase64char c = Inr v \<Longrightarrow> \<not> whitespace c \<and> c \<noteq> CHR ''=''"
  by (auto simp: unbase64char_def whitespace_def split: if_splits)


section \<open>White space\<close>

definition visible :: "string \<Rightarrow> string" where
  "visible p = filter (\<lambda>c. \<not> whitespace c) p"

lemma visible_simps [simp]:
  "visible [] = []" "visible (p @ q) = visible p @ visible q"
  "whitespace c \<Longrightarrow> visible (c # p) = visible p"
  "\<not> whitespace c \<Longrightarrow> visible (c # p) = c # visible p"
  by (simp_all add: visible_def)

lemma visible_dropWhile [simp]: "visible (dropWhile whitespace p) = visible p"
  by (induction p) auto

lemma dropWhile_visible: "dropWhile whitespace p = [] \<longleftrightarrow> visible p = []"
  by (induction p) auto

lemma dropWhile_Cons_visible:
  "dropWhile whitespace p = c # p' \<Longrightarrow> \<not> whitespace c \<and> visible p = c # visible p'"
  by (metis hd_dropWhile list.distinct(1) list.sel(1) visible_dropWhile visible_simps(4))

text \<open>
  The contract of a read cursor: skip white space, decode one character, skip white space.  The
  readers of hexadecimal and base64 text both keep it.
\<close>

locale cursor =
  fixes decode :: "char \<Rightarrow> err + 'v" and advance :: "string \<Rightarrow> (err + 'v) \<times> string"
  assumes advance_def: "advance p =
      (case dropWhile whitespace p of
         [] \<Rightarrow> (Inl EPIPE, [])
       | c # p' \<Rightarrow>
           (case decode c of
              Inl e \<Rightarrow> (Inl e, c # p')
            | Inr v \<Rightarrow> (Inr v, dropWhile whitespace p')))"
    and decode_error: "decode c = Inl e \<Longrightarrow> e = EINVAL"
begin

lemma at_end: "visible p = [] \<Longrightarrow> advance p = (Inl EPIPE, [])"
  using dropWhile_visible [of p] by (simp add: advance_def del: dropWhile_eq_Nil_conv)

lemma at_digit:
  assumes "visible p = c # cs" "decode c = Inr v"
  obtains p' where "advance p = (Inr v, p')" "visible p' = cs" "p' = [] \<longleftrightarrow> cs = []"
proof -
  obtain c' p' where p: "dropWhile whitespace p = c' # p'"
    using assms(1) dropWhile_visible [of p] by (cases "dropWhile whitespace p") auto
  with dropWhile_Cons_visible [OF p] assms have "advance p = (Inr v, dropWhile whitespace p')" "visible p' = cs"
    by (auto simp: advance_def)
  then show ?thesis using that dropWhile_visible [of p'] by simp
qed

lemma digit_read:
  assumes "advance p = (Inr v, p')"
  obtains c where "visible p = c # visible p'" "decode c = Inr v" "p' = [] \<longleftrightarrow> visible p' = []" "\<not> whitespace c"
proof (cases "dropWhile whitespace p")
  case (Cons c q)
  with assms have d: "decode c = Inr v" "p' = dropWhile whitespace q"
    by (auto simp: advance_def split: sum.splits)
  show ?thesis
  proof (rule that)
    show "visible p = c # visible p'" "\<not> whitespace c"
      using dropWhile_Cons_visible [OF Cons] d(2) by simp_all
    show "decode c = Inr v" by (rule d(1))
    show "p' = [] \<longleftrightarrow> visible p' = []" unfolding d(2) using dropWhile_visible [of q] by (simp del: dropWhile_eq_Nil_conv)
  qed
qed (use assms in \<open>simp add: advance_def del: dropWhile_eq_Nil_conv\<close>)

lemma no_digit:
  assumes "advance p = (Inl e, p')"
  shows "e = EPIPE \<and> visible p = [] \<or> e = EINVAL"
proof (cases "dropWhile whitespace p")
  case Nil
  with assms show ?thesis using dropWhile_visible [of p] by (simp add: advance_def)
next
  case (Cons c q)
  with assms decode_error show ?thesis by (auto simp: advance_def split: sum.splits)
qed

end

lemma unhexchar_Inl: "unhexchar c = Inl e \<Longrightarrow> e = EINVAL"
  by (auto simp: unhexchar_def split: if_splits)

interpretation hex: cursor unhexchar unhex_next
  by unfold_locales (auto simp: unhex_next_def unhexchar_Inl)

definition decode64 :: "char \<Rightarrow> err + sextet" where
  "decode64 c = (if c = CHR ''='' then Inr Padding else map_sum id Sextet (unbase64char c))"

lemma decode64_simps [simp]:
  "decode64 CHR ''='' = Inr Padding" "decode64 (base64char x) = Inr (Sextet (x AND 63))"
proof -
  have "unbase64char (base64char x) \<noteq> Inl EINVAL" by simp
  then have "base64char x \<noteq> CHR ''=''" using unbase64char_not by (metis unbase64char_base64char)
  then show "decode64 (base64char x) = Inr (Sextet (x AND 63))" by (simp add: decode64_def)
qed (simp add: decode64_def)

lemma decode64_Inr:
  "decode64 c = Inr Padding \<Longrightarrow> c = CHR ''=''"
  "decode64 c = Inr (Sextet v) \<Longrightarrow> v AND 63 = v \<and> base64char v = c"
  by (auto simp: decode64_def map_sum_def dest: unbase64char_Inr split: if_splits sum.splits)

interpretation b64: cursor decode64 unbase64_next
proof
  show "unbase64_next p =
      (case dropWhile whitespace p of
         [] \<Rightarrow> (Inl EPIPE, [])
       | c # p' \<Rightarrow>
           (case decode64 c of
              Inl e \<Rightarrow> (Inl e, c # p')
            | Inr v \<Rightarrow> (Inr v, dropWhile whitespace p')))" for p
    by (cases "dropWhile whitespace p")
      (simp_all add: unbase64_next_def decode64_def del: dropWhile_eq_Nil_conv split: sum.split)
  show "decode64 c = Inl e \<Longrightarrow> e = EINVAL" for c e
    by (cases "unbase64char c") (auto simp: decode64_def unbase64char_def split: if_splits)
qed

subsection \<open>Hexadecimal\<close>

lemma hex_group:
  "push_bit 4 (drop_bit 4 x AND 15) OR ((x AND 15) AND 15) = x"
  "a AND 15 = a \<Longrightarrow> b AND 15 = b \<Longrightarrow> drop_bit 4 (push_bit 4 a OR b) AND 15 = a"
  "a AND 15 = a \<Longrightarrow> b AND 15 = b \<Longrightarrow> ((push_bit 4 a OR b) AND 15) AND 15 = b" for x a b :: u8
  by (simp_all add: word8_simps)

lemma unhexmem_complete:
  "map unhexchar (visible x) = map unhexchar (hexmem bs) \<Longrightarrow> unhexmem x = Inr bs"
proof (induction bs arbitrary: x)
  case Nil
  then show ?case by (simp add: unhexmem.simps [of x] hex.at_end)
next
  case (Cons b bs)
  then obtain c d cs where v: "visible x = c # d # cs" "unhexchar c = Inr (drop_bit 4 b AND 15)"
      "unhexchar d = Inr ((b AND 15) AND 15)" "map unhexchar cs = map unhexchar (hexmem bs)"
    by (auto simp: Cons_eq_map_conv)
  obtain x1 where 1: "unhex_next x = (Inr (drop_bit 4 b AND 15), x1)" "visible x1 = d # cs"
    using hex.at_digit [OF v(1,2)] by blast
  obtain x2 where 2: "unhex_next x1 = (Inr ((b AND 15) AND 15), x2)" "visible x2 = cs"
    using hex.at_digit [OF 1(2) v(3)] by blast
  from Cons.IH [of x2] v(4) show ?case
    by (simp only: unhexmem.simps [of x] 1 2 prod.case sum.case hex_group)
qed

lemma unhexmem_sound:
  "unhexmem x = Inr bs \<Longrightarrow> map unhexchar (visible x) = map unhexchar (hexmem bs)"
proof (induction x arbitrary: bs rule: unhexmem.induct)
  case (1 x)
  show ?case
  proof (cases "unhex_next x")
    case (Pair r x1)
    show ?thesis
    proof (cases r)
      case (Inl e)
      with 1(2) Pair hex.no_digit [of x e x1] show ?thesis
        by (auto simp: unhexmem.simps [of x] split: if_splits)
    next
      case (Inr a)
      with 1(2) Pair obtain b x2 z where 2: "unhex_next x1 = (Inr b, x2)" "unhexmem x2 = Inr z" "bs = (push_bit 4 a OR b) # z"
        by (auto simp: unhexmem.simps [of x] split: prod.splits sum.splits)
      from hex.digit_read Pair Inr obtain c where c: "visible x = c # visible x1" "unhexchar c = Inr a" by blast
      from hex.digit_read 2(1) obtain d where d: "visible x1 = d # visible x2" "unhexchar d = Inr b" by blast
      have "map unhexchar (visible x2) = map unhexchar (hexmem z)"
        using 1(1) [OF Pair [symmetric] Inr 2(1) [symmetric] refl 2(2)] .
      moreover have "a AND 15 = a" "b AND 15 = b" using unhexchar_Inr c d by blast+
      ultimately show ?thesis by (simp only: c d 2(3) hex_group unhexchar_hexchar list.map hexmem.simps)
    qed
  qed
qed
subsection \<open>base64\<close>

text \<open>The encoding of RFC 4648 without line breaks.\<close>

fun encode64 :: "u8 list \<Rightarrow> string" where
  "encode64 (x0 # x1 # x2 # xs) =
     base64char (drop_bit 2 x0) # base64char (push_bit 4 (x0 AND 3) OR drop_bit 4 x1)
     # base64char (push_bit 2 (x1 AND 15) OR drop_bit 6 x2) # base64char (x2 AND 63) # encode64 xs"
| "encode64 [x0, x1] =
     [base64char (drop_bit 2 x0), base64char (push_bit 4 (x0 AND 3) OR drop_bit 4 x1),
      base64char (push_bit 2 (x1 AND 15)), CHR ''='']"
| "encode64 [x0] =
     [base64char (drop_bit 2 x0), base64char (push_bit 4 (x0 AND 3)), CHR ''='', CHR ''='']"
| "encode64 [] = []"

lemma base64char_visible [simp]: "\<not> whitespace (base64char x)" "\<not> whitespace CHR ''=''"
  using unbase64char_not [of "base64char x"] by (simp_all add: whitespace_def)

lemma visible_put [simp]: "\<not> whitespace c \<Longrightarrow> visible (put line_break c z) = visible z @ [c]"
  by (simp add: put_def maybe_line_break_def) (simp add: whitespace_def)

lemma visible_base64_groups: "visible (base64_groups line_break z bs) = visible z @ encode64 bs"
  by (induction line_break z bs rule: base64_groups.induct) simp_all

lemma base64_groups_unbroken: "base64_groups SIZE_MAX z bs = z @ encode64 bs"
  by (induction SIZE_MAX z bs rule: base64_groups.induct)
    (simp_all add: put_def maybe_line_break_def)

lemma base64_group:
  "push_bit 2 (drop_bit 2 x AND 63) OR drop_bit 4 ((push_bit 4 (x AND 3) OR drop_bit 4 y) AND 63) = x"
  "push_bit 4 ((push_bit 4 (x AND 3) OR drop_bit 4 y) AND 63) OR drop_bit 2 ((push_bit 2 (y AND 15) OR drop_bit 6 z) AND 63) = y"
  "push_bit 6 ((push_bit 2 (y AND 15) OR drop_bit 6 z) AND 63) OR ((z AND 63) AND 63) = z"
  "push_bit 2 (drop_bit 2 x AND 63) OR drop_bit 4 (push_bit 4 (x AND 3) AND 63) = x"
  "(push_bit 4 (x AND 3) AND 63) AND 15 = 0"
  "push_bit 4 ((push_bit 4 (x AND 3) OR drop_bit 4 y) AND 63) OR drop_bit 2 (push_bit 2 (y AND 15) AND 63) = y"
  "(push_bit 2 (y AND 15) AND 63) AND 3 = 0"
  for x y z :: u8
  by (simp_all add: word8_simps)

lemma base64_ungroup:
  fixes a b c d :: u8
  assumes "a AND 63 = a" "b AND 63 = b" "c AND 63 = c" "d AND 63 = d"
  shows "drop_bit 2 (push_bit 2 a OR drop_bit 4 b) = a"
   "push_bit 4 ((push_bit 2 a OR drop_bit 4 b) AND 3) OR drop_bit 4 (push_bit 4 b OR drop_bit 2 c) = b"
   "push_bit 2 ((push_bit 4 b OR drop_bit 2 c) AND 15) OR drop_bit 6 (push_bit 6 c OR d) = c"
   "(push_bit 6 c OR d) AND 63 = d"
   "b AND 15 = 0 \<Longrightarrow> push_bit 4 ((push_bit 2 a OR drop_bit 4 b) AND 3) = b"
   "c AND 3 = 0 \<Longrightarrow> push_bit 2 ((push_bit 4 b OR drop_bit 2 c) AND 15) = c"
  using assms by (auto simp: word8_simps)

lemma read_four:
  assumes "visible x = c1 # c2 # c3 # c4 # cs"
    and "decode64 c1 = Inr v1" "decode64 c2 = Inr v2" "decode64 c3 = Inr v3" "decode64 c4 = Inr v4"
  obtains x1 x2 x3 x4 where "unbase64_next x = (Inr v1, x1)" "unbase64_next x1 = (Inr v2, x2)"
    "unbase64_next x2 = (Inr v3, x3)" "unbase64_next x3 = (Inr v4, x4)"
    "visible x4 = cs" "x4 = [] \<longleftrightarrow> cs = []"
proof -
  obtain x1 where 1: "unbase64_next x = (Inr v1, x1)" "visible x1 = c2 # c3 # c4 # cs"
    using b64.at_digit [OF assms(1,2)] by blast
  obtain x2 where 2: "unbase64_next x1 = (Inr v2, x2)" "visible x2 = c3 # c4 # cs"
    using b64.at_digit [OF 1(2) assms(3)] by blast
  obtain x3 where 3: "unbase64_next x2 = (Inr v3, x3)" "visible x3 = c4 # cs"
    using b64.at_digit [OF 2(2) assms(4)] by blast
  obtain x4 where 4: "unbase64_next x3 = (Inr v4, x4)" "visible x4 = cs" "x4 = [] \<longleftrightarrow> cs = []"
    using b64.at_digit [OF 3(2) assms(5)] by blast
  show ?thesis by (rule that [OF 1(1) 2(1) 3(1) 4])
qed

lemma unbase64mem_complete: "visible x = encode64 bs \<Longrightarrow> unbase64mem x = Inr bs"
proof (induction bs arbitrary: x rule: encode64.induct)
  case (1 x0 x1 x2 xs)
  obtain y1 y2 y3 y4 where y: "unbase64_next x = (Inr (Sextet (drop_bit 2 x0 AND 63)), y1)"
    "unbase64_next y1 = (Inr (Sextet ((push_bit 4 (x0 AND 3) OR drop_bit 4 x1) AND 63)), y2)"
    "unbase64_next y2 = (Inr (Sextet ((push_bit 2 (x1 AND 15) OR drop_bit 6 x2) AND 63)), y3)"
    "unbase64_next y3 = (Inr (Sextet ((x2 AND 63) AND 63)), y4)" "visible y4 = encode64 xs"
    using read_four [OF 1(2) [simplified encode64.simps]] decode64_simps by metis
  from 1(1) [OF y(5)] show ?case
    by (simp only: unbase64mem.simps [of x] y prod.case sum.case sextet.case base64_group append.simps)
next
  case (2 x0 x1)
  obtain y1 y2 y3 y4 where y: "unbase64_next x = (Inr (Sextet (drop_bit 2 x0 AND 63)), y1)"
    "unbase64_next y1 = (Inr (Sextet ((push_bit 4 (x0 AND 3) OR drop_bit 4 x1) AND 63)), y2)"
    "unbase64_next y2 = (Inr (Sextet (push_bit 2 (x1 AND 15) AND 63)), y3)"
    "unbase64_next y3 = (Inr Padding, y4)" "y4 = []"
    using read_four [OF 2 [simplified encode64.simps]] decode64_simps by metis
  show ?case
    by (simp only: unbase64mem.simps [of x] y prod.case sum.case sextet.case base64_group if_False if_True simp_thms)
next
  case (3 x0)
  obtain y1 y2 y3 y4 where y: "unbase64_next x = (Inr (Sextet (drop_bit 2 x0 AND 63)), y1)"
    "unbase64_next y1 = (Inr (Sextet (push_bit 4 (x0 AND 3) AND 63)), y2)"
    "unbase64_next y2 = (Inr Padding, y3)"
    "unbase64_next y3 = (Inr Padding, y4)" "y4 = []"
    using read_four [OF 3 [simplified encode64.simps]] decode64_simps by metis
  show ?case
    by (simp only: unbase64mem.simps [of x] y prod.case sum.case sextet.case base64_group if_False if_True simp_thms)
next
  case 4
  then show ?case by (simp add: unbase64mem.simps [of x] b64.at_end)
qed

text \<open>What the decoder read when it accepts a text: nothing, or a group of four.\<close>

lemma unbase64mem_cases:
  assumes "unbase64mem x = Inr bs"
  obtains (eof) "visible x = []" "bs = []"
  | (group) c1 c2 c3 c4 x1 x2 x3 x4 a b c d where
      "unbase64_next x = (Inr (Sextet a), x1)" "unbase64_next x1 = (Inr (Sextet b), x2)"
      "unbase64_next x2 = (Inr c, x3)" "unbase64_next x3 = (Inr d, x4)"
      "visible x = c1 # c2 # c3 # c4 # visible x4" "x4 = [] \<longleftrightarrow> visible x4 = []"
      "decode64 c1 = Inr (Sextet a)" "decode64 c2 = Inr (Sextet b)" "decode64 c3 = Inr c" "decode64 c4 = Inr d"
proof (cases "\<exists>e x1. unbase64_next x = (Inl e, x1)")
  case True
  then obtain e x1 where n: "unbase64_next x = (Inl e, x1)" by blast
  with assms have "e = EPIPE" "bs = []" by (simp_all add: unbase64mem.simps [of x] split: if_splits)
  with b64.no_digit [OF n] show ?thesis using eof by simp
next
  case False
  then obtain s x1 where 1: "unbase64_next x = (Inr s, x1)" by (metis old.sum.exhaust surj_pair)
  with assms obtain a where a: "s = Sextet a" by (cases s) (simp_all add: unbase64mem.simps [of x])
  obtain s2 x2 where 2: "unbase64_next x1 = (Inr s2, x2)"
    using assms 1 a by (cases "unbase64_next x1") (auto simp: unbase64mem.simps [of x] split: sum.splits)
  with assms 1 a obtain b where b: "s2 = Sextet b" by (cases s2) (simp_all add: unbase64mem.simps [of x])
  obtain c x3 where 3: "unbase64_next x2 = (Inr c, x3)"
    using assms 1 a 2 b by (cases "unbase64_next x2") (auto simp: unbase64mem.simps [of x] split: sum.splits)
  obtain d x4 where 4: "unbase64_next x3 = (Inr d, x4)"
    using assms 1 a 2 b 3 by (cases "unbase64_next x3") (auto simp: unbase64mem.simps [of x] split: sum.splits)
  obtain c1 where c1: "visible x = c1 # visible x1" "decode64 c1 = Inr s" using b64.digit_read [OF 1] by metis
  obtain c2 where c2: "visible x1 = c2 # visible x2" "decode64 c2 = Inr s2" using b64.digit_read [OF 2] by metis
  obtain c3 where c3: "visible x2 = c3 # visible x3" "decode64 c3 = Inr c" using b64.digit_read [OF 3] by metis
  obtain c4 where c4: "visible x3 = c4 # visible x4" "decode64 c4 = Inr d" "x4 = [] \<longleftrightarrow> visible x4 = []"
    using b64.digit_read [OF 4] by metis
  show ?thesis
    using group [OF 1 [unfolded a] 2 [unfolded b] 3 4 _ c4(3) c1(2) [unfolded a] c2(2) [unfolded b] c3(2) c4(2)]
    by (simp add: c1(1) c2(1) c3(1) c4(1))
qed

lemma unbase64mem_sound: "unbase64mem x = Inr bs \<Longrightarrow> visible x = encode64 bs"
proof (induction x arbitrary: bs rule: unbase64mem.induct)
  case (1 x)
  from 1(2) show ?case
  proof (cases rule: unbase64mem_cases)
    case eof
    then show ?thesis by simp
  next
    case (group c1 c2 c3 c4 x1 x2 x3 x4 a b c d)
    note r = group(1-4)
    note ab = decode64_Inr(2) [OF group(7)] decode64_Inr(2) [OF group(8)]
    show ?thesis
    proof (cases c)
      case Padding
      with 1(2) r have "d = Padding" "b AND 15 = 0" "x4 = []" "bs = [push_bit 2 a OR drop_bit 4 b]"
        by (simp_all add: unbase64mem.simps [of x] split: if_splits)
      with Padding ab group(5,6,9,10) show ?thesis
        using base64_ungroup [of a b 0 0] decode64_Inr(1) by auto
    next
      case (Sextet c')
      note c = decode64_Inr(2) [OF group(9) [unfolded Sextet]]
      show ?thesis
      proof (cases d)
        case Padding
        with Sextet 1(2) r have "c' AND 3 = 0" "x4 = []" "bs = [push_bit 2 a OR drop_bit 4 b, push_bit 4 b OR drop_bit 2 c']"
          by (simp_all add: unbase64mem.simps [of x] split: if_splits)
        with Padding ab c group(5,6,10) show ?thesis
          using base64_ungroup [of a b c' 0] decode64_Inr(1) by auto
      next
        case d: (Sextet d')
        with Sextet 1(2) r obtain z where z: "unbase64mem x4 = Inr z" "bs = [push_bit 2 a OR drop_bit 4 b, push_bit 4 b OR drop_bit 2 c', push_bit 6 c' OR d'] @ z"
          by (auto simp: unbase64mem.simps [of x] split: sum.splits)
        have "visible x4 = encode64 z"
          using 1(1) r Sextet d z(1) by metis
        with z(2) ab c decode64_Inr(2) [OF group(10) [unfolded d]] group(5) show ?thesis
          using base64_ungroup [of a b c' d'] by (simp only: append.simps encode64.simps)
      qed
    qed
  qed
qed

lemma length_encode64: "length (encode64 bs) = 4 * ((length bs + 2) div 3)"
  by (induction bs rule: encode64.induct) (simp_all, presburger)

subsubsection \<open>Line breaks\<close>

definition broken_at :: "nat \<Rightarrow> string \<Rightarrow> bool" where
  "broken_at line_break z \<longleftrightarrow>
     list_all (\<lambda>i. (z ! i = CHR 0x0A) = (i mod (line_break + 1) = line_break)) [0..<length z]"

lemma broken_at_snoc:
  assumes "broken_at n z" "(c = CHR 0x0A) = (length z mod (n + 1) = n)"
  shows "broken_at n (z @ [c])"
  using assms by (auto simp: broken_at_def list_all_iff nth_append less_Suc_eq)

lemma length_visible_snoc: "length (visible (z @ [c])) = length (visible z) + (if whitespace c then 0 else 1)"
  by simp

text \<open>
  The buffer while encoding: line breaks are exactly at the multiples of the line length, and
  they are the only white space.
\<close>

definition broken :: "nat \<Rightarrow> string \<Rightarrow> bool" where
  "broken n z \<longleftrightarrow> broken_at n z \<and>
     length z = length (visible z) + (length (visible z) - 1) div n"

lemma break_column:
  assumes "0 < n"
  shows "(k + (k - 1) div n) mod (n + 1) = n \<longleftrightarrow> 0 < k \<and> k mod n = (0::nat)"
proof (cases k)
  case (Suc j)
  have "k + (k - 1) div n = (j mod n + 1) + (j div n) * (n + 1)"
    using Suc by (simp add: algebra_simps)
  moreover have "j mod n < n" using assms by simp
  then have "j mod n + 1 < n + 1" by simp
  ultimately have "(k + (k - 1) div n) mod (n + 1) = j mod n + 1"
    by (metis mod_less mod_mult_self1)
  then show ?thesis using Suc assms by (auto simp: mod_Suc)
qed (use assms in simp)

lemma broken_put:
  assumes "broken n z" "0 < n" "n \<noteq> SIZE_MAX" "\<not> whitespace c"
  shows "broken n (put n c z)"
proof -
  define k where "k = length (visible z)"
  have len: "length z = k + (k - 1) div n" and b: "broken_at n z"
    using assms(1) by (simp_all add: broken_def k_def)
  have c: "c \<noteq> CHR 0x0A" using assms(4) by (auto simp: whitespace_def)
  have break: "length z mod (n + 1) = n \<longleftrightarrow> 0 < k \<and> k mod n = 0"
    unfolding len using assms(2) by (rule break_column)
  show ?thesis
  proof (cases "length z mod (n + 1) = n")
    case True
    have "broken_at n (z @ [CHR 0x0A])" using broken_at_snoc [OF b] True by simp
    moreover have "Suc (length z) mod (n + 1) = 0" using True by (simp add: mod_Suc)
    ultimately have "broken_at n ((z @ [CHR 0x0A]) @ [c])"
      using broken_at_snoc [of n "z @ [CHR 0x0A]" c] assms(2) c by simp
    moreover have "k div n = Suc ((k - 1) div n)"
      using True break assms(2) by (cases k) (auto simp: div_Suc)
    ultimately show ?thesis
      using True assms(3,4) len
      by (simp add: broken_def put_def maybe_line_break_def k_def whitespace_def)
  next
    case False
    have "broken_at n (z @ [c])" using broken_at_snoc [OF b] False c by simp
    moreover have "k div n = (k - 1) div n"
      using False break by (cases k) (auto simp: div_Suc)
    ultimately show ?thesis
      using False assms(3,4) len by (simp add: broken_def put_def maybe_line_break_def k_def)
  qed
qed

lemma broken_base64_groups:
  "broken n z \<Longrightarrow> 0 < n \<Longrightarrow> n \<noteq> SIZE_MAX \<Longrightarrow> broken n (base64_groups n z bs)"
  by (induction n z bs rule: base64_groups.induct) (simp_all add: broken_put)

lemma length_base64_groups:
  assumes "0 < n" "n \<noteq> SIZE_MAX"
  shows "length (base64_groups n [] bs) = length (encode64 bs) + (length (encode64 bs) - 1) div n"
proof -
  have "broken n []" by (simp add: broken_def broken_at_def)
  from broken_base64_groups [OF this assms, of bs] show ?thesis
    by (simp add: broken_def visible_base64_groups)
qed

subsection \<open>base32hex\<close>

lemma bit8_double: "bit (c * 2 :: u8) n \<longleftrightarrow> 0 < n \<and> n < 8 \<and> bit c (n - 1)"
  by (auto simp: bit_double_iff mult.commute [of c])


lemma digits_Inr:
  "digits cs = Inr ds \<Longrightarrow> length ds = length cs \<and> map base32hexchar ds = cs \<and> (\<forall>d \<in> set ds. d AND 31 = d)"
  by (induction cs arbitrary: ds) (auto split: sum.splits dest: unbase32hexchar_Inr)

lemma base32_group:
  "push_bit 3 (drop_bit 3 x AND 31) OR drop_bit 2 ((push_bit 2 (x AND 7) OR drop_bit 6 y) AND 31) = x"
  "push_bit 6 ((push_bit 2 (x AND 7) OR drop_bit 6 y) AND 31) OR push_bit 1 (drop_bit 1 (y AND 63) AND 31)
     OR drop_bit 4 ((push_bit 4 (y AND 1) OR drop_bit 4 z) AND 31) = y"
  "push_bit 4 ((push_bit 4 (y AND 1) OR drop_bit 4 z) AND 31)
     OR drop_bit 1 ((push_bit 1 (z AND 15) OR drop_bit 7 q) AND 31) = z"
  "push_bit 7 ((push_bit 1 (z AND 15) OR drop_bit 7 q) AND 31) OR push_bit 2 (drop_bit 2 (q AND 127) AND 31)
     OR drop_bit 3 ((push_bit 3 (q AND 3) OR drop_bit 5 w) AND 31) = q"
  "push_bit 5 ((push_bit 3 (q AND 3) OR drop_bit 5 w) AND 31) OR ((w AND 31) AND 31) = w"
  for x y z q w :: u8
  by (simp_all add: word8_simps bit8_double numeral_2_eq_2 [symmetric])

lemma base32_rest:
  "(push_bit 3 (q AND 3) AND 31) AND 7 = 0"
  "(push_bit 1 (q AND 15) AND 31) AND 1 = 0"
  "(push_bit 4 (q AND 1) AND 31) AND 15 = 0"
  "(push_bit 2 (q AND 7) AND 31) AND 3 = 0"
  "push_bit 3 (drop_bit 3 x AND 31) OR drop_bit 2 (push_bit 2 (x AND 7) AND 31) = x"
  "push_bit 6 ((push_bit 2 (x AND 7) OR drop_bit 6 y) AND 31) OR push_bit 1 (drop_bit 1 (y AND 63) AND 31)
     OR drop_bit 4 (push_bit 4 (y AND 1) AND 31) = y"
  "push_bit 4 ((push_bit 4 (y AND 1) OR drop_bit 4 z) AND 31) OR drop_bit 1 (push_bit 1 (z AND 15) AND 31) = z"
  "push_bit 7 ((push_bit 1 (z AND 15) OR drop_bit 7 q) AND 31) OR push_bit 2 (drop_bit 2 (q AND 127) AND 31)
     OR drop_bit 3 (push_bit 3 (q AND 3) AND 31) = q"
  for x y z q :: u8
  by (simp_all add: word8_simps bit8_double numeral_2_eq_2 [symmetric])

lemma base32_ungroup:
  fixes a b c d e f g h :: u8
  assumes "a AND 31 = a" "b AND 31 = b" "c AND 31 = c" "d AND 31 = d"
    "e AND 31 = e" "f AND 31 = f" "g AND 31 = g" "h AND 31 = h"
  shows "drop_bit 3 (push_bit 3 a OR drop_bit 2 b) = a"
    "push_bit 2 ((push_bit 3 a OR drop_bit 2 b) AND 7) OR drop_bit 6 (push_bit 6 b OR push_bit 1 c OR drop_bit 4 d) = b"
    "drop_bit 1 ((push_bit 6 b OR push_bit 1 c OR drop_bit 4 d) AND 63) = c"
    "push_bit 4 ((push_bit 6 b OR push_bit 1 c OR drop_bit 4 d) AND 1) OR drop_bit 4 (push_bit 4 d OR drop_bit 1 e) = d"
    "push_bit 1 ((push_bit 4 d OR drop_bit 1 e) AND 15) OR drop_bit 7 (push_bit 7 e OR push_bit 2 f OR drop_bit 3 g) = e"
    "drop_bit 2 ((push_bit 7 e OR push_bit 2 f OR drop_bit 3 g) AND 127) = f"
    "push_bit 3 ((push_bit 7 e OR push_bit 2 f OR drop_bit 3 g) AND 3) OR drop_bit 5 (push_bit 5 g OR h) = g"
    "(push_bit 5 g OR h) AND 31 = h"
    "b AND 3 = 0 \<Longrightarrow> push_bit 2 ((push_bit 3 a OR drop_bit 2 b) AND 7) = b"
    "d AND 15 = 0 \<Longrightarrow> push_bit 4 ((push_bit 6 b OR push_bit 1 c OR drop_bit 4 d) AND 1) = d"
    "e AND 1 = 0 \<Longrightarrow> push_bit 1 ((push_bit 4 d OR drop_bit 1 e) AND 15) = e"
    "g AND 7 = 0 \<Longrightarrow> push_bit 3 ((push_bit 7 e OR push_bit 2 f OR drop_bit 3 g) AND 3) = g"
  using assms by (auto simp: word8_simps bit8_double numeral_2_eq_2 [symmetric])

lemma groups_short:
  "length s < 8 \<Longrightarrow>
   unbase32hex_groups s = (case digits s of Inl e \<Rightarrow> Inl e | Inr ds \<Rightarrow> unbase32hex_group ds)"
  by (auto simp: unbase32hex_groups.simps [of s] split: sum.split)

lemma unbase32hex_groups_complete: "unbase32hex_groups (base32hexmem False bs) = Inr bs"
proof (induction False bs rule: base32hexmem.induct)
  case (1 x0 x1 x2 x3 x4 xs)
  have "take 8 (base32hexmem False (x0 # x1 # x2 # x3 # x4 # xs)) = map base32hexchar
     [drop_bit 3 x0, push_bit 2 (x0 AND 7) OR drop_bit 6 x1, drop_bit 1 (x1 AND 63),
      push_bit 4 (x1 AND 1) OR drop_bit 4 x2, push_bit 1 (x2 AND 15) OR drop_bit 7 x3,
      drop_bit 2 (x3 AND 127), push_bit 3 (x3 AND 3) OR drop_bit 5 x4, x4 AND 31]"
    "drop 8 (base32hexmem False (x0 # x1 # x2 # x3 # x4 # xs)) = base32hexmem False xs"
    "\<not> length (base32hexmem False (x0 # x1 # x2 # x3 # x4 # xs)) < 8"
    by simp_all
  with 1 show ?case
    by (simp only: unbase32hex_groups.simps [of "base32hexmem False (x0 # x1 # x2 # x3 # x4 # xs)"]
        digits.simps unbase32hexchar_base32hexchar list.map sum.case unbase32hex_group.simps base32_group if_False append.simps)
qed (subst groups_short, simp,
    simp only: base32hexmem.simps if_False append.simps digits.simps unbase32hexchar_base32hexchar sum.case
      unbase32hex_group.simps base32_group base32_rest simp_thms)+

lemma unbase32hex_groups_rest:
  assumes "unbase32hex_group ds = Inr bs" "length ds < 8" "\<forall>d \<in> set ds. d AND 31 = d"
  shows "map base32hexchar ds = base32hexmem False bs"
proof (cases ds rule: unbase32hex_group.cases)
  case (2 a b c d e f g)
  with assms show ?thesis
    using base32_ungroup [of a b c d e f g 0] by (auto split: if_splits)
next
  case (3 a b c d e)
  with assms show ?thesis
    using base32_ungroup [of a b c d e 0 0 0] by (auto split: if_splits)
next
  case (4 a b c d)
  with assms show ?thesis
    using base32_ungroup [of a b c d 0 0 0 0] by (auto split: if_splits)
next
  case (5 a b)
  with assms show ?thesis
    using base32_ungroup [of a b 0 0 0 0 0 0] by (auto split: if_splits)
qed (use assms in simp_all)

lemma unbase32hex_groups_sound: "unbase32hex_groups s = Inr bs \<Longrightarrow> s = base32hexmem False bs"
proof (induction s arbitrary: bs rule: unbase32hex_groups.induct)
  case (1 s)
  from 1(2) obtain ds where d: "digits (take 8 s) = Inr ds"
    by (auto simp: unbase32hex_groups.simps [of s] split: sum.splits)
  with 1(2) obtain gs where g: "unbase32hex_group ds = Inr gs"
    by (auto simp: unbase32hex_groups.simps [of s] split: sum.splits)
  note ds = digits_Inr [OF d]
  show ?case
  proof (cases "length s < 8")
    case True
    with 1(2) d g ds show ?thesis
      using unbase32hex_groups_rest [OF g] by (simp add: unbase32hex_groups.simps [of s])
  next
    case False
    with 1(2) d g obtain z where z: "unbase32hex_groups (drop 8 s) = Inr z" "bs = gs @ z"
      by (auto simp: unbase32hex_groups.simps [of s] split: sum.splits)
    have IH: "drop 8 s = base32hexmem False z" by (rule 1(1) [OF d g False z(1)])
    have "length ds = 8" using ds False by simp
    then obtain a b c d e f g' h where l: "ds = [a, b, c, d, e, f, g', h]"
      by (auto simp: length_Suc_conv numeral_eq_Suc)
    have "take 8 s @ drop 8 s = base32hexmem False bs"
      unfolding IH z(2) using ds g base32_ungroup [of a b c d e f g' h] by (auto simp: l)
    then show ?thesis by simp
  qed
qed

lemma unbase32hexmem_len_add: "unbase32hexmem_len (8 + l) = map_option ((+) 5) (unbase32hexmem_len l)"
proof -
  have "(8 + l) mod 8 = l mod 8" "(8 + l) div 8 = l div 8 + 1" by simp_all
  then show ?thesis by (simp add: unbase32hexmem_len_def)
qed

lemma base32_unpadded_length:
  "length (base32hexmem False bs) mod 8 \<in> {0, 2, 4, 5, 7}
   \<and> unbase32hexmem_len (length (base32hexmem False bs)) = Some (length bs)"
proof (induction False bs rule: base32hexmem.induct)
  case (1 x0 x1 x2 x3 x4 xs)
  have "length (base32hexmem False (x0 # x1 # x2 # x3 # x4 # xs)) = 8 + length (base32hexmem False xs)"
    by simp
  with 1 show ?case by (simp only: unbase32hexmem_len_add) simp
qed (simp_all add: unbase32hexmem_len_def)

definition base32_padding :: "nat \<Rightarrow> nat" where
  "base32_padding l = (8 - l mod 8) mod 8"

lemma base32hexmem_padded:
  "base32hexmem True bs =
   base32hexmem False bs @ replicate (base32_padding (length (base32hexmem False bs))) CHR ''=''"
proof -
  have r: "replicate (Suc 0) c = [c]" "replicate 3 c = [c, c, c]" "replicate 4 c = [c, c, c, c]"
    "replicate 6 c = [c, c, c, c, c, c]" for c :: char
    by (simp_all add: numeral_eq_Suc)
  show ?thesis
  proof (induction True bs rule: base32hexmem.induct)
    case (1 x0 x1 x2 x3 x4 xs)
    have "base32_padding (length (base32hexmem False (x0 # x1 # x2 # x3 # x4 # xs)))
        = base32_padding (length (base32hexmem False xs))"
      by (simp add: base32_padding_def)
    with 1 show ?case by (simp only: base32hexmem.simps append_assoc append.simps)
  qed (simp_all add: base32_padding_def r)
qed

lemma strip_padding_split:
  "\<exists>k \<le> 7 - n. p = strip_padding n p @ replicate k CHR ''=''"
proof (induction n p rule: strip_padding.induct)
  case (1 n p)
  show ?case
  proof (cases "p \<noteq> [] \<and> last p = CHR ''='' \<and> n < 7")
    case True
    with 1 obtain k where "k \<le> 7 - Suc n" "butlast p = strip_padding (Suc n) (butlast p) @ replicate k CHR ''=''" by blast
    with True have "p = strip_padding n p @ replicate (Suc k) CHR ''=''"
      by (simp add: strip_padding.simps [of n p] flip: replicate_append_same)
         (metis append.assoc append_butlast_last_id)
    moreover have "Suc k \<le> 7 - n" using True \<open>k \<le> 7 - Suc n\<close> by linarith
    ultimately show ?thesis by blast
  next
    case False
    then have "p = strip_padding n p @ replicate 0 CHR ''=''" by (auto simp: strip_padding.simps [of n p])
    then show ?thesis by (metis le0)
  qed
qed

lemma strip_padding_replicate:
  "n + k \<le> 7 \<Longrightarrow> s = [] \<or> last s \<noteq> CHR ''='' \<Longrightarrow> strip_padding n (s @ replicate k CHR ''='') = s"
proof (induction k arbitrary: n)
  case 0
  then show ?case by (auto simp: strip_padding.simps [of n s])
next
  case (Suc k)
  have e: "s @ replicate (Suc k) CHR ''='' = (s @ replicate k CHR ''='') @ [CHR ''='']"
    by (simp flip: replicate_append_same)
  have "n < 7" "Suc n + k \<le> 7" using Suc.prems(1) by simp_all
  with Suc show ?case
    unfolding e by (simp only: strip_padding.simps [of n "_ @ [_]"] butlast_snoc last_snoc) simp
qed

lemma base32hexmem_last: "base32hexmem False bs = [] \<or> last (base32hexmem False bs) \<noteq> CHR ''=''"
proof -
  have "CHR ''='' \<noteq> base32hexchar x" for x
  proof
    assume "CHR ''='' = base32hexchar x"
    then have "unbase32hexchar CHR ''='' = Inr (x AND 31)" by simp
    then show False by (simp add: unbase32hexchar_def)
  qed
  then have "CHR ''='' \<notin> set (base32hexmem False bs)"
    by (induction False bs rule: base32hexmem.induct) simp_all
  then show ?thesis by (metis last_in_set)
qed

lemma padding_unique:
  assumes "k \<le> 7"
  shows "(l + k) mod 8 = 0 \<longleftrightarrow> k = base32_padding l"
proof (cases "l mod 8 = 0")
  case True
  have "(l + k) mod 8 = k" using True assms by (simp flip: mod_add_left_eq)
  then show ?thesis using True by (simp add: base32_padding_def)
next
  case False
  define r where "r = l mod 8"
  have r: "0 < r" "r < 8" using False by (simp_all add: r_def)
  have "(l + k) mod 8 = (r + k) mod 8" by (simp add: r_def mod_add_left_eq)
  moreover have "(r + k) mod 8 = 0 \<longleftrightarrow> r + k = 8"
    using r assms by (cases "r + k < 8") (auto simp: not_less le_mod_geq)
  moreover have "base32_padding l = 8 - r" using r by (simp add: base32_padding_def flip: r_def)
  ultimately show ?thesis using r by auto
qed

lemma unbase32hexmem_iff:
  "unbase32hexmem padding p = Inr (bs, len) \<longleftrightarrow> p = base32hexmem padding bs \<and> len = length bs"
proof (cases padding)
  case False
  then show ?thesis
    using unbase32hex_groups_sound [of p] unbase32hex_groups_complete [of bs] base32_unpadded_length [of bs]
    by (auto simp: unbase32hexmem_def split: option.splits sum.splits)
next
  case True
  have dec: "unbase32hexmem True p = Inr (bs, len) \<longleftrightarrow>
      length p mod 8 = 0 \<and> strip_padding 0 p = base32hexmem False bs \<and> len = length bs"
    using unbase32hex_groups_sound [of "strip_padding 0 p"] unbase32hex_groups_complete [of bs]
      base32_unpadded_length [of bs]
    by (auto simp: unbase32hexmem_def Let_def split: option.splits sum.splits)
  have "length p mod 8 = 0 \<and> strip_padding 0 p = base32hexmem False bs \<longleftrightarrow> p = base32hexmem True bs"
  proof
    assume a: "length p mod 8 = 0 \<and> strip_padding 0 p = base32hexmem False bs"
    obtain k where k: "k \<le> 7" "p = base32hexmem False bs @ replicate k CHR ''=''"
      using strip_padding_split [of 0 p] a by auto
    with a padding_unique [OF k(1)] show "p = base32hexmem True bs"
      by (simp add: base32hexmem_padded)
  next
    assume p: "p = base32hexmem True bs"
    define l where "l = length (base32hexmem False bs)"
    have k: "base32_padding l \<le> 7" by (simp add: base32_padding_def less_Suc_eq_le [symmetric])
    show "length p mod 8 = 0 \<and> strip_padding 0 p = base32hexmem False bs"
      using padding_unique [OF k, of l] strip_padding_replicate [of 0 _ "base32hexmem False bs"] k base32hexmem_last [of bs]
      by (simp add: p base32hexmem_padded flip: l_def)
  qed
  then show ?thesis using dec True by auto
qed

section \<open>Outcomes and buffer sizes\<close>

definition bad_digit :: "string \<Rightarrow> bool" where
  "bad_digit s \<longleftrightarrow> list_ex (\<lambda>c. unhexchar c = Inl EINVAL) s"

lemma unhex_next_bad:
  assumes "visible x = c # cs" "unhexchar c = Inl e"
  obtains x' where "unhex_next x = (Inl EINVAL, x')"
proof -
  obtain r x' where n: "unhex_next x = (r, x')" by fastforce
  show ?thesis
  proof (cases r)
    case (Inl e')
    then show ?thesis using that hex.no_digit [of x e' x'] n assms(1) by auto
  next
    case (Inr v)
    then show ?thesis using hex.digit_read [of x v x'] n assms by (metis Inr_not_Inl list.inject)
  qed
qed

lemma unhexmem_error:
  "unhexmem x = Inl e \<Longrightarrow>
   e = EINVAL \<and> bad_digit (visible x) \<or> e = EPIPE \<and> \<not> bad_digit (visible x) \<and> odd (length (visible x))"
proof (induction x arbitrary: e rule: unhexmem.induct)
  case (1 x)
  consider (none) "visible x = []" | (bad1) c cs e' where "visible x = c # cs" "unhexchar c = Inl e'"
    | (one) c a where "visible x = [c]" "unhexchar c = Inr a"
    | (bad2) c a d cs e' where "visible x = c # d # cs" "unhexchar c = Inr a" "unhexchar d = Inl e'"
    | (two) c a d b cs where "visible x = c # d # cs" "unhexchar c = Inr a" "unhexchar d = Inr b"
    by (metis list.exhaust old.sum.exhaust)
  then show ?case
  proof cases
    case none
    with 1(2) show ?thesis by (simp add: unhexmem.simps [of x] hex.at_end)
  next
    case bad1
    obtain x' where "unhex_next x = (Inl EINVAL, x')" using unhex_next_bad [OF bad1] .
    with 1(2) bad1 unhexchar_Inl [OF bad1(2)] show ?thesis
      by (simp add: unhexmem.simps [of x] bad_digit_def)
  next
    case one
    obtain x1 where "unhex_next x = (Inr a, x1)" "visible x1 = []" using hex.at_digit [OF one] .
    with 1(2) one show ?thesis
      by (simp add: unhexmem.simps [of x] hex.at_end bad_digit_def)
  next
    case bad2
    obtain x1 where x1: "unhex_next x = (Inr a, x1)" "visible x1 = d # cs" using hex.at_digit [OF bad2(1,2)] .
    obtain x' where "unhex_next x1 = (Inl EINVAL, x')" using unhex_next_bad [OF x1(2) bad2(3)] .
    with 1(2) bad2 x1(1) unhexchar_Inl [OF bad2(3)] show ?thesis
      by (simp add: unhexmem.simps [of x] bad_digit_def)
  next
    case two
    obtain x1 where x1: "unhex_next x = (Inr a, x1)" "visible x1 = d # cs" using hex.at_digit [OF two(1,2)] .
    obtain x2 where x2: "unhex_next x1 = (Inr b, x2)" "visible x2 = cs" using hex.at_digit [OF x1(2) two(3)] .
    have "unhexmem x2 = Inl e"
      using 1(2) x1(1) x2(1) by (simp add: unhexmem.simps [of x] split: sum.splits)
    from 1(1) [OF x1(1) [symmetric] refl x2(1) [symmetric] refl this] two x2(2) show ?thesis
      by (simp add: bad_digit_def)
  qed
qed

lemma base64mem_fits:
  assumes "base64mem_full bs n = Some s" "length bs + 2 < 2 ^ 62"
  shows "length s < base64mem_size (length bs) n"
proof -
  define l where "l = length bs"
  define m where "m = 4 * (l + 2) div 3 + 1"
  have "4 * (l + 2) < 2 ^ 64" using assms(2) by (simp add: l_def)
  then have sz: "base64mem_size l n = (if n \<noteq> SIZE_MAX then (m + m div n) mod 2 ^ 64 else m)"
    by (simp add: base64mem_size_def m_def)
  have k: "length (encode64 bs) < m" unfolding length_encode64 m_def l_def
    by (simp add: less_Suc_eq_le less_eq_div_iff_mult_less_eq)
  have n: "0 < n" "s = base64_groups n [] bs"
    using assms(1) by (simp_all add: base64mem_full_def split: if_splits)
  show ?thesis
  proof (cases "n = SIZE_MAX")
    case True
    with k n sz show ?thesis by (simp add: base64_groups_unbroken l_def)
  next
    case False
    have "m < 2 ^ 63" using assms(2) unfolding m_def l_def by simp
    then have "m + m < 2 ^ 64" by simp
    then have "m + m div n < 2 ^ 64"
      using add_left_mono [OF div_le_dividend [of m n], of m] by (rule le_less_trans [rotated])
    then have "(m + m div n) mod 2 ^ 64 = m + m div n" by (rule mod_less)
    moreover have "(length (encode64 bs) - 1) div n \<le> m div n" using k by (intro div_le_mono) simp
    ultimately show ?thesis
      using length_base64_groups [OF n(1) False, of bs] k sz False n(2) by (simp add: l_def)
  qed
qed

lemma length_hexmem: "length (hexmem bs) = 2 * length bs"
  by (induction bs) simp_all

lemma base32hexmem_fits:
  assumes "length bs + 4 < 2 ^ 61"
  shows "length (base32hexmem padding bs) < base32hexmem_size padding (length bs)"
proof -
  define l where "l = length bs"
  have "length (base32hexmem False bs) = 8 * (l div 5) +
     (if l mod 5 = 4 then 7 else if l mod 5 = 3 then 5 else if l mod 5 = 2 then 4
      else if l mod 5 = 1 then 2 else 0)"
    unfolding l_def
  proof (induction False bs rule: base32hexmem.induct)
    case (1 x0 x1 x2 x3 x4 xs)
    have "length (x0 # x1 # x2 # x3 # x4 # xs) = 5 + length xs" by simp
    then show ?case using 1 by (simp only: mod_add_self1 div_add_self1) simp
  qed simp_all
  moreover have "length (base32hexmem True bs) = 8 * ((l + 4) div 5)"
    unfolding l_def
  proof (induction True bs rule: base32hexmem.induct)
    case (1 x0 x1 x2 x3 x4 xs)
    have "(length (x0 # x1 # x2 # x3 # x4 # xs) + 4) div 5 = (length xs + 4) div 5 + 1" by simp
    then show ?case using 1 by simp
  qed simp_all
  moreover have "8 * (l + 4) < 2 ^ 64" "8 * l < 2 ^ 64" using assms by (simp_all add: l_def)
  moreover have "8 * (k div 5) \<le> 8 * k div 5" for k :: nat
    by (simp add: less_eq_div_iff_mult_less_eq)
  ultimately show ?thesis
    by (cases padding) (simp_all add: base32hexmem_size_def less_Suc_eq_le del: mult_Suc_right distrib_left_numeral flip: l_def)
qed

lemma length_unhexmem:
  assumes "unhexmem x = Inr bs"
  shows "2 * length bs \<le> length x"
proof -
  have "length (visible x) = length (hexmem bs)"
    using unhexmem_sound [OF assms] map_eq_imp_length_eq by blast
  moreover have "length (visible x) \<le> length x" by (simp add: visible_def)
  ultimately show ?thesis by (simp add: length_hexmem)
qed

lemma unbase64mem_fits:
  assumes "unbase64mem x = Inr bs"
  shows "length bs < unbase64mem_size (length x)"
proof -
  have "length (encode64 bs) \<le> length x"
    using unbase64mem_sound [OF assms] by (metis visible_def length_filter_le)
  then have "(length bs + 2) div 3 \<le> length x div 4" unfolding length_encode64
    by (simp add: less_eq_div_iff_mult_less_eq)
  moreover have "length bs \<le> 3 * ((length bs + 2) div 3)"
    using mod_less_divisor [of 3 "length bs + 2"] mult_div_mod_eq [of 3 "length bs + 2"] by linarith
  ultimately show ?thesis unfolding unbase64mem_size_def by (simp add: less_Suc_eq_le)
qed
lemma SIZE_MAX_pos: "SIZE_MAX \<noteq> 0"
  by (simp add: SIZE_MAX_def)

subsection \<open>Appending in lines\<close>

lemma append_lines_ok:
  assumes "0 < width" "length x \<le> lines * width" "whitespace sep"
  shows "\<exists>t. append_lines lines indent width sep s x = Some (s @ t)
      \<and> length t \<le> lines * (indent + 1) + length x \<and> visible t = visible x"
  using assms
proof (induction lines arbitrary: sep s x)
  case 0
  then show ?case by simp
next
  case (Suc lines)
  define g where "g = (if s \<noteq> [] then [sep] @ (if sep = CHR 0x0A then replicate indent CHR '' '' else []) else [])"
  have g: "length g \<le> indent + 1" "visible g = []"
    using Suc.prems(3) by (auto simp: g_def visible_def whitespace_def)
  have "length (drop width x) \<le> lines * width" using Suc.prems(2) by simp
  from Suc.IH [OF Suc.prems(1) this, of "CHR 0x0A" "s @ g @ take width x"] obtain t where t:
    "append_lines lines indent width CHR 0x0A (s @ g @ take width x) (drop width x) = Some ((s @ g @ take width x) @ t)"
    "length t \<le> lines * (indent + 1) + length (drop width x)" "visible t = visible (drop width x)"
    by (auto simp: whitespace_def)
  have "append_lines (Suc lines) indent width sep s x = Some (s @ g @ take width x @ t)"
  proof -
    have "(if s \<noteq> [] then s @ [sep] @ (if sep = CHR 0x0A then replicate indent CHR '' '' else []) else s) = s @ g"
      by (simp add: g_def)
    with t(1) show ?thesis by (simp only: append_lines.simps Let_def append_assoc)
  qed
  moreover have "length (g @ take width x @ t) \<le> Suc lines * (indent + 1) + length x"
    using t(2) g(1) by simp
  moreover have "visible (g @ take width x @ t) = visible x"
    using t(3) g(2) by (metis append_Nil append_take_drop_id visible_simps(2))
  ultimately show ?case by blast
qed

lemma base64_append_width_ok:
  assumes "0 < width" "indent + width + 1 < 2 ^ 64" "whitespace sep"
  shows "\<exists>r. base64_append_width prefix sep indent p width = Some r
    \<and> (case r of Inl e \<Rightarrow> e = ENOMEM
       | Inr (s, None) \<Rightarrow> s = prefix \<and> p = []
       | Inr (s, Some m) \<Rightarrow> length s < m \<and> take (length prefix) s = prefix
                            \<and> unbase64mem (drop (length prefix) s) = Inr p)"
proof -
  define x where "x = encode64 p"
  define lines where "lines = length x div width + (if length x mod width \<noteq> 0 then 1 else 0)"
  define column where "column = indent + width + 1"
  have x: "base64mem p = Some x"
    by (simp add: base64mem_def base64mem_full_def base64_groups_unbroken x_def SIZE_MAX_pos)
  have c: "(indent + width + 1) mod 2 ^ 64 = column" "column \<noteq> 0" using assms(2) by (simp_all add: column_def)
  have "x = [] \<longleftrightarrow> p = []"
    unfolding x_def by (cases p rule: encode64.cases) simp_all
  define q r where "q = length x div width" and "r = length x mod width"
  have "length x = q * width + r" "r < width" using assms(1) by (simp_all add: q_def r_def)
  then have lw: "length x \<le> lines * width"
    by (simp add: lines_def add_mult_distrib flip: q_def r_def)
  obtain t where t: "append_lines lines indent width sep prefix x = Some (prefix @ t)"
    "length t \<le> lines * (indent + 1) + length x" "visible t = visible x"
    using append_lines_ok [OF assms(1) lw assms(3)] by blast
  have "visible x = x"
    using visible_base64_groups [of SIZE_MAX "[]" p] by (simp add: base64_groups_unbroken x_def)
  then have dec: "unbase64mem t = Inr p" using t(3) by (simp add: unbase64mem_complete x_def)
  have "lines * column = lines * (indent + 1) + lines * width" by (simp add: column_def algebra_simps)
  then have fit: "length (prefix @ t) < length prefix + 1 + 1 + column * lines"
    using t(2) lw by (simp add: mult.commute)
  show ?thesis
  proof (cases "x = [] \<or> length prefix \<ge> SSIZE_MAX - 1 - 1 \<or> lines > (SSIZE_MAX - length prefix - 1 - 1) div column")
    case True
    then show ?thesis
      unfolding base64_append_width_def x option.case Let_def lines_def [symmetric] c(1)
      using \<open>x = [] \<longleftrightarrow> p = []\<close> assms(1) c(2) by auto
  next
    case False
    then have "lines * column \<le> SSIZE_MAX - length prefix - 1 - 1"
      using c(2) by (simp add: not_less less_eq_div_iff_mult_less_eq)
    moreover have "length prefix < SSIZE_MAX - 1 - 1" using False by simp
    ultimately have "length prefix + 1 + 1 + column * lines \<le> SSIZE_MAX"
      unfolding mult.commute [of column] by linarith
    then have "(length prefix + 1 + 1 + column * lines) mod 2 ^ 64 = length prefix + 1 + 1 + column * lines"
      by (intro mod_less) (simp add: SSIZE_MAX_def)
    with False c t(1) fit dec assms(1) show ?thesis
      unfolding base64_append_width_def x option.case Let_def lines_def [symmetric] c(1)
      by simp
  qed
qed

lemma bad_digit_map: "bad_digit s \<longleftrightarrow> Inl EINVAL \<in> set (map unhexchar s)"
  by (force simp: bad_digit_def list_ex_iff image_iff)

lemma last_put [simp]: "put n c z \<noteq> []" "last (put n c z) = c"
  by (simp_all add: put_def)

lemma last_base64_groups:
  "z = [] \<or> \<not> whitespace (last z) \<Longrightarrow>
   base64_groups n z bs = [] \<or> \<not> whitespace (last (base64_groups n z bs))"
  by (induction n z bs rule: base64_groups.induct) simp_all

section \<open>Properties\<close>

text \<open>
  C20. \<open>unhexmem()\<close> inverts \<open>hexmem()\<close>, and its outcome is settled by the characters that are
  not white space: it returns the bytes \<open>bs\<close> exactly when they are the hexadecimal digits of
  \<open>bs\<close> (in either case), \<open>-EINVAL\<close> exactly when one of them is no digit, and \<open>-EPIPE\<close> exactly
  when all of them are digits and their number is odd.
\<close>

theorem unhexmem_outcome:
  "unhexmem (hexmem bs) = Inr bs
   \<and> (unhexmem x = Inr bs) = (map unhexchar (visible x) = map unhexchar (hexmem bs))
   \<and> (unhexmem x = Inl EINVAL) = bad_digit (visible x)
   \<and> (unhexmem x = Inl EPIPE) = (\<not> bad_digit (visible x) \<and> odd (length (visible x)))"
proof -
  have vis: "visible (hexmem bs) = hexmem bs" for bs
    by (induction bs) (simp_all add: unhexchar_Inr [OF unhexchar_hexchar])
  have good: "\<not> bad_digit (visible x) \<and> even (length (visible x))" if "unhexmem x = Inr zs" for zs
  proof -
    have m: "map unhexchar (visible x) = map unhexchar (hexmem zs)" by (rule unhexmem_sound [OF that])
    have "\<not> bad_digit (hexmem zs)" by (induction zs) (simp_all add: bad_digit_def)
    then show ?thesis
      using m map_eq_imp_length_eq [OF m] by (simp only: bad_digit_map length_hexmem) simp
  qed
  have iff: "(unhexmem y = Inr zs) = (map unhexchar (visible y) = map unhexchar (hexmem zs))" for y zs
    using unhexmem_complete unhexmem_sound by blast
  have "(unhexmem x = Inl EINVAL) = bad_digit (visible x)"
    "(unhexmem x = Inl EPIPE) = (\<not> bad_digit (visible x) \<and> odd (length (visible x)))"
    using unhexmem_error [of x] good by (cases "unhexmem x"; force)+
  then show ?thesis by (simp only: iff vis simp_thms)
qed

text \<open>
  C21. base64 round trip.  For every line length \<open>n > 0\<close> the encoder returns a text that
  decodes to the same bytes, in which a line break stands exactly at the positions \<open>n\<close>,
  \<open>2n + 1\<close>, \<open>\<dots>\<close> and the text does not end in one.  Conversely the decoder accepts a text only if
  the characters that are not white space are the canonical encoding of the bytes it returns:
  neither stray padding nor non-zero trailing bits are accepted.
\<close>

theorem base64_roundtrip:
  assumes "0 < n"
  shows "(\<exists>s. base64mem_full bs n = Some s \<and> unbase64mem s = Inr bs
      \<and> (n = SIZE_MAX \<or> broken_at n s) \<and> (s = [] \<or> last s \<noteq> CHR 0x0A))
    \<and> (unbase64mem x = Inr zs) = (base64mem zs = Some (visible x))"
proof -
  have "base64mem zs = Some (encode64 zs)"
    by (simp add: base64mem_def base64mem_full_def base64_groups_unbroken SIZE_MAX_pos)
  moreover have "unbase64mem x = Inr zs \<longleftrightarrow> visible x = encode64 zs"
    using unbase64mem_sound unbase64mem_complete by blast
  ultimately have dec: "(unbase64mem x = Inr zs) = (base64mem zs = Some (visible x))" 
    by (simp only: option.inject eq_commute [of "visible x"])
  define s where "s = base64_groups n [] bs"
  have 1: "base64mem_full bs n = Some s" using assms by (simp add: base64mem_full_def s_def)
  have 2: "unbase64mem s = Inr bs"
    by (rule unbase64mem_complete) (simp add: visible_base64_groups s_def)
  have "broken n []" by (simp add: broken_def broken_at_def)
  from broken_base64_groups [OF this assms, of bs] have 3: "n = SIZE_MAX \<or> broken_at n s"
    unfolding s_def broken_def by blast
  have 4: "s = [] \<or> last s \<noteq> CHR 0x0A"
    using last_base64_groups [of "[]" n bs] unfolding s_def whitespace_def by blast
  show ?thesis using 1 2 3 4 dec by blast
qed

theorem base64_roundtrip_witness:
  "0 < (2 :: nat)
   \<and> (\<exists>s. base64mem_full [77, 97, 110, 77] 2 = Some s \<and> unbase64mem s = Inr [77, 97, 110, 77]
      \<and> (2 = SIZE_MAX \<or> broken_at 2 s) \<and> (s = [] \<or> last s \<noteq> CHR 0x0A))
   \<and> (unbase64mem ''TQ = ='' = Inr [77]) = (base64mem [77] = Some (visible ''TQ = =''))"
  using base64_roundtrip [of 2 "[77, 97, 110, 77]" "''TQ = =''" "[77]"] by simp

text \<open>
  C22. base32hex round trip, with and without padding: the decoder returns \<open>bs\<close> and the length
  of \<open>bs\<close> exactly for the one text that the encoder gives for \<open>bs\<close>, and it fails with
  \<open>-EINVAL\<close> for every other text.
\<close>

theorem base32hex_roundtrip:
  "(unbase32hexmem padding p = Inr (bs, len)) = (p = base32hexmem padding bs \<and> len = length bs)
   \<and> (unbase32hexmem padding p = Inl e) = (e = EINVAL \<and> p \<notin> range (base32hexmem padding))"
proof -
  have dig: "digits cs = Inl e \<Longrightarrow> e = EINVAL" for cs e
    by (induction cs arbitrary: e) (auto split: sum.splits)
  have grp: "unbase32hex_group ds = Inl e \<Longrightarrow> e = EINVAL" for ds e
    by (cases ds rule: unbase32hex_group.cases) (auto split: if_splits)
  have grps: "unbase32hex_groups s = Inl e \<Longrightarrow> e = EINVAL" for s e
    by (induction s arbitrary: e rule: unbase32hex_groups.induct)
      (subst (asm) (2) unbase32hex_groups.simps, auto dest: dig grp split: sum.splits if_splits)
  have "unbase32hexmem padding p = Inl e' \<Longrightarrow> e' = EINVAL" for e'
    by (auto simp: unbase32hexmem_def Let_def dest: grps split: if_splits option.splits sum.splits)
  moreover have "p \<in> range (base32hexmem padding) \<longleftrightarrow> (\<exists>bs. unbase32hexmem padding p = Inr (bs, length bs))"
    using unbase32hexmem_iff [of padding p] by blast
  ultimately show ?thesis
    using unbase32hexmem_iff [of padding p] by (cases "unbase32hexmem padding p") auto
qed

text \<open>
  C23. No buffer is too small.  As long as the \<open>size_t\<close> computations do not wrap, every encoder
  writes its text and the terminating NUL, and every decoder its bytes and the NUL, within the
  size it asked \<open>malloc()\<close> for.  The bound for base64 is the exact one: two bytes below \<open>2 ^ 62\<close>
  the computed size wraps to a single byte.
\<close>

theorem buffers_large_enough:
  assumes "length bs + 4 < 2 ^ 61" "length x + 1 < 2 ^ 64" "base64mem_full bs n = Some s"
  shows "length (hexmem bs) < hexmem_size (length bs)
    \<and> length (base32hexmem padding bs) < base32hexmem_size padding (length bs)
    \<and> length s < base64mem_size (length bs) n
    \<and> (unhexmem x = Inr zs \<longrightarrow> length zs < unhexmem_size (length x))
    \<and> (unbase64mem x = Inr zs \<longrightarrow> length zs < unbase64mem_size (length x))
    \<and> base64mem_size (2 ^ 62 - 2) SIZE_MAX = 1"
proof (intro conjI impI)
  show "length (hexmem bs) < hexmem_size (length bs)"
    using assms(1) by (simp add: length_hexmem hexmem_size_def)
  show "length (base32hexmem padding bs) < base32hexmem_size padding (length bs)"
    by (rule base32hexmem_fits [OF assms(1)])
  show "length s < base64mem_size (length bs) n"
    using base64mem_fits [OF assms(3)] assms(1) by simp
  show "length zs < unhexmem_size (length x)" if "unhexmem x = Inr zs"
    using length_unhexmem [OF that] assms(2) by (simp add: unhexmem_size_def less_Suc_eq_le)
  show "length zs < unbase64mem_size (length x)" if "unbase64mem x = Inr zs"
    by (rule unbase64mem_fits [OF that])
  show "base64mem_size (2 ^ 62 - 2) SIZE_MAX = 1" by (simp add: base64mem_size_def)
qed

theorem buffers_large_enough_witness:
  "length [0 :: u8] + 4 < 2 ^ 61 \<and> length ''4a'' + 1 < 2 ^ 64
   \<and> base64mem_full [0] SIZE_MAX = Some (base64_groups SIZE_MAX [] [0])
   \<and> length (base64_groups SIZE_MAX [] [0]) < base64mem_size 1 SIZE_MAX"
  using buffers_large_enough [of "[0]" "''4a''" SIZE_MAX "base64_groups SIZE_MAX [] [0]"]
  by (simp add: base64mem_full_def SIZE_MAX_pos)




end
