(* ===== verification/Spec2Isabelle.thy ===== *)
theory Spec2Isabelle
  imports Transaction_Order Transaction_Build Job_Wait Job_Install Manager_Request Hexdecoct
begin

text \<open>
  A verification of parts of systemd 252.39 (\<open>src/systemd-stable-252.39/src\<close>): the job and
  transaction engine of the service manager, and support libraries of \<open>basic/\<close>.

  \<^bold>\<open>How the parts interact.\<close>  A request to start or stop a unit becomes a \<^emph>\<open>job\<close> of that
  unit.  The manager builds a \<^emph>\<open>transaction\<close> that holds the requested job (the anchor) and,
  following the dependencies of the units, the jobs it pulls in.  The transaction is cleaned: jobs
  that the anchor does not need and that would hurt are dropped, redundant jobs and garbage are
  removed, ordering cycles are broken, the jobs of one unit are merged into one.  A clean
  transaction is applied: its jobs are \<^emph>\<open>installed\<close> in their units and wait in the run queue until
  the jobs they are ordered after have finished.  The end of a job wakes the jobs that waited for
  it, and a failure takes the jobs that depend on it along.

  \<^bold>\<open>Conventions.\<close>  A C function that returns 0 or a negative errno is a function into
  \<open>err + 'a\<close>.  A failed \<open>assert()\<close> ends the process and is the value \<open>None\<close> of an option.
  Pointers to jobs are addresses into the map \<open>heap\<close> of the record \<open>sys\<close>, pointers to units are
  numbers into the map \<open>units\<close>; hash maps are association lists, intrusive linked lists are lists.
  Integers whose width matters are words.

  \<^bold>\<open>Theories.\<close>

  \<^descr> Prelude: error numbers, word types, scans of lists.

  \<^descr> Unit_Dependency: \<open>basic/unit-def.h\<close>, \<open>core/unit-dependency-atom.[ch]\<close> and the iteration
    macro of \<open>core/unit.h\<close>: the dependency types, their atoms, the reverse lookup, and that the
    shortcut of the iteration visits the units of the full scan (C1).

  \<^descr> Job_Type: the job types of \<open>core/job.h\<close> and their merging table.  The merge is an instance of
    a locale of partial commutative merges, from which order independence follows (C2).

  \<^descr> Job: jobs, job dependencies, the fields of units and of the manager that jobs use
    (\<open>core/job.h\<close>, \<open>core/unit.h\<close>), allocation and comparison of jobs.

  \<^descr> Transaction_Delete: \<open>transaction_unlink_job\<close>, \<open>transaction_delete_job\<close>,
    \<open>transaction_delete_unit\<close> of \<open>core/transaction.c\<close>; deleting a job removes exactly the jobs that
    need it (C3).

  \<^descr> Transaction_Clean: \<open>transaction_abort\<close>, the walk from the anchor, minimizing the impact,
    dropping redundant jobs, collecting garbage (C4 to C8).  The loops of the source that restart
    after every deletion are one function \<open>delete_while\<close> with the number of jobs as fuel, and a
    locale gives that this fuel is enough.

  \<^descr> Transaction_Merge: \<open>transaction_merge_jobs\<close> and the choice of a job to delete when types
    conflict (C9 to C11).

  \<^descr> Transaction_Order: \<open>transaction_verify_order\<close> (C12, C13).  The depth of the search is bounded
    by the number of job addresses.  Jobs have no cycle if their units have none (C26).

  \<^descr> Transaction_Build: \<open>transaction_add_job_and_dependencies\<close> and its callers, with a loader
    parameter for the reading of unit files (C18, C19).  Six nested calls per unit are enough.

  \<^descr> Transaction_Apply: \<open>transaction_is_destructive\<close>, \<open>transaction_apply\<close> and \<open>transaction_activate\<close>
    of \<open>core/transaction.c\<close>, \<open>manager_add_job\<close> and \<open>manager_propagate_reload\<close> of \<open>core/manager.c\<close>;
    the passes that clean a transaction only touch its own jobs.  Every restart of a loop follows a
    deletion, so one more than the number of jobs is enough fuel.

  \<^descr> Transaction_Commit: what applying a clean transaction does to the installed jobs (C27), and
    that an activation succeeds as a whole or leaves no trace, with the reasons to refuse it (C28).

  \<^descr> Manager_Request: \<open>manager_add_job\<close> from one state at rest to the next: building a transaction on
    a manager at rest gives one that can be activated, every request is answered (C29), and a unit
    can be stopped (C30).  Loading a unit is assumed not to touch its jobs, and \<open>hooks\<close> not to touch
    any; the numbers of jobs are 32 bit words, and their wrap-around is one of the reasons to fail.

  \<^descr> Job_Engine: the rest of \<open>core/job.c\<close>: state, timers, queues, running, finishing, installing.
    What a unit does when a job ends (unit notifications, failure actions, D-Bus signals) is the
    parameter \<open>hooks\<close>.

  \<^descr> Job_Invariant, Job_Finish, Job_Wait, Job_Install: the invariant \<open>wf_jobs\<close> of installed jobs
    and that the operations keep it; how failures spread (C14); the waiting relation and that some
    job can always run (C15 to C17); what installing a job does to the slots of its unit.  Finishing
    needs one nested call per installed job.

  \<^descr> Hexdecoct: \<open>basic/hexdecoct.[ch]\<close>: hexadecimal, base32hex and base64 in both directions, with
    round trips (C20 to C22), buffer sizes (C23), appending in lines (C24) and the overflow on
    narrow terminals (C25).  A locale of read cursors is shared by the hexadecimal and the base64
    reader.

  \<^bold>\<open>Not modelled.\<close>  The unit types and their state machines, unit file parsing, process execution,
  cgroups and sandboxing, D-Bus, the journal, the network stack, login and home management, udev,
  the boot loader and the container tools: they consist of system calls, wire protocols and files.
  Allocation failure is left out throughout, as is logging.  The copies of the sources for macOS
  and Cygwin differ in system headers only.
\<close>

end
